(* ===== verification/Prelude.thy ===== *)
theory Prelude
  imports Main "HOL-Library.Word" "HOL-Library.AList"
begin

section \<open>Shared vocabulary of the development\<close>

text \<open>
  What every component of the model uses: Python exceptions as values, the lemma
  collections, database tables as lists of rows (\<open>find\<close> for a lookup, \<open>update_where\<close> for
  an UPDATE), dictionaries as association lists, and the interface of everything that is
  written out and read back (an encoder with its partial decoder).
\<close>

named_theorems enum_simps \<open>values of the enums, evaluated\<close>
named_theorems frame_simps \<open>what an operation leaves unchanged\<close>
named_theorems table_simps \<open>lookups after table updates\<close>

subsection \<open>Exceptions as values\<close>

text \<open>A raised exception: its class name and the text that \<open>str(e)\<close> gives.\<close>

datatype pyexn = Exn (exn_type: string) (exn_msg: string)

text \<open>The handlers' error text, \<open>f"{type(exception).__name__}: {exception}"\<close>.\<close>

definition exn_text :: "pyexn \<Rightarrow> string" where
  "exn_text e = exn_type e @ '': '' @ exn_msg e"

text \<open>A fallible step that is followed by another one.\<close>

definition bind_result :: "pyexn + 'a \<Rightarrow> ('a \<Rightarrow> pyexn + 'b) \<Rightarrow> pyexn + 'b" where
  "bind_result r f = (case r of Inl e \<Rightarrow> Inl e | Inr x \<Rightarrow> f x)"

lemma bind_result_simps [simp]:
  "bind_result (Inl e) f = Inl e"
  "bind_result (Inr x) f = f x"
  by (simp_all add: bind_result_def)

lemma bind_result_assoc: "bind_result (bind_result r f) g = bind_result r (\<lambda>x. bind_result (f x) g)"
  by (cases r) simp_all

lemma bind_result_Inr_iff:
  "bind_result r f = Inr y \<longleftrightarrow> (\<exists>x. r = Inr x \<and> f x = Inr y)"
  by (cases r) auto

text \<open>What a web route answers: a value, an \<open>HTTPException\<close> it raises on purpose, or an
  exception that escapes it (the framework turns that one into a 500).\<close>

datatype 'a response = Answer 'a | HTTPException int string | Escaped pyexn

subsection \<open>Tables\<close>

type_synonym uuid = "128 word"
type_synonym timestamp = int  \<comment> \<open>microseconds\<close>

text \<open>\<open>UPDATE t SET ... WHERE P\<close>.\<close>

definition update_where :: "('r \<Rightarrow> bool) \<Rightarrow> ('r \<Rightarrow> 'r) \<Rightarrow> 'r list \<Rightarrow> 'r list" where
  "update_where P f t = map (\<lambda>r. if P r then f r else r) t"

lemma length_update_where [simp]: "length (update_where P f t) = length t"
  by (simp add: update_where_def)

lemma set_update_where:
  "set (update_where P f t) = {r. r \<in> set t \<and> \<not> P r} \<union> f ` {r. r \<in> set t \<and> P r}"
  by (auto simp: update_where_def)

lemma map_key_update_where:
  "(\<And>r. r \<in> set t \<Longrightarrow> P r \<Longrightarrow> key (f r) = key r) \<Longrightarrow> map key (update_where P f t) = map key t"
  by (auto simp: update_where_def)

lemma update_where_no_match:
  "(\<And>r. r \<in> set t \<Longrightarrow> \<not> P r) \<Longrightarrow> update_where P f t = t"
  by (auto simp: update_where_def intro: map_idI)

lemma find_in_set: "find P t = Some r \<Longrightarrow> r \<in> set t \<and> P r"
  by (auto simp: find_Some_iff)

lemma find_key_unique:
  assumes "distinct (map key t)" and "r \<in> set t"
  shows "find (\<lambda>q. key q = key r) t = Some r"
  using assms by (induction t) (auto simp: image_iff)

lemma find_key_iff:
  assumes "distinct (map key t)"
  shows "find (\<lambda>q. key q = k) t = Some r \<longleftrightarrow> r \<in> set t \<and> key r = k"
  using find_key_unique [OF assms] by (auto dest: find_in_set)

lemma find_key_update_where:
  assumes "\<And>r. key (f r) = key r"
  shows "find (\<lambda>q. key q = k) (update_where P f t) =
    map_option (\<lambda>r. if P r then f r else r) (find (\<lambda>q. key q = k) t)"
  using assms by (induction t) (auto simp: update_where_def)

lemma distinct_key_eq:
  "distinct (map key t) \<Longrightarrow> r \<in> set t \<Longrightarrow> q \<in> set t \<Longrightarrow> key r = key q \<Longrightarrow> r = q"
  by (auto simp: distinct_map dest: inj_onD)

lemma find_append: "find P (xs @ ys) = (case find P xs of None \<Rightarrow> find P ys | Some x \<Rightarrow> Some x)"
  by (induction xs) auto

lemma option_ext: "(\<And>x. a = Some x \<longleftrightarrow> b = Some x) \<Longrightarrow> a = b"
  by (cases a; cases b) auto

subsection \<open>Dictionaries\<close>

text \<open>A dict built from a sequence of pairs: a later pair overwrites the value of an
  earlier one and keeps its place.\<close>

definition dict_of :: "('k \<times> 'v) list \<Rightarrow> ('k \<times> 'v) list" where
  "dict_of kvs = fold (\<lambda>(k, v) d. AList.update k v d) kvs []"

lemma update_new_key: "k \<notin> fst ` set d \<Longrightarrow> AList.update k v d = d @ [(k, v)]"
  by (induction d) auto

lemma fold_update_distinct:
  "distinct (map fst (acc @ kvs)) \<Longrightarrow>
    fold (\<lambda>(k, v) d. AList.update k v d) kvs acc = acc @ kvs"
proof (induction kvs arbitrary: acc)
  case (Cons kv kvs)
  obtain k v where kv: "kv = (k, v)" by force
  from Cons.prems kv have "AList.update k v acc = acc @ [(k, v)]"
    by (intro update_new_key) auto
  with Cons.IH [of "acc @ [(k, v)]"] Cons.prems kv show ?case by simp
qed simp

lemma dict_of_distinct: "distinct (map fst kvs) \<Longrightarrow> dict_of kvs = kvs"
  unfolding dict_of_def using fold_update_distinct [of "[]" kvs] by simp

lemma map_of_map_key:
  assumes "distinct (map key t)"
  shows "map_of (map (\<lambda>r. (key r, f r)) t) k = map_option f (find (\<lambda>q. key q = k) t)"
  using assms by (induction t) (simp_all add: eq_commute)

subsection \<open>Written out and read back\<close>

text \<open>
  The interface of every pair of functions in which one reads what the other wrote: the
  enums' values, identifiers in text form, page cursors. \<open>valid\<close> is the set of values the
  writer is given.
\<close>

locale text_codec =
  fixes encode :: "'a \<Rightarrow> 'b"
    and decode :: "'b \<Rightarrow> 'a option"
    and valid :: "'a \<Rightarrow> bool"
  assumes decode_encode: "valid x \<Longrightarrow> decode (encode x) = Some x"
begin

lemma encode_injective:
  assumes "valid x" "valid y" "encode x = encode y"
  shows "x = y"
proof -
  have "Some x = decode (encode x)" using assms(1) by (rule decode_encode [symmetric])
  also have "\<dots> = decode (encode y)" unfolding assms(3) ..
  also have "\<dots> = Some y" using assms(2) by (rule decode_encode)
  finally show ?thesis by (rule option.inject [THEN iffD1])
qed

lemma inj_on_encode: "inj_on encode {x. valid x}"
  using encode_injective by (simp add: inj_on_def)

end

end
