(* ===== verification/PyText.thy ===== *)
theory PyText
  imports Prelude
begin

section \<open>Text: enum values, identifiers, JSON\<close>

text \<open>
  The parts of Python's standard library that the program's own text depends on: the lower
  casing that \<open>app/enums.py\<close> applies to member names, \<open>str(uuid)\<close> and \<open>uuid.hex\<close>, and the
  text that \<open>json.dumps\<close> writes with its default separators. A \<open>string\<close> is a list of code
  points below 256.
\<close>

lemma of_char_less: "(of_char c :: nat) < 256"
  by (rule nat_of_char_less_256)

subsection \<open>Lower casing (\<open>app/enums.py\<close>)\<close>

definition lower_char :: "char \<Rightarrow> char" where
  "lower_char c = (let n = of_char c :: nat in if 65 \<le> n \<and> n \<le> 90 then char_of (n + 32) else c)"

text \<open>\<open>LowerStrEnum._generate_next_value_\<close>: \<open>auto()\<close> gives the lowercased member name.\<close>

definition generate_next_value :: "string \<Rightarrow> string" where
  "generate_next_value name = map lower_char name"

subsection \<open>Joining and numbers\<close>

fun join :: "string \<Rightarrow> string list \<Rightarrow> string" where
  "join sep [] = []"
| "join sep [x] = x"
| "join sep (x # y # ys) = x @ sep @ join sep (y # ys)"

definition digit_char :: "nat \<Rightarrow> char" where
  "digit_char d = ''0123456789abcdef'' ! d"

fun str_nat :: "nat \<Rightarrow> string" where
  "str_nat n = (if n < 10 then [digit_char n] else str_nat (n div 10) @ [digit_char (n mod 10)])"

declare str_nat.simps [simp del]

definition str_int :: "int \<Rightarrow> string" where
  "str_int i = (if i < 0 then ''-'' @ str_nat (nat (- i)) else str_nat (nat i))"

subsection \<open>UUIDs\<close>

text \<open>The 32 hexadecimal digits of a UUID, most significant first.\<close>

definition uuid_hex :: "uuid \<Rightarrow> string" where
  "uuid_hex u = map (\<lambda>i. digit_char (unat (take_bit 4 (drop_bit (4 * i) u)))) (rev [0..<32])"

text \<open>\<open>str(uuid)\<close>: groups of 8, 4, 4, 4 and 12 digits.\<close>

definition uuid_str :: "uuid \<Rightarrow> string" where
  "uuid_str u = (let h = uuid_hex u in
     take 8 h @ ''-'' @ take 4 (drop 8 h) @ ''-'' @ take 4 (drop 12 h) @ ''-'' @
     take 4 (drop 16 h) @ ''-'' @ drop 20 h)"

lemma length_uuid_hex [simp]: "length (uuid_hex u) = 32"
  by (simp add: uuid_hex_def)

lemma length_uuid_str [simp]: "length (uuid_str u) = 36"
  by (simp add: uuid_str_def Let_def)

subsection \<open>UTF-8\<close>

text \<open>\<open>s.encode()\<close>, as a list of bytes.\<close>

definition utf8_encode :: "string \<Rightarrow> string" where
  "utf8_encode s = concat (map (\<lambda>c. let n = of_char c :: nat in
     if n < 128 then [c] else [char_of (192 + n div 64), char_of (128 + n mod 64)]) s)"

subsection \<open>JSON values\<close>

text \<open>A float is kept as the text Python prints for it: the program never computes with one.\<close>

datatype json = JNull | JBool bool | JInt int | JFloat string | JString string
  | JArray "json list" | JObject "(string \<times> json) list"

text \<open>\<open>json.dumps\<close>'s escape of one character (\<open>ensure_ascii\<close> is on by default).\<close>

definition json_escape :: "char \<Rightarrow> string" where
  "json_escape c = (let n = of_char c :: nat in
     if n = 34 then [char_of (92::nat), char_of (34::nat)]
     else if n = 92 then [char_of (92::nat), char_of (92::nat)]
     else if n = 10 then [char_of (92::nat), CHR ''n'']
     else if n = 13 then [char_of (92::nat), CHR ''r'']
     else if n = 9 then [char_of (92::nat), CHR ''t'']
     else if n = 8 then [char_of (92::nat), CHR ''b'']
     else if n = 12 then [char_of (92::nat), CHR ''f'']
     else if n < 32 \<or> n \<ge> 127
       then char_of (92::nat) # ''u00'' @ [digit_char (n div 16), digit_char (n mod 16)]
     else [c])"

definition json_string :: "string \<Rightarrow> string" where
  "json_string s = [char_of (34::nat)] @ concat (map json_escape s) @ [char_of (34::nat)]"

fun json_dumps :: "json \<Rightarrow> string" where
  "json_dumps JNull = ''null''"
| "json_dumps (JBool b) = (if b then ''true'' else ''false'')"
| "json_dumps (JInt i) = str_int i"
| "json_dumps (JFloat s) = s"
| "json_dumps (JString s) = json_string s"
| "json_dumps (JArray xs) = ''['' @ join '', '' (map json_dumps xs) @ '']''"
| "json_dumps (JObject kvs) =
     ''{'' @ join '', '' (map (\<lambda>(k, v). json_string k @ '': '' @ json_dumps v) kvs) @ ''}''"

text \<open>\<open>d["key"]\<close> on a parsed JSON value: an object answers or raises \<open>KeyError\<close>, anything
  else raises \<open>TypeError\<close>.\<close>

fun json_item :: "json \<Rightarrow> string \<Rightarrow> pyexn + json" where
  "json_item (JObject kvs) k =
     (case map_of kvs k of
        Some v \<Rightarrow> Inr v
      | None \<Rightarrow> Inl (Exn ''KeyError'' (CHR 0x27 # k @ [CHR 0x27])))"
| "json_item _ k = Inl (Exn ''TypeError'' ''object is not subscriptable'')"

text \<open>Bounds on the written text.\<close>

lemma length_json_escape: "length (json_escape c) \<le> 6"
  by (simp add: json_escape_def Let_def)

lemma length_concat_escape: "length (concat (map json_escape s)) \<le> 6 * length s"
proof (induction s)
  case (Cons c s)
  then show ?case using length_json_escape [of c] by simp
qed simp

lemma length_json_string: "length (json_string s) \<le> 6 * length s + 2"
  using length_concat_escape [of s] by (simp add: json_string_def)

text \<open>The written text is printable ASCII, and so one line, whatever texts the value holds.\<close>

definition printable :: "char \<Rightarrow> bool" where
  "printable c \<longleftrightarrow> 32 \<le> (of_char c :: nat) \<and> (of_char c :: nat) < 127"

fun plain_floats :: "json \<Rightarrow> bool" where
  "plain_floats (JFloat s) = list_all printable s"
| "plain_floats (JArray js) = (\<forall>j \<in> set js. plain_floats j)"
| "plain_floats (JObject kvs) = (\<forall>kv \<in> set kvs. plain_floats (snd kv))"
| "plain_floats _ = True"

lemma printable_digit: "d < 16 \<Longrightarrow> printable (digit_char d)"
proof -
  have "\<forall>d \<in> set [0..<16]. printable (digit_char d)" by code_simp
  then show "d < 16 \<Longrightarrow> printable (digit_char d)" by simp
qed

lemma printable_str_nat: "\<forall>c \<in> set (str_nat n). printable c"
proof (induction n rule: str_nat.induct)
  case (1 n)
  then show ?case by (subst str_nat.simps) (auto simp: printable_digit)
qed

lemma printable_str_int: "c \<in> set (str_int i) \<Longrightarrow> printable c"
  using printable_str_nat by (auto simp: str_int_def printable_def split: if_splits)

lemma printable_escape: "c \<in> set (json_escape x) \<Longrightarrow> printable c"
proof -
  have chars: "list_all printable (CHR 0x5C # ''u00nrtbf'')" "printable (char_of (92 :: nat))" "printable (char_of (34 :: nat))"
    by (simp_all add: printable_def)
  have "(of_char x :: nat) div 16 < 16" using of_char_less [of x] by linarith
  then have digits: "printable (digit_char ((of_char x :: nat) div 16))" "printable (digit_char ((of_char x :: nat) mod 16))"
    by (simp_all add: printable_digit)
  have self: "printable x" if "\<not> ((of_char x :: nat) < 32 \<or> 127 \<le> (of_char x :: nat))"
    using that by (simp add: printable_def)
  have "list_all printable (json_escape x)"
    unfolding json_escape_def Let_def using chars digits self
    by (simp only: list.pred_inject append.simps split: if_split) blast
  then show "c \<in> set (json_escape x) \<Longrightarrow> printable c" by (simp add: list_all_iff)
qed

lemma printable_json_string: "c \<in> set (json_string s) \<Longrightarrow> printable c"
  using printable_escape by (auto simp: json_string_def) (auto simp: printable_def)

lemma in_set_join: "c \<in> set (join sep xs) \<Longrightarrow> c \<in> set sep \<or> (\<exists>x \<in> set xs. c \<in> set x)"
  by (induction sep xs rule: join.induct) auto

lemma printable_punctuation: "c \<in> set ''[]{}, :'' \<Longrightarrow> printable c"
  by (auto simp: printable_def)

lemma printable_json_dumps: "plain_floats j \<Longrightarrow> c \<in> set (json_dumps j) \<Longrightarrow> printable c"
proof (induction j arbitrary: c rule: json_dumps.induct)
  case (6 js)
  then consider "c \<in> set ''[]{}, :''" | j where "j \<in> set js" "c \<in> set (json_dumps j)"
    using in_set_join [of c "'', ''" "map json_dumps js"] by auto
  then show ?case
  proof cases
    case 2
    with 6 show ?thesis by auto
  qed (rule printable_punctuation)
next
  case (7 kvs)
  let ?item = "\<lambda>(k, v). json_string k @ '': '' @ json_dumps v"
  have "c \<in> set ''[]{}, :'' \<or> (\<exists>x \<in> set (map ?item kvs). c \<in> set x)"
    using 7(3) in_set_join [of c "'', ''" "map ?item kvs"] by auto
  then consider "c \<in> set ''[]{}, :''" | k v where "(k, v) \<in> set kvs" "c \<in> set (?item (k, v))" by auto
  then show ?case
  proof cases
    case 2
    then have "c \<in> set (json_string k) \<or> c \<in> set ''[]{}, :'' \<or> c \<in> set (json_dumps v)" by auto
    moreover have "plain_floats v" using 7(2) 2(1) by auto
    ultimately show ?thesis using 7(1) [OF 2(1) refl] printable_json_string printable_punctuation by blast
  qed (rule printable_punctuation)
qed (auto simp: printable_str_int printable_json_string list_all_iff, auto simp: printable_def split: if_splits)

end
