(* ===== verification/Models.thy ===== *)
theory Models
  imports PyText "HOL-Library.List_Lexorder" "HOL-Library.Char_ord"
begin

section \<open>The data model (\<open>app/models.py\<close>, \<open>app/enums.py\<close>)\<close>

text \<open>
  The enums with their member names and values, and one record per table. A column that
  the code only ever fills with \<open>Enum.X.value\<close> (a step's name and status, a document's
  status) has the enum as its type; its text is \<open>*_value\<close>, and the values of each enum are
  pairwise different (the codec interpretations below), so comparing members is comparing
  the stored text. The database is the list of rows of each table. The unique constraints
  and foreign keys of the schema are the predicate \<open>schema_ok\<close>.
\<close>

subsection \<open>Enums\<close>

datatype document_status = PROCESSING | READY | FAILED

datatype step_name = OCR | METADATA | CHUNKING | EXTERNAL_CALL

datatype step_status = PENDING | QUEUED | RUNNING | AWAITING_CALLBACK | DONE | ERROR

fun document_status_member :: "document_status \<Rightarrow> string" where
  "document_status_member PROCESSING = ''PROCESSING''"
| "document_status_member READY = ''READY''"
| "document_status_member FAILED = ''FAILED''"

fun step_name_member :: "step_name \<Rightarrow> string" where
  "step_name_member OCR = ''OCR''"
| "step_name_member METADATA = ''METADATA''"
| "step_name_member CHUNKING = ''CHUNKING''"
| "step_name_member EXTERNAL_CALL = ''EXTERNAL_CALL''"

fun step_status_member :: "step_status \<Rightarrow> string" where
  "step_status_member PENDING = ''PENDING''"
| "step_status_member QUEUED = ''QUEUED''"
| "step_status_member RUNNING = ''RUNNING''"
| "step_status_member AWAITING_CALLBACK = ''AWAITING_CALLBACK''"
| "step_status_member DONE = ''DONE''"
| "step_status_member ERROR = ''ERROR''"

definition document_status_value :: "document_status \<Rightarrow> string" where
  "document_status_value s = generate_next_value (document_status_member s)"

definition step_name_value :: "step_name \<Rightarrow> string" where
  "step_name_value s = generate_next_value (step_name_member s)"

definition step_status_value :: "step_status \<Rightarrow> string" where
  "step_status_value s = generate_next_value (step_status_member s)"

text \<open>The members in declaration order, as iterating over the enum class gives them.\<close>

definition all_step_names :: "step_name list" where
  "all_step_names = [OCR, METADATA, CHUNKING, EXTERNAL_CALL]"

definition all_step_statuses :: "step_status list" where
  "all_step_statuses = [PENDING, QUEUED, RUNNING, AWAITING_CALLBACK, DONE, ERROR]"

definition all_document_statuses :: "document_status list" where
  "all_document_statuses = [PROCESSING, READY, FAILED]"

text \<open>\<open>StepName(v)\<close>: the member with that value, or a \<open>ValueError\<close> (\<open>None\<close> here).\<close>

definition step_name_of_value :: "string \<Rightarrow> step_name option" where
  "step_name_of_value v = find (\<lambda>s. step_name_value s = v) all_step_names"

definition step_status_of_value :: "string \<Rightarrow> step_status option" where
  "step_status_of_value v = find (\<lambda>s. step_status_value s = v) all_step_statuses"

definition document_status_of_value :: "string \<Rightarrow> document_status option" where
  "document_status_of_value v = find (\<lambda>s. document_status_value s = v) all_document_statuses"

lemma document_status_value_simps [enum_simps]:
  "document_status_value PROCESSING = ''processing''"
  "document_status_value READY = ''ready''"
  "document_status_value FAILED = ''failed''"
  by code_simp+

lemma step_name_value_simps [enum_simps]:
  "step_name_value OCR = ''ocr''"
  "step_name_value METADATA = ''metadata''"
  "step_name_value CHUNKING = ''chunking''"
  "step_name_value EXTERNAL_CALL = ''external_call''"
  by code_simp+

lemma step_status_value_simps [enum_simps]:
  "step_status_value PENDING = ''pending''"
  "step_status_value QUEUED = ''queued''"
  "step_status_value RUNNING = ''running''"
  "step_status_value AWAITING_CALLBACK = ''awaiting_callback''"
  "step_status_value DONE = ''done''"
  "step_status_value ERROR = ''error''"
  by code_simp+

interpretation step_name_codec: text_codec step_name_value step_name_of_value "\<lambda>_. True"
proof unfold_locales
  fix s :: step_name
  show "step_name_of_value (step_name_value s) = Some s"
    by (cases s) (simp_all add: step_name_of_value_def all_step_names_def enum_simps)
qed

interpretation step_status_codec: text_codec step_status_value step_status_of_value "\<lambda>_. True"
proof unfold_locales
  fix s :: step_status
  show "step_status_of_value (step_status_value s) = Some s"
    by (cases s) (simp_all add: step_status_of_value_def all_step_statuses_def enum_simps)
qed

interpretation document_status_codec:
  text_codec document_status_value document_status_of_value "\<lambda>_. True"
proof unfold_locales
  fix s :: document_status
  show "document_status_of_value (document_status_value s) = Some s"
    by (cases s)
      (simp_all add: document_status_of_value_def all_document_statuses_def enum_simps)
qed

lemma set_all_step_names [simp]: "set all_step_names = UNIV"
  using step_name.exhaust by (auto simp: all_step_names_def)

lemma distinct_all_step_names [simp]: "distinct all_step_names"
  by (simp add: all_step_names_def)

text \<open>
  Step names are ordered as the database orders the text in the \<open>name\<close> column, which is how
  \<open>Document.steps\<close> lists them (\<open>order_by="PipelineStep.name"\<close>).
\<close>

instantiation step_name :: linorder
begin

definition less_eq_step_name :: "step_name \<Rightarrow> step_name \<Rightarrow> bool" where
  "less_eq_step_name a b \<longleftrightarrow> step_name_value a \<le> step_name_value b"

definition less_step_name :: "step_name \<Rightarrow> step_name \<Rightarrow> bool" where
  "less_step_name a b \<longleftrightarrow> step_name_value a < step_name_value b"

instance
proof
  fix x y z :: step_name
  show "x < y \<longleftrightarrow> x \<le> y \<and> \<not> y \<le> x"
    by (auto simp: less_eq_step_name_def less_step_name_def)
  show "x \<le> x"
    by (simp add: less_eq_step_name_def)
  show "x \<le> y \<Longrightarrow> y \<le> z \<Longrightarrow> x \<le> z"
    unfolding less_eq_step_name_def by (rule order_trans)
  show "x \<le> y \<Longrightarrow> y \<le> x \<Longrightarrow> x = y"
    unfolding less_eq_step_name_def
    by (rule step_name_codec.encode_injective) simp_all
  show "x \<le> y \<or> y \<le> x"
    unfolding less_eq_step_name_def by (rule linear)
qed

end

subsection \<open>Tables\<close>

record organization =
  organization_id :: uuid
  organization_name :: string

record app_user =
  user_id :: uuid
  user_org_id :: uuid
  user_email :: string

record document =
  doc_id :: uuid
  doc_org_id :: uuid
  doc_uploaded_by :: uuid
  doc_filename :: string
  doc_storage_uri :: string
  doc_status :: document_status
  doc_created_at :: timestamp
  doc_updated_at :: timestamp

record pipeline_step =
  st_id :: uuid
  st_document_id :: uuid
  st_name :: step_name
  st_status :: step_status
  st_attempts :: int
  st_result :: "json option"
  st_error_text :: "string option"
  st_external_job_id :: "string option"
  st_started_at :: "timestamp option"
  st_finished_at :: "timestamp option"
  st_updated_at :: timestamp

record webhook_event =
  wh_id :: uuid
  wh_job_id :: string
  wh_signature_ok :: bool
  wh_payload :: json
  wh_received_at :: timestamp
  wh_processed_at :: "timestamp option"

record database =
  organizations :: "organization list"
  app_users :: "app_user list"
  documents :: "document list"
  pipeline_steps :: "pipeline_step list"
  webhook_events :: "webhook_event list"

definition step_key :: "pipeline_step \<Rightarrow> uuid \<times> step_name" where
  "step_key r = (st_document_id r, st_name r)"

text \<open>Lookups the queries are stated over.\<close>

definition find_document :: "uuid \<Rightarrow> database \<Rightarrow> document option" where
  "find_document d db = find (\<lambda>r. doc_id r = d) (documents db)"

definition find_user :: "uuid \<Rightarrow> database \<Rightarrow> app_user option" where
  "find_user u db = find (\<lambda>r. user_id r = u) (app_users db)"

definition find_step :: "uuid \<Rightarrow> step_name \<Rightarrow> database \<Rightarrow> pipeline_step option" where
  "find_step d s db = find (\<lambda>r. step_key r = (d, s)) (pipeline_steps db)"

definition steps_of :: "uuid \<Rightarrow> database \<Rightarrow> pipeline_step list" where
  "steps_of d db = filter (\<lambda>r. st_document_id r = d) (pipeline_steps db)"

definition status_of :: "uuid \<Rightarrow> step_name \<Rightarrow> database \<Rightarrow> step_status option" where
  "status_of d s db = map_option st_status (find_step d s db)"

text \<open>The constraints of the schema: primary keys, \<open>uq_step_document_name\<close>, the unique
  names and emails, and the foreign keys.\<close>

definition schema_ok :: "database \<Rightarrow> bool" where
  "schema_ok db \<longleftrightarrow>
     distinct (map organization_id (organizations db)) \<and>
     distinct (map organization_name (organizations db)) \<and>
     distinct (map user_id (app_users db)) \<and>
     distinct (map user_email (app_users db)) \<and>
     distinct (map doc_id (documents db)) \<and>
     distinct (map st_id (pipeline_steps db)) \<and>
     distinct (map step_key (pipeline_steps db)) \<and>
     user_org_id ` set (app_users db) \<subseteq> organization_id ` set (organizations db) \<and>
     doc_org_id ` set (documents db) \<subseteq> organization_id ` set (organizations db) \<and>
     doc_uploaded_by ` set (documents db) \<subseteq> user_id ` set (app_users db) \<and>
     st_document_id ` set (pipeline_steps db) \<subseteq> doc_id ` set (documents db)"

lemma schema_okD:
  assumes "schema_ok db"
  shows "distinct (map doc_id (documents db))"
    and "distinct (map st_id (pipeline_steps db))"
    and "distinct (map step_key (pipeline_steps db))"
    and "distinct (map user_id (app_users db))"
    and "distinct (map user_email (app_users db))"
    and "r \<in> set (pipeline_steps db) \<Longrightarrow> st_document_id r \<in> doc_id ` set (documents db)"
    and "q \<in> set (documents db) \<Longrightarrow> doc_uploaded_by q \<in> user_id ` set (app_users db)"
  using assms by (auto simp: schema_ok_def)

lemma find_step_iff:
  assumes "schema_ok db"
  shows "find_step d s db = Some r \<longleftrightarrow>
    r \<in> set (pipeline_steps db) \<and> st_document_id r = d \<and> st_name r = s"
  unfolding find_step_def find_key_iff [OF schema_okD(3) [OF assms]] by (auto simp: step_key_def)

lemma find_document_iff:
  assumes "schema_ok db"
  shows "find_document d db = Some r \<longleftrightarrow> r \<in> set (documents db) \<and> doc_id r = d"
  unfolding find_document_def by (rule find_key_iff [OF schema_okD(1) [OF assms]])

lemma find_step_row:
  "schema_ok db \<Longrightarrow> r \<in> set (pipeline_steps db) \<Longrightarrow> find_step (st_document_id r) (st_name r) db = Some r"
  by (simp add: find_step_iff)

lemma status_of_row:
  "schema_ok db \<Longrightarrow> r \<in> set (pipeline_steps db) \<Longrightarrow>
    status_of (st_document_id r) (st_name r) db = Some (st_status r)"
  by (simp only: status_of_def find_step_row option.map)

lemma find_stepD:
  "find_step d s db = Some r \<Longrightarrow>
    r \<in> set (pipeline_steps db) \<and> st_document_id r = d \<and> st_name r = s"
  by (auto simp: find_step_def step_key_def dest!: find_in_set)

lemma find_documentD: "find_document d db = Some r \<Longrightarrow> r \<in> set (documents db) \<and> doc_id r = d"
  by (auto simp: find_document_def dest!: find_in_set)

lemma set_steps_of [simp]:
  "set (steps_of d db) = {r \<in> set (pipeline_steps db). st_document_id r = d}"
  by (auto simp: steps_of_def)

lemma distinct_steps_of:
  assumes "schema_ok db"
  shows "distinct (map st_name (steps_of d db))"
proof -
  have "distinct (map step_key (steps_of d db))"
    using schema_okD(3) [OF assms] by (simp add: steps_of_def distinct_map_filter)
  moreover have "map step_key (steps_of d db) = map (Pair d) (map st_name (steps_of d db))"
    by (auto simp: steps_of_def step_key_def)
  ultimately show ?thesis by (metis distinct_map)
qed

lemma find_steps_of: "find (\<lambda>r. st_name r = s) (steps_of d db) = find_step d s db"
proof -
  have "find (\<lambda>r. st_name r = s) (filter (\<lambda>r. st_document_id r = d) t) =
      find (\<lambda>r. step_key r = (d, s)) t" for t
    by (induction t) (auto simp: step_key_def)
  then show ?thesis by (simp add: steps_of_def find_step_def)
qed

end
