(* ===== verification/Session.thy ===== *)
theory Session
  imports Models
begin

section \<open>Events and sessions (\<open>app/events/notify.py\<close> write side, \<open>app/db.py\<close>, \<open>app/pipeline/messages.py\<close>)\<close>

text \<open>
  A \<open>world\<close> is what one running operation sees: the committed database, the working copy of
  its own open transaction, the NOTIFYs queued on that transaction, the trace of what became
  visible outside (each commit with the database it left and the notifications it fired, each
  message handed to the broker, in order), the outcomes of the next broker connections, the
  clock, and the uploaded files. A session begins with \<open>open_session\<close>; \<open>commit\<close> publishes the working copy and its
  notifications together; \<open>rollback\<close> and closing a session drop them.

  The object-relational mapper (SQLAlchemy, \<open>autoflush=False\<close>, \<open>expire_on_commit=False\<close>)
  keeps the loaded rows in memory and, at the commit, sends one UPDATE per changed row with
  exactly the changed columns, addressed by the primary key, plus \<open>updated_at = now()\<close>
  (\<open>onupdate\<close>). Loaded rows are therefore plain values of the model, and
  \<open>flush_step old new\<close> is that UPDATE.
\<close>

subsection \<open>Event payloads\<close>

type_synonym event = "(string \<times> json) list"

definition KEY_DOCUMENT_ID :: string where "KEY_DOCUMENT_ID = ''document_id''"
definition KEY_STEP :: string where "KEY_STEP = ''step''"
definition KEY_STATUS :: string where "KEY_STATUS = ''status''"
definition KEY_DOC_STATUS :: string where "KEY_DOC_STATUS = ''doc_status''"
definition KEY_TYPE :: string where "KEY_TYPE = ''type''"
definition KEY_STEPS :: string where "KEY_STEPS = ''steps''"
definition TYPE_SNAPSHOT :: string where "TYPE_SNAPSHOT = ''snapshot''"

lemmas key_defs = KEY_DOCUMENT_ID_def KEY_STEP_def KEY_STATUS_def KEY_DOC_STATUS_def
  KEY_TYPE_def KEY_STEPS_def TYPE_SNAPSHOT_def

definition step_event :: "step_name \<Rightarrow> step_status \<Rightarrow> event" where
  "step_event s st = [(KEY_STEP, JString (step_name_value s)), (KEY_STATUS, JString (step_status_value st))]"

definition doc_status_event :: "document_status \<Rightarrow> event" where
  "doc_status_event st = [(KEY_DOC_STATUS, JString (document_status_value st))]"

definition snapshot_event :: "string \<Rightarrow> document_status \<Rightarrow> (string \<times> json) list \<Rightarrow> event" where
  "snapshot_event document_id doc_st steps_dict =
     [(KEY_TYPE, JString TYPE_SNAPSHOT), (KEY_DOCUMENT_ID, JString document_id),
      (KEY_DOC_STATUS, JString (document_status_value doc_st)), (KEY_STEPS, JObject steps_dict)]"

text \<open>The NOTIFY payload: \<open>json.dumps({"document_id": str(id), **event})\<close>.\<close>

definition notify_payload :: "uuid \<Rightarrow> event \<Rightarrow> json" where
  "notify_payload d e = JObject (dict_of ((KEY_DOCUMENT_ID, JString (uuid_str d)) # e))"

definition notify_text :: "uuid \<Rightarrow> event \<Rightarrow> string" where
  "notify_text d e = json_dumps (notify_payload d e)"

subsection \<open>Broker messages\<close>

text \<open>\<open>BackendStepPayload\<close>.\<close>

record payload =
  payload_document_id :: uuid
  payload_step :: step_name

subsection \<open>Worlds\<close>

datatype effect =
    Committed database "(uuid \<times> event) list"
  | Published payload

record world =
  committed :: database
  working :: database
  pending :: "(uuid \<times> event) list"
  trace :: "effect list"
  faults :: "bool list"
  clock :: timestamp
  disk :: "(string \<times> string) list"  \<comment> \<open>uploaded files: path, bytes\<close>

definition open_session :: "world \<Rightarrow> world" where
  "open_session w = w\<lparr>working := committed w, pending := []\<rparr>"

definition commit :: "world \<Rightarrow> world" where
  "commit w = w\<lparr>committed := working w, pending := [],
     trace := trace w @ [Committed (working w) (pending w)]\<rparr>"

definition rollback :: "world \<Rightarrow> world" where
  "rollback w = w\<lparr>working := committed w, pending := []\<rparr>"

text \<open>\<open>with session_scope() as session\<close> (and the request-scoped \<open>get_session\<close>): the session
  is closed on every path, which ends an open transaction without committing it.\<close>

definition session_scope :: "(world \<Rightarrow> 'a \<times> world) \<Rightarrow> world \<Rightarrow> 'a \<times> world" where
  "session_scope body w = (case body (open_session w) of (r, w') \<Rightarrow> (r, rollback w'))"

definition emit_event :: "uuid \<Rightarrow> event \<Rightarrow> world \<Rightarrow> world" where
  "emit_event d e w = w\<lparr>pending := pending w @ [(d, e)]\<rparr>"

text \<open>The messages sent to the broker and the notifications fired, read off the trace.\<close>

fun sent_of :: "effect list \<Rightarrow> payload list" where
  "sent_of [] = []"
| "sent_of (Published p # es) = p # sent_of es"
| "sent_of (Committed _ _ # es) = sent_of es"

fun notified_of :: "effect list \<Rightarrow> (uuid \<times> event) list" where
  "notified_of [] = []"
| "notified_of (Published _ # es) = notified_of es"
| "notified_of (Committed _ ns # es) = ns @ notified_of es"

fun committed_of :: "effect list \<Rightarrow> database list" where
  "committed_of [] = []"
| "committed_of (Published _ # es) = committed_of es"
| "committed_of (Committed db _ # es) = db # committed_of es"

lemma sent_of_append [simp]: "sent_of (xs @ ys) = sent_of xs @ sent_of ys"
  by (induction xs rule: sent_of.induct) auto

lemma notified_of_append [simp]: "notified_of (xs @ ys) = notified_of xs @ notified_of ys"
  by (induction xs rule: notified_of.induct) auto

lemma committed_of_append [simp]: "committed_of (xs @ ys) = committed_of xs @ committed_of ys"
  by (induction xs rule: committed_of.induct) auto

lemma mem_committed_of: "db \<in> set (committed_of es) \<longleftrightarrow> (\<exists>ns. Committed db ns \<in> set es)"
  by (induction es rule: committed_of.induct) auto

subsection \<open>Rows in memory\<close>

text \<open>The UPDATE of one step row: the columns in which the loaded row and the changed row
  differ, and \<open>updated_at\<close> when there is any.\<close>

definition merge_step :: "timestamp \<Rightarrow> pipeline_step \<Rightarrow> pipeline_step \<Rightarrow> pipeline_step \<Rightarrow> pipeline_step" where
  "merge_step now old new r =
     (if new = old then r else r\<lparr>
        st_status := (if st_status new = st_status old then st_status r else st_status new),
        st_attempts := (if st_attempts new = st_attempts old then st_attempts r else st_attempts new),
        st_result := (if st_result new = st_result old then st_result r else st_result new),
        st_error_text := (if st_error_text new = st_error_text old then st_error_text r else st_error_text new),
        st_external_job_id := (if st_external_job_id new = st_external_job_id old
          then st_external_job_id r else st_external_job_id new),
        st_started_at := (if st_started_at new = st_started_at old then st_started_at r else st_started_at new),
        st_finished_at := (if st_finished_at new = st_finished_at old then st_finished_at r else st_finished_at new),
        st_updated_at := now\<rparr>)"

definition flush_step :: "pipeline_step \<Rightarrow> pipeline_step \<Rightarrow> world \<Rightarrow> world" where
  "flush_step old new w = w\<lparr>working := (working w)\<lparr>pipeline_steps :=
     update_where (\<lambda>r. st_id r = st_id old) (merge_step (clock w) old new) (pipeline_steps (working w))\<rparr>\<rparr>"

text \<open>The UPDATE of a document's status.\<close>

definition flush_document_status :: "uuid \<Rightarrow> document_status \<Rightarrow> world \<Rightarrow> world" where
  "flush_document_status d st w = w\<lparr>working := (working w)\<lparr>documents :=
     update_where (\<lambda>r. doc_id r = d) (\<lambda>r. r\<lparr>doc_status := st, doc_updated_at := clock w\<rparr>)
       (documents (working w))\<rparr>\<rparr>"

text \<open>\<open>session.get(Document, id)\<close>.\<close>

definition get_document :: "uuid \<Rightarrow> world \<Rightarrow> document option" where
  "get_document d w = find_document d (working w)"

lemma commit_simps [simp]:
  "committed (commit w) = working w" "working (commit w) = working w" "pending (commit w) = []"
  "trace (commit w) = trace w @ [Committed (working w) (pending w)]"
  "faults (commit w) = faults w" "clock (commit w) = clock w" "disk (commit w) = disk w"
  by (simp_all add: commit_def)

lemma emit_event_simps [simp]:
  "committed (emit_event d e w) = committed w" "working (emit_event d e w) = working w"
  "pending (emit_event d e w) = pending w @ [(d, e)]" "trace (emit_event d e w) = trace w"
  "faults (emit_event d e w) = faults w" "clock (emit_event d e w) = clock w"
  "disk (emit_event d e w) = disk w"
  by (simp_all add: emit_event_def)

lemma flush_step_simps [simp]:
  "committed (flush_step old new w) = committed w" "pending (flush_step old new w) = pending w"
  "trace (flush_step old new w) = trace w" "faults (flush_step old new w) = faults w"
  "clock (flush_step old new w) = clock w" "disk (flush_step old new w) = disk w"
  "documents (working (flush_step old new w)) = documents (working w)"
  "app_users (working (flush_step old new w)) = app_users (working w)"
  "organizations (working (flush_step old new w)) = organizations (working w)"
  "webhook_events (working (flush_step old new w)) = webhook_events (working w)"
  "pipeline_steps (working (flush_step old new w)) =
     update_where (\<lambda>r. st_id r = st_id old) (merge_step (clock w) old new) (pipeline_steps (working w))"
  by (simp_all add: flush_step_def)

lemma flush_document_status_simps [simp]:
  "committed (flush_document_status d st w) = committed w"
  "pending (flush_document_status d st w) = pending w"
  "trace (flush_document_status d st w) = trace w"
  "faults (flush_document_status d st w) = faults w"
  "clock (flush_document_status d st w) = clock w"
  "disk (flush_document_status d st w) = disk w"
  "pipeline_steps (working (flush_document_status d st w)) = pipeline_steps (working w)"
  "app_users (working (flush_document_status d st w)) = app_users (working w)"
  "organizations (working (flush_document_status d st w)) = organizations (working w)"
  "webhook_events (working (flush_document_status d st w)) = webhook_events (working w)"
  by (simp_all add: flush_document_status_def)

lemma merge_step_simps [simp]:
  "st_id (merge_step now old new r) = st_id r"
  "st_document_id (merge_step now old new r) = st_document_id r"
  "st_name (merge_step now old new r) = st_name r"
  "step_key (merge_step now old new r) = step_key r"
  by (simp_all add: merge_step_def step_key_def)

subsection \<open>The NOTIFY size limit\<close>

lemma notify_payload_step:
  "notify_payload d (step_event s st) = JObject [(KEY_DOCUMENT_ID, JString (uuid_str d)),
     (KEY_STEP, JString (step_name_value s)), (KEY_STATUS, JString (step_status_value st))]"
  by (simp add: notify_payload_def step_event_def dict_of_distinct key_defs)

lemma notify_payload_doc:
  "notify_payload d (doc_status_event st) = JObject [(KEY_DOCUMENT_ID, JString (uuid_str d)),
     (KEY_DOC_STATUS, JString (document_status_value st))]"
  by (simp add: notify_payload_def doc_status_event_def dict_of_distinct key_defs)

end
