(* ===== verification/Queries.thy ===== *)
theory Queries
  imports Session "HOL-Library.Product_Lexorder"
begin

section \<open>The queries (\<open>app/transactions.py\<close>)\<close>

text \<open>
  Each function of the data-access module, on the working copy of the session's transaction.
  None of them commits. \<open>scalar_one_or_none\<close> raises when two rows match.
\<close>

definition scalar_one_or_none :: "'a list \<Rightarrow> pyexn + 'a option" where
  "scalar_one_or_none rows = (case rows of [] \<Rightarrow> Inr None | [r] \<Rightarrow> Inr (Some r)
     | _ \<Rightarrow> Inl (Exn ''MultipleResultsFound'' ''Multiple rows were found when one or none was required''))"

definition step_status_map :: "uuid \<Rightarrow> world \<Rightarrow> (step_name \<times> step_status) list" where
  "step_status_map d w = dict_of (map (\<lambda>r. (st_name r, st_status r)) (steps_of d (working w)))"

definition get_user_by_email :: "string \<Rightarrow> world \<Rightarrow> pyexn + app_user option" where
  "get_user_by_email email w = scalar_one_or_none (filter (\<lambda>u. user_email u = email) (app_users (working w)))"

definition get_step_by_job_id :: "string \<Rightarrow> world \<Rightarrow> pyexn + pipeline_step option" where
  "get_step_by_job_id job_id w =
     scalar_one_or_none (filter (\<lambda>r. st_external_job_id r = Some job_id) (pipeline_steps (working w)))"

text \<open>\<open>lock_stale_steps\<close>: the rows it returns (the row locks themselves only matter between
  concurrent sessions).\<close>

definition lock_stale_steps :: "step_status list \<Rightarrow> timestamp \<Rightarrow> world \<Rightarrow> pipeline_step list" where
  "lock_stale_steps statuses cutoff w =
     filter (\<lambda>r. st_status r \<in> set statuses \<and> st_updated_at r < cutoff) (pipeline_steps (working w))"

text \<open>\<open>claim_pending_step\<close>: the conditional UPDATE and whether it returned a row.\<close>

definition claimable :: "uuid \<Rightarrow> step_name \<Rightarrow> pipeline_step \<Rightarrow> bool" where
  "claimable d s r \<longleftrightarrow> st_document_id r = d \<and> st_name r = s \<and> st_status r = PENDING"

definition claim_pending_step :: "uuid \<Rightarrow> step_name \<Rightarrow> world \<Rightarrow> bool \<times> world" where
  "claim_pending_step d s w =
     (filter (claimable d s) (pipeline_steps (working w)) \<noteq> [],
      w\<lparr>working := (working w)\<lparr>pipeline_steps := update_where (claimable d s)
          (\<lambda>r. r\<lparr>st_status := QUEUED, st_updated_at := clock w\<rparr>) (pipeline_steps (working w))\<rparr>\<rparr>)"

subsection \<open>The page query\<close>

type_synonym sort_key = "timestamp \<times> uuid"

definition document_key :: "document \<Rightarrow> sort_key" where
  "document_key r = (doc_created_at r, doc_id r)"

text \<open>The joined and filtered rows, before ordering: \<open>JOIN app_user\<close>, the tenant filter, and
  the row-value comparison of the page boundary.\<close>

definition page_candidates :: "uuid \<Rightarrow> sort_key option \<Rightarrow> database \<Rightarrow> (document \<times> string) list" where
  "page_candidates org after_key db =
     concat (map (\<lambda>r. map (\<lambda>u. (r, user_email u))
                        (filter (\<lambda>u. user_id u = doc_uploaded_by r) (app_users db)))
       (filter (\<lambda>r. doc_org_id r = org \<and> (case after_key of None \<Rightarrow> True | Some k \<Rightarrow> document_key r < k))
          (documents db)))"

text \<open>\<open>ORDER BY created_at DESC, id DESC LIMIT n\<close>.\<close>

definition list_org_documents :: "uuid \<Rightarrow> int \<Rightarrow> sort_key option \<Rightarrow> world \<Rightarrow> (document \<times> string) list" where
  "list_org_documents org limit after_key w =
     take (nat limit) (rev (sort_key (\<lambda>(r, _). document_key r) (page_candidates org after_key (working w))))"

subsection \<open>What the queries answer\<close>

lemma step_status_map_eq:
  assumes "schema_ok (working w)"
  shows "step_status_map d w = map (\<lambda>r. (st_name r, st_status r)) (steps_of d (working w))"
  using distinct_steps_of [OF assms]
  by (simp add: step_status_map_def dict_of_distinct comp_def)

lemma map_of_step_status_map:
  assumes "schema_ok (working w)"
  shows "map_of (step_status_map d w) s = status_of d s (working w)"
  unfolding step_status_map_eq [OF assms]
  by (simp add: map_of_map_key [OF distinct_steps_of [OF assms]] find_steps_of status_of_def)

lemma scalar_one_or_none_simps [simp]:
  "scalar_one_or_none [] = Inr None" "scalar_one_or_none [x] = Inr (Some x)"
  by (simp_all add: scalar_one_or_none_def)

lemma scalar_one_or_none_Some: "scalar_one_or_none rows = Inr (Some r) \<longleftrightarrow> rows = [r]"
  by (auto simp: scalar_one_or_none_def split: list.splits)

lemma scalar_one_or_none_None: "scalar_one_or_none rows = Inr None \<longleftrightarrow> rows = []"
  by (auto simp: scalar_one_or_none_def split: list.splits)

lemma scalar_one_or_none_unique:
  assumes "\<And>r q. r \<in> set rows \<Longrightarrow> q \<in> set rows \<Longrightarrow> r = q" "distinct rows"
  shows "\<exists>x. scalar_one_or_none rows = Inr x"
proof (cases rows)
  case (Cons x xs)
  show ?thesis
  proof (cases xs)
    case (Cons y ys)
    with \<open>rows = x # xs\<close> assms(1) [of x y] assms(2) show ?thesis by simp
  qed (simp add: \<open>rows = x # xs\<close>)
qed simp

end
