(* ===== verification/Broker.thy ===== *)
theory Broker
  imports Session Config
begin

section \<open>The broker (\<open>app/worker/broker.py\<close>, \<open>app/pipeline/publisher.py\<close>)\<close>

text \<open>
  The queue names, the topology that every publisher and worker declares, and the publishing
  of one step message. A connection attempt can fail: the outcome of the next attempts is the
  \<open>faults\<close> script of the world (\<open>True\<close> is a connection error, an empty script is a broker that
  is up), so every theorem about an operation covers every pattern of broker failures.
\<close>

definition DLX_EXCHANGE :: string where "DLX_EXCHANGE = ''dlx''"
definition DEAD_LETTER_QUEUE :: string where "DEAD_LETTER_QUEUE = ''dead_letter''"

definition queue_name :: "step_name \<Rightarrow> string" where
  "queue_name s = ''step.'' @ step_name_value s"

lemma queue_name_inj: "queue_name s = queue_name t \<longleftrightarrow> s = t"
  using step_name_codec.encode_injective [of s t] by (auto simp: queue_name_def)

subsection \<open>Topology\<close>

datatype queue_argument = TextArg string | IntArg int

record topology =
  exchanges :: "(string \<times> string) list"                        \<comment> \<open>name, type\<close>
  queues :: "(string \<times> (string \<times> queue_argument) list) list"   \<comment> \<open>name, arguments\<close>
  bindings :: "(string \<times> string) list"                         \<comment> \<open>queue, exchange\<close>

text \<open>The broker's declarations create what is missing and change nothing otherwise.\<close>

definition exchange_declare :: "string \<Rightarrow> string \<Rightarrow> topology \<Rightarrow> topology" where
  "exchange_declare x kind t = t\<lparr>exchanges := List.insert (x, kind) (exchanges t)\<rparr>"

definition queue_declare :: "string \<Rightarrow> (string \<times> queue_argument) list \<Rightarrow> topology \<Rightarrow> topology" where
  "queue_declare q arguments t = t\<lparr>queues := List.insert (q, arguments) (queues t)\<rparr>"

definition queue_bind :: "string \<Rightarrow> string \<Rightarrow> topology \<Rightarrow> topology" where
  "queue_bind q x t = t\<lparr>bindings := List.insert (q, x) (bindings t)\<rparr>"

definition step_queue_arguments :: "settings \<Rightarrow> (string \<times> queue_argument) list" where
  "step_queue_arguments cfg = [(''x-queue-type'', TextArg ''quorum''),
     (''x-dead-letter-exchange'', TextArg DLX_EXCHANGE), (''x-delivery-limit'', IntArg (step_max_attempts cfg))]"

definition declare_topology :: "settings \<Rightarrow> topology \<Rightarrow> topology" where
  "declare_topology cfg t =
     fold (\<lambda>s. queue_declare (queue_name s) (step_queue_arguments cfg)) all_step_names
       (queue_bind DEAD_LETTER_QUEUE DLX_EXCHANGE
         (queue_declare DEAD_LETTER_QUEUE [(''x-queue-type'', TextArg ''quorum'')]
           (exchange_declare DLX_EXCHANGE ''fanout'' t)))"

subsection \<open>Publishing\<close>

definition publish_step :: "uuid \<Rightarrow> step_name \<Rightarrow> world \<Rightarrow> (pyexn + unit) \<times> world" where
  "publish_step d s w =
     (case faults w of
        True # fs \<Rightarrow> (Inl (Exn ''AMQPConnectionError'' []), w\<lparr>faults := fs\<rparr>)
      | _ \<Rightarrow> (Inr (), w\<lparr>faults := tl (faults w),
          trace := trace w @ [Published \<lparr>payload_document_id = d, payload_step = s\<rparr>]\<rparr>))"

lemma publish_step_frame [simp]:
  "committed (snd (publish_step d s w)) = committed w"
  "working (snd (publish_step d s w)) = working w"
  "pending (snd (publish_step d s w)) = pending w"
  "clock (snd (publish_step d s w)) = clock w"
  by (simp_all add: publish_step_def split: list.split bool.split)

lemma publish_step_trace:
  "trace (snd (publish_step d s w)) = trace w @
     (case fst (publish_step d s w) of
        Inr _ \<Rightarrow> [Published \<lparr>payload_document_id = d, payload_step = s\<rparr>] | Inl _ \<Rightarrow> [])"
  by (simp add: publish_step_def split: list.split bool.split)

end
