(* ===== verification/Dag.thy ===== *)
theory Dag
  imports Models
begin

section \<open>The dependency graph (\<open>app/pipeline/dag.py\<close>)\<close>

text \<open>
  A \<open>DependencyGraph\<close> is the dict from a node to the set of its predecessors, in declaration
  order. \<open>validate\<close> is the constructor's check: no edge to an unknown node, then Kahn's
  algorithm with the indegree table and the queue of ready nodes. The lemmas show that the
  loop stops on every dict, that the check accepts exactly the closed acyclic graphs, and
  what \<open>ready_successors\<close> answers. The interface \<open>dependency_graph\<close> is what the
  transitioner relies on; the pipeline's own graph is an instance of it.
\<close>

type_synonym 'n graph = "('n \<times> 'n set) list"

definition nodes :: "'n graph \<Rightarrow> 'n list" where
  "nodes g = map fst g"

definition entry_nodes :: "'n graph \<Rightarrow> 'n list" where
  "entry_nodes g = map fst (filter (\<lambda>(n, ps). Set.is_empty ps) g)"

definition successors_of :: "'n graph \<Rightarrow> 'n \<Rightarrow> 'n list" where
  "successors_of g n = map fst (filter (\<lambda>(c, ps). n \<in> ps) g)"

definition terminal_nodes :: "'n graph \<Rightarrow> 'n list" where
  "terminal_nodes g = filter (\<lambda>n. List.null (successors_of g n)) (map fst g)"

definition predecessors_of :: "'n graph \<Rightarrow> 'n \<Rightarrow> 'n set option" where
  "predecessors_of g n = map_of g n"

definition ready_successors :: "'n graph \<Rightarrow> 'n set \<Rightarrow> 'n list" where
  "ready_successors g done_set =
     map fst (filter (\<lambda>(n, ps). n \<notin> done_set \<and> ps \<subseteq> done_set) g)"

subsection \<open>The constructor's check\<close>

text \<open>The body of the \<open>for successor\<close> loop: decrement, and append when the count is zero.\<close>

definition relax :: "'n \<Rightarrow> ('n \<Rightarrow> int) \<times> 'n list \<Rightarrow> ('n \<Rightarrow> int) \<times> 'n list" where
  "relax s st = (let indegree = (fst st)(s := fst st s - 1) in
     (indegree, if indegree s = 0 then snd st @ [s] else snd st))"

text \<open>What shrinks: the indegrees still to be paid, counted twice, plus the queue.\<close>

definition kahn_size :: "'n graph \<Rightarrow> ('n \<Rightarrow> int) \<times> 'n list \<Rightarrow> nat" where
  "kahn_size g st = 2 * sum_list (map (\<lambda>(n, _). nat (fst st n)) g) + length (snd st)"

lemma sum_decrement:
  fixes f :: "'n \<Rightarrow> int"
  shows "sum_list (map (\<lambda>(n, _). nat ((f(s := f s - 1)) n)) g) \<le> sum_list (map (\<lambda>(n, _). nat (f n)) g)"
  by (rule sum_list_mono) auto

lemma sum_decrement_less:
  fixes f :: "'n \<Rightarrow> int"
  assumes "s \<in> fst ` set g" "0 < f s"
  shows "sum_list (map (\<lambda>(n, _). nat ((f(s := f s - 1)) n)) g) < sum_list (map (\<lambda>(n, _). nat (f n)) g)"
  using assms
proof (induction g)
  case (Cons a g)
  obtain n ps where a: "a = (n, ps)" by force
  have le: "nat ((f(s := f s - 1)) n) \<le> nat (f n)" by auto
  show ?case
  proof (cases "s = n")
    case True
    with Cons.prems(2) sum_decrement [of f n g] a show ?thesis by auto
  next
    case False
    with Cons.prems a have "s \<in> fst ` set g" by auto
    with Cons.IH Cons.prems(2) le a show ?thesis by simp
  qed
qed simp

lemma kahn_size_relax: "s \<in> fst ` set g \<Longrightarrow> kahn_size g (relax s st) \<le> kahn_size g st"
proof (cases "fst st s - 1 = 0")
  case True
  assume s: "s \<in> fst ` set g"
  from True have "0 < fst st s" by simp
  with sum_decrement_less [of s g "fst st"] s True show ?thesis
    by (simp add: kahn_size_def relax_def Let_def)
next
  case False
  then show ?thesis using sum_decrement [of "fst st" s g]
    by (simp add: kahn_size_def relax_def Let_def)
qed

lemma kahn_size_fold:
  "set ss \<subseteq> fst ` set g \<Longrightarrow> kahn_size g (fold relax ss st) \<le> kahn_size g st"
proof (induction ss arbitrary: st)
  case (Cons s ss)
  then have "kahn_size g (fold relax ss (relax s st)) \<le> kahn_size g (relax s st)" by simp
  also have "\<dots> \<le> kahn_size g st" using Cons.prems by (intro kahn_size_relax) simp
  finally show ?case by simp
qed simp

lemma successors_of_subset: "set (successors_of g n) \<subseteq> fst ` set g"
  by (auto simp: successors_of_def)

lemma kahn_size_step:
  "kahn_size g (fold relax (successors_of g node) (indegree, ready)) < kahn_size g (indegree, node # ready)"
proof -
  have "kahn_size g (fold relax (successors_of g node) (indegree, ready)) \<le> kahn_size g (indegree, ready)"
    by (rule kahn_size_fold [OF successors_of_subset])
  then show ?thesis by (simp add: kahn_size_def)
qed

text \<open>The \<open>while ready\<close> loop; the result is the count of ordered nodes.\<close>

function kahn_loop :: "'n graph \<Rightarrow> ('n \<Rightarrow> int) \<Rightarrow> 'n list \<Rightarrow> nat \<Rightarrow> nat" where
  "kahn_loop g indegree [] ordered = ordered"
| "kahn_loop g indegree (node # ready) ordered =
     (case fold relax (successors_of g node) (indegree, ready) of
        (indegree', ready') \<Rightarrow> kahn_loop g indegree' ready' (Suc ordered))"
  by pat_completeness auto
termination
  by (relation "measure (\<lambda>(g, indegree, ready, ordered). kahn_size g (indegree, ready))")
    (auto simp: kahn_size_step)

definition initial_indegree :: "'n graph \<Rightarrow> 'n \<Rightarrow> int" where
  "initial_indegree g n = (case map_of g n of Some ps \<Rightarrow> int (card ps) | None \<Rightarrow> 0)"

definition validate :: "'n graph \<Rightarrow> pyexn + unit" where
  "validate g =
     (if \<exists>(node, ps) \<in> set g. \<not> ps \<subseteq> set (nodes g)
      then Inl (Exn ''ValueError'' ''depends on unknown nodes'')
      else if kahn_loop g (initial_indegree g)
                (filter (\<lambda>n. initial_indegree g n = 0) (nodes g)) 0 \<noteq> length g
      then Inl (Exn ''ValueError'' ''dependency graph has a cycle'')
      else Inr ())"

text \<open>\<open>DependencyGraph(predecessors)\<close>: the object, or the \<open>ValueError\<close>.\<close>

definition dependency_graph_init :: "'n graph \<Rightarrow> pyexn + 'n graph" where
  "dependency_graph_init predecessors =
     bind_result (validate predecessors) (\<lambda>_. Inr predecessors)"

definition PREDECESSORS :: "step_name graph" where
  "PREDECESSORS = [(OCR, {}), (METADATA, {OCR}), (CHUNKING, {OCR}),
     (EXTERNAL_CALL, {METADATA, CHUNKING})]"

definition PIPELINE :: "step_name graph" where
  "PIPELINE = (case dependency_graph_init PREDECESSORS of Inr g \<Rightarrow> g | Inl _ \<Rightarrow> [])"

subsection \<open>The check accepts exactly the closed acyclic graphs\<close>

definition edges :: "'n graph \<Rightarrow> ('n \<times> 'n) set" where
  "edges g = {(p, c). \<exists>ps. (c, ps) \<in> set g \<and> p \<in> ps}"

definition closed_graph :: "'n graph \<Rightarrow> bool" where
  "closed_graph g \<longleftrightarrow> (\<forall>(c, ps) \<in> set g. ps \<subseteq> set (nodes g))"

abbreviation parents :: "'n graph \<Rightarrow> 'n \<Rightarrow> 'n set" where
  "parents g c \<equiv> the (map_of g c)"

text \<open>One pass of the inner loop over distinct successors, in closed form.\<close>

lemma fold_relax:
  assumes "distinct ss"
  shows "fold relax ss (indegree, ready) =
    (\<lambda>c. if c \<in> set ss then indegree c - 1 else indegree c,
     ready @ filter (\<lambda>s. indegree s = 1) ss)"
  using assms
proof (induction ss arbitrary: indegree ready)
  case (Cons s ss)
  let ?i = "indegree(s := indegree s - 1)"
  have "filter (\<lambda>c. ?i c = 1) ss = filter (\<lambda>c. indegree c = 1) ss"
    using Cons.prems by (intro filter_cong) auto
  then show ?case
    using Cons by (auto simp: relax_def Let_def fun_eq_iff)
qed simp

text \<open>The loop invariant over the set \<open>D\<close> of nodes already ordered.\<close>

definition kahn_inv :: "'n graph \<Rightarrow> 'n set \<Rightarrow> ('n \<Rightarrow> int) \<Rightarrow> 'n list \<Rightarrow> bool" where
  "kahn_inv g D indegree ready \<longleftrightarrow>
     D \<subseteq> set (nodes g) \<and> (\<forall>c \<in> D. parents g c \<subseteq> D) \<and> acyclic {(p, c). c \<in> D \<and> p \<in> parents g c} \<and>
     distinct ready \<and> set ready = {c \<in> set (nodes g). c \<notin> D \<and> parents g c \<subseteq> D} \<and>
     (\<forall>c \<in> set (nodes g). indegree c = int (card (parents g c - D)))"

lemma acyclic_add_sink:
  assumes R: "acyclic R" and new: "\<And>x y. (x, y) \<in> R' \<Longrightarrow> (x, y) \<in> R \<or> y = n"
    and sink: "\<And>y. (n, y) \<notin> R'"
  shows "acyclic R'"
proof (rule acyclicI, intro allI notI)
  have path: "(x, y) \<in> R'\<^sup>+ \<Longrightarrow> (x, y) \<in> R\<^sup>+ \<or> y = n" for x y
  proof (induction rule: trancl_induct)
    case (base y)
    with new [of x y] show ?case by blast
  next
    case (step y z)
    with sink have "(x, y) \<in> R\<^sup>+" by blast
    with new [OF step.hyps(2)] show ?case by (auto intro: trancl_into_trancl)
  qed
  fix x assume x: "(x, x) \<in> R'\<^sup>+"
  with path [OF x] R have "x = n" by (auto simp: acyclic_def)
  with x sink show False by (auto dest: tranclD)
qed

lemma map_of_parents:
  "distinct (nodes g) \<Longrightarrow> (c, ps) \<in> set g \<Longrightarrow> parents g c = ps \<and> c \<in> set (nodes g)"
  by (force simp: nodes_def map_of_eq_Some_iff)

lemma set_successors_of:
  "distinct (nodes g) \<Longrightarrow> set (successors_of g n) = {c \<in> set (nodes g). n \<in> parents g c}"
  by (force simp: successors_of_def nodes_def map_of_eq_Some_iff)

lemma distinct_successors_of: "distinct (nodes g) \<Longrightarrow> distinct (successors_of g n)"
  by (simp add: successors_of_def nodes_def distinct_map_filter)

lemma finite_parents:
  assumes "closed_graph g" "distinct (nodes g)" "c \<in> set (nodes g)"
  shows "parents g c \<subseteq> set (nodes g) \<and> finite (parents g c)"
proof -
  from assms(3) obtain ps where ps: "(c, ps) \<in> set g" by (auto simp: nodes_def)
  with map_of_parents [OF assms(2)] have "parents g c = ps" by blast
  moreover from ps assms(1) have "ps \<subseteq> set (nodes g)" by (auto simp: closed_graph_def)
  ultimately show ?thesis by (auto intro: finite_subset)
qed

lemma kahn_inv_step:
  assumes wf: "distinct (nodes g)" "closed_graph g"
    and inv: "kahn_inv g D indegree (n # ready)"
    and next_state: "fold relax (successors_of g n) (indegree, ready) = (indegree', ready')"
  shows "kahn_inv g (insert n D) indegree' ready'" and "n \<notin> D"
proof -
  let ?ss = "successors_of g n"
  from inv have D: "D \<subseteq> set (nodes g)" "\<And>c. c \<in> D \<Longrightarrow> parents g c \<subseteq> D"
    and acyc: "acyclic {(p, c). c \<in> D \<and> p \<in> parents g c}"
    and ready: "distinct (n # ready)"
      "set (n # ready) = {c \<in> set (nodes g). c \<notin> D \<and> parents g c \<subseteq> D}"
    and deg: "\<And>c. c \<in> set (nodes g) \<Longrightarrow> indegree c = int (card (parents g c - D))"
    by (auto simp: kahn_inv_def)
  from ready have n: "n \<in> set (nodes g)" "n \<notin> D" "parents g n \<subseteq> D" by auto
  then show "n \<notin> D" by simp
  from next_state fold_relax [OF distinct_successors_of [OF wf(1)], of n indegree ready]
  have i': "indegree' = (\<lambda>c. if c \<in> set ?ss then indegree c - 1 else indegree c)"
    and r': "ready' = ready @ filter (\<lambda>s. indegree s = 1) ?ss" by simp_all
  have ss: "c \<in> set ?ss \<longleftrightarrow> c \<in> set (nodes g) \<and> n \<in> parents g c" for c
    using set_successors_of [OF wf(1)] by auto
  have one: "indegree c = 1 \<longleftrightarrow> parents g c \<subseteq> insert n D" if "c \<in> set ?ss" for c
  proof -
    from that ss have c: "c \<in> set (nodes g)" "n \<in> parents g c - D" using n by auto
    have "indegree c = 1 \<longleftrightarrow> (\<exists>x. parents g c - D = {x})"
      using deg [OF c(1)] by (simp add: card_1_singleton_iff)
    also have "\<dots> \<longleftrightarrow> parents g c - D = {n}" using c(2) by (metis singletonD)
    also have "\<dots> \<longleftrightarrow> parents g c \<subseteq> insert n D" using c(2) by auto
    finally show ?thesis .
  qed
  have fresh: "n \<notin> parents g c" if "c \<in> set ready" for c
    using that ready(2) n(2) by auto
  have "acyclic {(p, c). c \<in> insert n D \<and> p \<in> parents g c}"
    using n D by (intro acyclic_add_sink [OF acyc, where n = n]) auto
  moreover have "distinct ready'"
    using ready(1) fresh distinct_successors_of [OF wf(1), of n] by (auto simp: r' ss)
  moreover have "set ready' = {c \<in> set (nodes g). c \<notin> insert n D \<and> parents g c \<subseteq> insert n D}"
  proof -
    have "set ready' = set ready \<union> {c \<in> set ?ss. parents g c \<subseteq> insert n D}"
      using one by (auto simp: r')
    also have "set ready = {c \<in> set (nodes g). c \<notin> D \<and> parents g c \<subseteq> D} - {n}"
      using ready by auto
    also have "\<dots> \<union> {c \<in> set ?ss. parents g c \<subseteq> insert n D} =
        {c \<in> set (nodes g). c \<notin> insert n D \<and> parents g c \<subseteq> insert n D}"
      using n D(2) ss by blast
    finally show ?thesis .
  qed
  moreover have "indegree' c = int (card (parents g c - insert n D))" if c: "c \<in> set (nodes g)" for c
  proof (cases "n \<in> parents g c")
    case True
    then have eq: "parents g c - insert n D = (parents g c - D) - {n}" by auto
    have "finite (parents g c - D)" "n \<in> parents g c - D"
      using finite_parents [OF wf(2,1) c] True n by auto
    then have "card (parents g c - D - {n}) = card (parents g c - D) - 1"
      and "0 < card (parents g c - D)"
      by (simp_all only: card_Diff_singleton card_gt_0_iff) blast
    then have "int (card (parents g c - D - {n})) = int (card (parents g c - D)) - 1"
      by linarith
    with True c ss show ?thesis by (simp add: i' deg [OF c] eq)
  next
    case False
    then have "parents g c - insert n D = parents g c - D" by auto
    with False c ss show ?thesis by (simp add: i' deg [OF c])
  qed
  moreover have "\<forall>c \<in> insert n D. parents g c \<subseteq> insert n D"
    using n(3) D(2) by blast
  moreover have "insert n D \<subseteq> set (nodes g)"
    using n(1) D(1) by blast
  ultimately show "kahn_inv g (insert n D) indegree' ready'"
    unfolding kahn_inv_def by blast
qed

lemma kahn_loop_result:
  assumes "distinct (nodes g)" "closed_graph g" "kahn_inv g D indegree ready" "card D = ordered"
  shows "\<exists>E indegree'. kahn_inv g E indegree' [] \<and> kahn_loop g indegree ready ordered = card E"
  using assms
proof (induction g indegree ready ordered arbitrary: D rule: kahn_loop.induct)
  case (1 g indegree ordered)
  then show ?case by auto
next
  case (2 g indegree node ready ordered)
  obtain i' r' where st: "fold relax (successors_of g node) (indegree, ready) = (i', r')" by force
  note step = kahn_inv_step [OF 2(2,3,4) st]
  have "finite D" using 2(4) by (auto simp: kahn_inv_def intro: finite_subset)
  with step 2(5) have "card (insert node D) = Suc ordered" by simp
  from 2(1) [OF st [symmetric] 2(2,3) step(1) this] st show ?case by simp
qed

lemma edges_iff:
  assumes "distinct (nodes g)"
  shows "(p, c) \<in> edges g \<longleftrightarrow> c \<in> set (nodes g) \<and> p \<in> parents g c"
proof
  assume "(p, c) \<in> edges g"
  then obtain ps where "(c, ps) \<in> set g" "p \<in> ps" by (auto simp: edges_def)
  with map_of_parents [OF assms] show "c \<in> set (nodes g) \<and> p \<in> parents g c" by blast
next
  assume c: "c \<in> set (nodes g) \<and> p \<in> parents g c"
  then obtain ps where "(c, ps) \<in> set g" by (auto simp: nodes_def)
  with map_of_parents [OF assms] c show "(p, c) \<in> edges g" by (force simp: edges_def)
qed

lemma wf_minimal_missing:
  assumes wf: "distinct (nodes g)" "closed_graph g" and acyc: "acyclic (edges g)"
    and E: "E \<subset> set (nodes g)"
  shows "\<exists>c \<in> set (nodes g). c \<notin> E \<and> parents g c \<subseteq> E"
proof -
  note par = edges_iff [OF wf(1)]
  have "edges g \<subseteq> set (nodes g) \<times> set (nodes g)"
  proof (rule subrelI)
    fix p c assume "(p, c) \<in> edges g"
    then have c: "c \<in> set (nodes g)" and p: "p \<in> parents g c" by (simp_all add: par)
    from finite_parents [OF wf(2,1) c] p have "p \<in> set (nodes g)" by (elim conjE) (rule subsetD)
    with c show "(p, c) \<in> set (nodes g) \<times> set (nodes g)" by simp
  qed
  then have "wf (edges g)"
    using acyc by (intro finite_acyclic_wf) (auto intro: finite_subset)
  moreover from E obtain x where "x \<in> set (nodes g) - E" by blast
  ultimately obtain c where c: "c \<in> set (nodes g) - E"
    and min: "\<And>p. (p, c) \<in> edges g \<Longrightarrow> p \<notin> set (nodes g) - E"
    by (metis wfE_min)
  have "parents g c \<subseteq> E"
  proof
    fix p assume p: "p \<in> parents g c"
    with c par have "(p, c) \<in> edges g" by simp
    with min have "p \<notin> set (nodes g) - E" by blast
    moreover have "p \<in> set (nodes g)" using finite_parents [OF wf(2,1)] c p by blast
    ultimately show "p \<in> E" by simp
  qed
  with c show ?thesis by blast
qed

lemma validate_ok_iff:
  assumes wf: "distinct (nodes g)"
  shows "validate g = Inr () \<longleftrightarrow> closed_graph g \<and> acyclic (edges g)"
proof (cases "closed_graph g")
  case False
  then show ?thesis by (auto simp: validate_def closed_graph_def)
next
  case closed: True
  let ?ready = "filter (\<lambda>n. initial_indegree g n = 0) (nodes g)"
  have deg: "initial_indegree g c = int (card (parents g c))" if "c \<in> set (nodes g)" for c
    using that by (force simp: initial_indegree_def nodes_def split: option.split
        dest: map_of_SomeD simp: map_of_eq_None_iff)
  then have "kahn_inv g {} (initial_indegree g) ?ready"
    using wf finite_parents [OF closed wf] by (auto simp: kahn_inv_def acyclic_def)
  from kahn_loop_result [OF wf closed this] obtain E indegree'
    where E: "kahn_inv g E indegree' []"
      "kahn_loop g (initial_indegree g) ?ready 0 = card E" by auto
  have sub: "E \<subseteq> set (nodes g)" using E(1) by (simp add: kahn_inv_def)
  have "validate g = Inr () \<longleftrightarrow> card E = card (set (nodes g))"
    using closed E(2) distinct_card [OF wf] by (auto simp: validate_def closed_graph_def nodes_def)
  also have "\<dots> \<longleftrightarrow> E = set (nodes g)"
    using sub by (metis List.finite_set card_subset_eq)
  also have "\<dots> \<longleftrightarrow> acyclic (edges g)"
  proof
    assume eq: "E = set (nodes g)"
    have "edges g \<subseteq> {(p, c). c \<in> E \<and> p \<in> parents g c}"
      using edges_iff [OF wf] eq by auto
    then show "acyclic (edges g)" using E(1) by (auto simp: kahn_inv_def intro: acyclic_subset)
  next
    assume acyc: "acyclic (edges g)"
    have "\<not> E \<subset> set (nodes g)"
    proof
      assume "E \<subset> set (nodes g)"
      from wf_minimal_missing [OF wf closed acyc this] E(1) show False
        by (auto simp: kahn_inv_def)
    qed
    with sub show "E = set (nodes g)" by blast
  qed
  finally show ?thesis using closed by simp
qed

subsection \<open>Ready nodes\<close>

lemma ready_successors_iff:
  assumes "distinct (nodes g)"
  shows "n \<in> set (ready_successors g done_set) \<longleftrightarrow>
    n \<in> set (nodes g) \<and> n \<notin> done_set \<and> parents g n \<subseteq> done_set"
proof -
  have "n \<in> set (ready_successors g done_set) \<longleftrightarrow>
      (\<exists>ps. (n, ps) \<in> set g \<and> n \<notin> done_set \<and> ps \<subseteq> done_set)"
    by (auto simp: ready_successors_def image_iff)
  also have "\<dots> \<longleftrightarrow> (\<exists>ps. (n, ps) \<in> set g) \<and> n \<notin> done_set \<and> parents g n \<subseteq> done_set"
    using map_of_parents [OF assms] by blast
  also have "(\<exists>ps. (n, ps) \<in> set g) \<longleftrightarrow> n \<in> set (nodes g)"
    by (force simp: nodes_def)
  finally show ?thesis .
qed

lemma distinct_ready_successors: "distinct (nodes g) \<Longrightarrow> distinct (ready_successors g done_set)"
  by (simp add: ready_successors_def nodes_def distinct_map_filter)

text \<open>
  What the transitioner relies on: a dict (no node twice) that passed the check. While some
  node is not done, some node is ready, so driving the graph never gets stuck.
\<close>

locale dependency_graph =
  fixes g :: "'n graph"
  assumes dict: "distinct (nodes g)"
    and valid: "validate g = Inr ()"
begin

lemma closed: "closed_graph g" and acyclic: "acyclic (edges g)"
  using valid validate_ok_iff [OF dict] by auto

lemma ready_iff:
  "n \<in> set (ready_successors g D) \<longleftrightarrow> n \<in> set (nodes g) \<and> n \<notin> D \<and> parents g n \<subseteq> D"
  by (rule ready_successors_iff [OF dict])

lemma progress:
  assumes "D \<subset> set (nodes g)"
  shows "ready_successors g D \<noteq> []"
proof -
  from wf_minimal_missing [OF dict closed acyclic assms]
  obtain c where "c \<in> set (ready_successors g D)" by (auto simp: ready_iff)
  then show ?thesis by auto
qed

lemma ready_all_done: "set (nodes g) \<subseteq> D \<Longrightarrow> ready_successors g D = []"
proof -
  assume all: "set (nodes g) \<subseteq> D"
  have "n \<notin> set (ready_successors g D)" for n
    using all by (auto simp: ready_iff)
  then show ?thesis by (meson last_in_set)
qed

text \<open>A node stays ready until it is itself done, whatever else gets done meanwhile.\<close>

lemma ready_mono:
  "n \<in> set (ready_successors g D) \<Longrightarrow> D \<subseteq> E \<Longrightarrow> n \<notin> E \<Longrightarrow> n \<in> set (ready_successors g E)"
  by (auto simp: ready_iff)

end

subsection \<open>The pipeline's graph\<close>

lemma validate_PREDECESSORS: "validate PREDECESSORS = Inr ()"
  by code_simp

lemma PIPELINE_eq: "PIPELINE = PREDECESSORS"
  by (simp add: PIPELINE_def dependency_graph_init_def validate_PREDECESSORS)

interpretation pipeline: dependency_graph PIPELINE
proof unfold_locales
  show "distinct (nodes PIPELINE)"
    by (simp add: PIPELINE_eq PREDECESSORS_def nodes_def)
  show "validate PIPELINE = Inr ()"
    unfolding PIPELINE_eq by (rule validate_PREDECESSORS)
qed

lemma pipeline_nodes: "nodes PIPELINE = all_step_names"
  by (simp add: PIPELINE_eq PREDECESSORS_def nodes_def all_step_names_def)

lemma pipeline_entry_nodes: "entry_nodes PIPELINE = [OCR]"
  by (simp add: PIPELINE_eq PREDECESSORS_def entry_nodes_def)

lemma pipeline_parents [enum_simps]:
  "parents PIPELINE OCR = {}"
  "parents PIPELINE METADATA = {OCR}"
  "parents PIPELINE CHUNKING = {OCR}"
  "parents PIPELINE EXTERNAL_CALL = {METADATA, CHUNKING}"
  by (simp_all add: PIPELINE_eq PREDECESSORS_def)

end
