(* ===== verification/Transition.thy ===== *)
theory Transition
  imports Queries Broker Dag
begin

section \<open>The transitioner (\<open>app/pipeline/transition.py\<close>)\<close>

text \<open>
  The document status as a function of the step states, and the three operations that drive
  the graph: \<open>claim_step\<close>, \<open>trigger_successors\<close> and \<open>recompute_document_status\<close>. The graph is
  an argument, as it is of the class; the components use \<open>PIPELINE\<close>.
\<close>

definition derive_document_status :: "(step_name \<times> step_status) list \<Rightarrow> document_status" where
  "derive_document_status statuses =
     (if \<exists>st \<in> set (map snd statuses). st = ERROR then FAILED
      else if map_of statuses EXTERNAL_CALL = Some DONE then READY
      else PROCESSING)"

definition claim_step :: "uuid \<Rightarrow> step_name \<Rightarrow> world \<Rightarrow> bool \<times> world" where
  "claim_step d s w =
     (case claim_pending_step d s w of (claimed, w1) \<Rightarrow>
        (claimed, commit (if claimed then emit_event d (step_event s QUEUED) w1 else w1)))"

text \<open>The loop over the ready steps; a publish that raises leaves the loop.\<close>

fun trigger_ready :: "uuid \<Rightarrow> step_name list \<Rightarrow> world \<Rightarrow> (pyexn + unit) \<times> world" where
  "trigger_ready d [] w = (Inr (), w)"
| "trigger_ready d (s # ss) w =
     (case claim_step d s w of (claimed, w1) \<Rightarrow>
        if claimed then
          (case publish_step d s w1 of (Inl e, w2) \<Rightarrow> (Inl e, w2) | (Inr _, w2) \<Rightarrow> trigger_ready d ss w2)
        else trigger_ready d ss w1)"

definition done_steps :: "(step_name \<times> step_status) list \<Rightarrow> step_name set" where
  "done_steps statuses = set (map fst (filter (\<lambda>(s, st). st = DONE) statuses))"

definition trigger_successors :: "step_name graph \<Rightarrow> uuid \<Rightarrow> world \<Rightarrow> (pyexn + unit) \<times> world" where
  "trigger_successors g d w =
     trigger_ready d (ready_successors g (done_steps (step_status_map d w))) w"

definition recompute_document_status :: "uuid \<Rightarrow> world \<Rightarrow> document_status \<times> world" where
  "recompute_document_status d w =
     (let new = derive_document_status (step_status_map d w) in
      case get_document d w of
        Some document \<Rightarrow>
          if doc_status document \<noteq> new
          then (new, commit (emit_event d (doc_status_event new) (flush_document_status d new w)))
          else (new, w)
      | None \<Rightarrow> (new, w))"

subsection \<open>The status function\<close>

lemma derive_failed_iff: "derive_document_status m = FAILED \<longleftrightarrow> ERROR \<in> snd ` set m"
  by (auto simp: derive_document_status_def)

lemma derive_ready_iff:
  "derive_document_status m = READY \<longleftrightarrow> ERROR \<notin> snd ` set m \<and> map_of m EXTERNAL_CALL = Some DONE"
  by (auto simp: derive_document_status_def)

end
