(* ===== verification/StepFunctions.thy ===== *)
theory StepFunctions
  imports PyText Complex_Main
begin

section \<open>The processing steps (\<open>app/pipeline/steps.py\<close>)\<close>

text \<open>
  The four step functions. What they draw at random (the uniform number that decides the
  failure, the UUID of the job) is an argument; the sleep before it has no effect on the
  result. A failure is the exception that the source raises.
\<close>

record draws =
  random_draw :: rat
  job_uuid :: uuid

definition step_fails :: "draws \<Rightarrow> bool" where
  "step_fails dr \<longleftrightarrow> random_draw dr < 1 / 3"

definition ocr :: "draws \<Rightarrow> pyexn + string" where
  "ocr dr = (if step_fails dr then Inl (Exn ''TimeoutError'' ''OCR provider timeout'')
     else Inr ''lorem ipsum...'')"

definition metadata :: "draws \<Rightarrow> json \<Rightarrow> pyexn + json" where
  "metadata dr txt = (if step_fails dr then Inl (Exn ''ValueError'' ''metadata extraction failed'')
     else Inr (JObject [(''doc_type'', JString ''fake_type'')]))"

definition chunking :: "draws \<Rightarrow> json \<Rightarrow> pyexn + string list" where
  "chunking dr txt = (if step_fails dr then Inl (Exn ''ValueError'' ''chunking failed'')
     else Inr [''chunk_1'', ''chunk_2'', ''...''])"

definition external_call :: "draws \<Rightarrow> string \<Rightarrow> json \<Rightarrow> json \<Rightarrow> json \<Rightarrow> pyexn + string" where
  "external_call dr document_id ocr_text meta chunks =
     (if step_fails dr then Inl (Exn ''ConnectionError'' ''partner unreachable'')
      else Inr (''j_'' @ take 16 (uuid_hex (job_uuid dr))))"

end
