(* ===== verification/Handlers.thy ===== *)
theory Handlers
  imports Transition StepFunctions
begin

section \<open>The step handlers (\<open>app/pipeline/handlers.py\<close>)\<close>

text \<open>
  \<open>handle\<close> is the template method, for the handler of one step; what the subclasses override
  is a definition by cases on the step (\<open>transform_input\<close>, \<open>execute\<close>, \<open>transform_output\<close>,
  \<open>save_output\<close>). The rows loaded by \<open>load_steps\<close> are values; the handler's own row is
  changed in memory and written by the UPDATE of the next commit. \<open>run_step\<close> is the \<open>try\<close>
  block: every exception in it, of the step function or of the input shaping, goes to
  \<open>on_failure\<close>.
\<close>

datatype handler_action = ACK | RETRY

definition TERMINAL_FOR_RUN :: "step_status set" where
  "TERMINAL_FOR_RUN = {DONE, AWAITING_CALLBACK, ERROR}"

text \<open>\<open>_load_steps\<close>: name to row, for every step of the document.\<close>

definition load_steps :: "uuid \<Rightarrow> world \<Rightarrow> (step_name \<times> pipeline_step) list" where
  "load_steps d w = dict_of (map (\<lambda>r. (st_name r, r)) (steps_of d (working w)))"

definition load_input :: "(step_name \<times> pipeline_step) list \<Rightarrow> (step_name \<times> pipeline_step) list" where
  "load_input by_name = by_name"

subsection \<open>Shaping inputs and outputs\<close>

datatype step_input = NoInput | TextInput json | CallInput string json json json

text \<open>\<open>loaded[name]\<close>, \<open>row.result["key"]\<close>; a \<open>NULL\<close> result is \<open>None["key"]\<close>.\<close>

definition loaded_row :: "(step_name \<times> pipeline_step) list \<Rightarrow> step_name \<Rightarrow> pyexn + pipeline_step" where
  "loaded_row loaded s = (case map_of loaded s of Some r \<Rightarrow> Inr r
     | None \<Rightarrow> Inl (Exn ''KeyError'' (CHR 0x27 # step_name_value s @ [CHR 0x27])))"

definition result_item :: "pipeline_step \<Rightarrow> string \<Rightarrow> pyexn + json" where
  "result_item r k = (case st_result r of Some j \<Rightarrow> json_item j k
     | None \<Rightarrow> Inl (Exn ''TypeError'' (CHR 0x27 # ''NoneType'' @ CHR 0x27 # '' object is not subscriptable'')))"

fun transform_input :: "step_name \<Rightarrow> (step_name \<times> pipeline_step) list \<Rightarrow> pyexn + step_input" where
  "transform_input OCR loaded = Inr NoInput"
| "transform_input METADATA loaded =
     bind_result (loaded_row loaded OCR) (\<lambda>r. bind_result (result_item r ''text'') (\<lambda>t. Inr (TextInput t)))"
| "transform_input CHUNKING loaded =
     bind_result (loaded_row loaded OCR) (\<lambda>r. bind_result (result_item r ''text'') (\<lambda>t. Inr (TextInput t)))"
| "transform_input EXTERNAL_CALL loaded =
     bind_result (loaded_row loaded OCR) (\<lambda>ocr_row.
     bind_result (result_item ocr_row ''text'') (\<lambda>t.
     bind_result (loaded_row loaded METADATA) (\<lambda>meta_row.
     bind_result (loaded_row loaded CHUNKING) (\<lambda>chunk_row.
     bind_result (result_item chunk_row ''chunks'') (\<lambda>chunks.
     Inr (CallInput (uuid_str (st_document_id ocr_row)) t
       (case st_result meta_row of Some j \<Rightarrow> j | None \<Rightarrow> JNull) chunks))))))"

text \<open>The raw return of the step function, and the JSON stored for it.\<close>

datatype raw_output = RawText string | RawJson json | RawChunks "string list" | RawJob string

fun execute :: "draws \<Rightarrow> step_name \<Rightarrow> step_input \<Rightarrow> pyexn + raw_output" where
  "execute dr OCR inp = bind_result (ocr dr) (\<lambda>t. Inr (RawText t))"
| "execute dr METADATA (TextInput t) = bind_result (metadata dr t) (\<lambda>j. Inr (RawJson j))"
| "execute dr CHUNKING (TextInput t) = bind_result (chunking dr t) (\<lambda>cs. Inr (RawChunks cs))"
| "execute dr EXTERNAL_CALL (CallInput d t m cs) = bind_result (external_call dr d t m cs) (\<lambda>j. Inr (RawJob j))"
| "execute dr _ _ = Inl (Exn ''TypeError'' ''argument'')"

fun transform_output :: "raw_output \<Rightarrow> json" where
  "transform_output (RawText t) = JObject [(''text'', JString t)]"
| "transform_output (RawJson j) = j"
| "transform_output (RawChunks cs) = JObject [(''chunks'', JArray (map JString cs))]"
| "transform_output (RawJob j) = JObject [(''external_job_id'', JString j)]"

definition run_step :: "draws \<Rightarrow> step_name \<Rightarrow> (step_name \<times> pipeline_step) list \<Rightarrow> pyexn + json" where
  "run_step dr s by_name =
     bind_result (transform_input s (load_input by_name)) (\<lambda>step_input.
     bind_result (execute dr s step_input) (\<lambda>raw. Inr (transform_output raw)))"

subsection \<open>Saving\<close>

text \<open>\<open>output["external_job_id"]\<close>, which the external handler's own \<open>transform_output\<close> put there.\<close>

definition output_job_id :: "json \<Rightarrow> string option" where
  "output_job_id output =
     (case json_item output ''external_job_id'' of Inr (JString j) \<Rightarrow> Some j | _ \<Rightarrow> None)"

text \<open>\<open>save_output\<close>: the base method marks the step \<open>DONE\<close>; the external call's own
  method only records the job and waits.\<close>

definition save_done ::
  "step_name \<Rightarrow> uuid \<Rightarrow> pipeline_step \<Rightarrow> json \<Rightarrow> world \<Rightarrow> pipeline_step \<times> world" where
  "save_done s d row output w =
     (let row' = row\<lparr>st_result := Some output, st_status := DONE, st_finished_at := Some (clock w)\<rparr>
      in (row', commit (emit_event d (step_event s DONE) (flush_step row row' w))))"

definition save_awaiting ::
  "step_name \<Rightarrow> uuid \<Rightarrow> pipeline_step \<Rightarrow> json \<Rightarrow> world \<Rightarrow> pipeline_step \<times> world" where
  "save_awaiting s d row output w =
     (let row' = row\<lparr>st_external_job_id := output_job_id output, st_status := AWAITING_CALLBACK\<rparr>
      in (row', commit (emit_event d (step_event s AWAITING_CALLBACK) (flush_step row row' w))))"

definition save_output ::
  "step_name \<Rightarrow> uuid \<Rightarrow> pipeline_step \<Rightarrow> json \<Rightarrow> world \<Rightarrow> pipeline_step \<times> world" where
  "save_output s d row output w =
     (if s = EXTERNAL_CALL then save_awaiting s d row output w else save_done s d row output w)"

lemmas save_output_defs = save_output_def save_done_def save_awaiting_def

definition on_failure ::
  "settings \<Rightarrow> uuid \<Rightarrow> pipeline_step \<Rightarrow> pyexn \<Rightarrow> world \<Rightarrow> handler_action \<times> world" where
  "on_failure cfg d row e w =
     (let attempts = st_attempts row + 1 in
      if attempts \<ge> step_max_attempts cfg then
        let row' = row\<lparr>st_attempts := attempts, st_status := ERROR,
              st_error_text := Some (exn_text e), st_finished_at := Some (clock w)\<rparr>;
            w1 = commit (emit_event d (step_event (st_name row) ERROR) (flush_step row row' w))
        in (ACK, snd (recompute_document_status d w1))
      else
        let row' = row\<lparr>st_attempts := attempts, st_status := QUEUED\<rparr>
        in (RETRY, commit (flush_step row row' w)))"

subsection \<open>The lifecycle\<close>

text \<open>The first part of \<open>handle\<close>: the row to run, or the reason there is nothing to do.\<close>

definition runnable_row :: "step_name \<Rightarrow> uuid \<Rightarrow> world \<Rightarrow> pipeline_step option" where
  "runnable_row s d w =
     (case map_of (load_steps d w) s of
        None \<Rightarrow> None
      | Some row \<Rightarrow>
          if st_status row \<in> TERMINAL_FOR_RUN then None
          else case get_document d w of
                 None \<Rightarrow> None
               | Some document \<Rightarrow> if doc_status document = FAILED then None else Some row)"

text \<open>Mark RUNNING and surface it.\<close>

definition mark_running :: "step_name \<Rightarrow> uuid \<Rightarrow> pipeline_step \<Rightarrow> world \<Rightarrow> pipeline_step \<times> world" where
  "mark_running s d row w =
     (let row' = row\<lparr>st_status := RUNNING,
            st_started_at := (case st_started_at row of None \<Rightarrow> Some (clock w) | Some t \<Rightarrow> Some t)\<rparr>
      in (row', commit (emit_event d (step_event s RUNNING) (flush_step row row' w))))"

definition handle ::
  "settings \<Rightarrow> draws \<Rightarrow> step_name \<Rightarrow> payload \<Rightarrow> world \<Rightarrow> (pyexn + handler_action) \<times> world" where
  "handle cfg dr s p w =
     (let d = payload_document_id p in
      case runnable_row s d w of
        None \<Rightarrow> (Inr ACK, w)
      | Some row \<Rightarrow>
          case mark_running s d row w of (row1, w1) \<Rightarrow>
          (case run_step dr s (AList.update s row1 (load_steps d w)) of
             Inl e \<Rightarrow> (case on_failure cfg d row1 e w1 of (a, w2) \<Rightarrow> (Inr a, w2))
           | Inr output \<Rightarrow>
               case save_output s d row1 output w1 of (row2, w2) \<Rightarrow>
               if st_status row2 = DONE then
                 (case trigger_successors PIPELINE d w2 of
                    (Inl e, w3) \<Rightarrow> (Inl e, w3)
                  | (Inr _, w3) \<Rightarrow> (Inr ACK, snd (recompute_document_status d w3)))
               else (Inr ACK, w2)))"

end
