(* ===== verification/Worker.thy ===== *)
theory Worker
  imports Handlers
begin

section \<open>The worker process (\<open>app/worker/main.py\<close>)\<close>

text \<open>
  \<open>callback\<close> is the consumer callback of one queue: it parses the message body, runs the
  handler of the step that the message names in its own session, and answers the broker. The
  parsing of the body by the message class (pydantic, not part of the repository) is the
  argument \<open>parse_body\<close>. What the worker answers is the reply; what the broker then does with
  the message is not the program's.
\<close>

datatype broker_reply = BasicAck | BasicNackRequeue

definition handle_in_session :: "settings \<Rightarrow> draws \<Rightarrow> payload \<Rightarrow> world \<Rightarrow> handler_action \<times> world" where
  "handle_in_session cfg dr p w =
     (case handle cfg dr (payload_step p) p w of
        (Inl e, w1) \<Rightarrow> (RETRY, rollback w1)
      | (Inr action, w1) \<Rightarrow> (action, w1))"

definition callback ::
  "settings \<Rightarrow> (string \<Rightarrow> payload option) \<Rightarrow> draws \<Rightarrow> string \<Rightarrow> world \<Rightarrow> broker_reply \<times> world" where
  "callback cfg parse_body dr body w =
     (case parse_body body of
        None \<Rightarrow> (BasicAck, w)
      | Some p \<Rightarrow>
          case session_scope (handle_in_session cfg dr p) w of (action, w1) \<Rightarrow>
          (if action = ACK then BasicAck else BasicNackRequeue, w1))"

subsection \<open>The consumers\<close>

text \<open>
  \<open>main\<close>: it connects until a connection stands (the outcomes of the attempts are given, as in
  \<open>faults\<close>), declares the topology and consumes the queue of each step, one message at a time. A
  connection that breaks later starts the same loop again.
\<close>

record consumer =
  declared :: topology
  prefetch_count :: int
  consumed :: "string list"

fun connect_worker :: "settings \<Rightarrow> topology \<Rightarrow> bool list \<Rightarrow> consumer" where
  "connect_worker cfg t (True # outcomes) = connect_worker cfg t outcomes"
| "connect_worker cfg t outcomes =
     \<lparr>declared = declare_topology cfg t, prefetch_count = 1, consumed = map queue_name all_step_names\<rparr>"

text \<open>The queue of each message is declared and consumed, and only the dead letters are not consumed.\<close>

lemma queues_declare_topology:
  "fst ` set (queues (declare_topology cfg t)) =
    insert DEAD_LETTER_QUEUE (range queue_name) \<union> fst ` set (queues t)"
proof -
  have "set (queues (fold (\<lambda>s. queue_declare (queue_name s) a) ss v)) = (\<lambda>s. (queue_name s, a)) ` set ss \<union> set (queues v)" for a ss v
    by (induction ss arbitrary: v) (auto simp: queue_declare_def)
  then show ?thesis
    by (simp add: declare_topology_def queue_bind_def exchange_declare_def image_Un image_image)
      (auto simp: queue_declare_def)
qed

lemma connect_worker_consumes:
  "connect_worker cfg t outcomes =
    \<lparr>declared = declare_topology cfg t, prefetch_count = 1, consumed = map queue_name all_step_names\<rparr>"
  by (induction cfg t outcomes rule: connect_worker.induct) simp_all

lemma every_queue_is_consumed:
  assumes "queues t = []"
  shows "fst ` set (queues (declared (connect_worker cfg t outcomes))) =
    insert DEAD_LETTER_QUEUE (set (consumed (connect_worker cfg t outcomes)))"
    and "payload_step p = s \<Longrightarrow> queue_name s \<in> set (consumed (connect_worker cfg t outcomes))"
    and "distinct (consumed (connect_worker cfg t outcomes))"
  using assms by (simp_all add: connect_worker_consumes queues_declare_topology)
    (simp add: distinct_map inj_on_def queue_name_inj)

end
