(* ===== verification/Turns.thy ===== *)
theory Turns
  imports Worker "HOL-Library.Multiset"
begin

section \<open>The worker, one transaction at a time\<close>

text \<open>
  \<open>Handlers\<close> runs a message to its end. Several workers share the database, so here the same
  code stops after each statement that reads the database, each commit and each publication:
  \<open>phase\<close> is where the worker is and what its local variables hold, and \<open>turn\<close> goes on to the
  next such point. A statement sees what is committed when it runs (READ COMMITTED, the
  database's default). An UPDATE and the COMMIT that follows it are one turn: until the commit
  no other transaction sees the row, and one that updates it waits and then looks at the
  committed row again. \<open>session.get\<close> gives the same \<open>Document\<close> object again, as it was read first
  (\<open>expire_on_commit=False\<close>).
\<close>

type_synonym loaded_steps = "(step_name \<times> pipeline_step) list"

datatype phase =
    Received
  | Loaded loaded_steps pipeline_step
  | Starting loaded_steps pipeline_step document
  | Executing loaded_steps pipeline_step document
  | Saved document
  | Claiming "step_name list" document
  | Sending step_name "step_name list" document
  | Deriving document
  | Recording document_status document
  | Replying handler_action
  | Raising pyexn

text \<open>\<open>handle\<close>, up to its reading of the document.\<close>

definition check_row :: "step_name \<Rightarrow> uuid \<Rightarrow> world \<Rightarrow> phase" where
  "check_row s d w =
     (case map_of (load_steps d w) s of
        None \<Rightarrow> Replying ACK
      | Some row \<Rightarrow> if st_status row \<in> TERMINAL_FOR_RUN then Replying ACK else Loaded (load_steps d w) row)"

definition check_document :: "uuid \<Rightarrow> loaded_steps \<Rightarrow> pipeline_step \<Rightarrow> world \<Rightarrow> phase" where
  "check_document d loaded row w =
     (case get_document d w of
        None \<Rightarrow> Replying ACK
      | Some document \<Rightarrow> if doc_status document = FAILED then Replying ACK else Starting loaded row document)"

text \<open>The two transactions of \<open>_on_failure\<close>.\<close>

definition record_failure ::
  "settings \<Rightarrow> uuid \<Rightarrow> pipeline_step \<Rightarrow> pyexn \<Rightarrow> document \<Rightarrow> world \<Rightarrow> phase \<times> world" where
  "record_failure cfg d row e document w =
     (let attempts = st_attempts row + 1 in
      if attempts \<ge> step_max_attempts cfg then
        let row' = row\<lparr>st_attempts := attempts, st_status := ERROR,
              st_error_text := Some (exn_text e), st_finished_at := Some (clock w)\<rparr>
        in (Deriving document, commit (emit_event d (step_event (st_name row) ERROR) (flush_step row row' w)))
      else
        let row' = row\<lparr>st_attempts := attempts, st_status := QUEUED\<rparr>
        in (Replying RETRY, commit (flush_step row row' w)))"

text \<open>\<open>try ... except\<close>, and the commit of either outcome.\<close>

definition run_and_save ::
  "settings \<Rightarrow> draws \<Rightarrow> payload \<Rightarrow> loaded_steps \<Rightarrow> pipeline_step \<Rightarrow> document \<Rightarrow> world \<Rightarrow> phase \<times> world" where
  "run_and_save cfg dr p loaded row document w =
     (case run_step dr (payload_step p) loaded of
        Inl e \<Rightarrow> record_failure cfg (payload_document_id p) row e document w
      | Inr output \<Rightarrow>
          (case save_output (payload_step p) (payload_document_id p) row output w of
             (row', w') \<Rightarrow> (if st_status row' = DONE then Saved document else Replying ACK, w')))"

text \<open>The UPDATE of \<open>recompute_document_status\<close>.\<close>

definition record_status :: "uuid \<Rightarrow> document_status \<Rightarrow> document \<Rightarrow> world \<Rightarrow> world" where
  "record_status d new document w =
     (if doc_status document \<noteq> new
      then commit (emit_event d (doc_status_event new) (flush_document_status d new w)) else w)"

fun turn :: "settings \<Rightarrow> draws \<Rightarrow> payload \<Rightarrow> phase \<Rightarrow> world \<Rightarrow> phase \<times> world" where
  "turn cfg dr p Received w = (check_row (payload_step p) (payload_document_id p) w, w)"
| "turn cfg dr p (Loaded loaded row) w = (check_document (payload_document_id p) loaded row w, w)"
| "turn cfg dr p (Starting loaded row document) w =
     (case mark_running (payload_step p) (payload_document_id p) row w of
        (row', w') \<Rightarrow> (Executing (AList.update (payload_step p) row' loaded) row' document, w'))"
| "turn cfg dr p (Executing loaded row document) w = run_and_save cfg dr p loaded row document w"
| "turn cfg dr p (Saved document) w =
     (Claiming (ready_successors PIPELINE (done_steps (step_status_map (payload_document_id p) w))) document, w)"
| "turn cfg dr p (Claiming [] document) w = (Deriving document, w)"
| "turn cfg dr p (Claiming (t # ts) document) w =
     (case claim_step (payload_document_id p) t w of
        (claimed, w') \<Rightarrow> (if claimed then Sending t ts document else Claiming ts document, w'))"
| "turn cfg dr p (Sending t ts document) w =
     (case publish_step (payload_document_id p) t w of
        (Inl e, w') \<Rightarrow> (Raising e, w')
      | (Inr _, w') \<Rightarrow> (Claiming ts document, w'))"
| "turn cfg dr p (Deriving document) w =
     (Recording (derive_document_status (step_status_map (payload_document_id p) w)) document, w)"
| "turn cfg dr p (Recording new document) w =
     (Replying ACK, record_status (payload_document_id p) new document w)"
| "turn cfg dr p (Replying action) w = (Replying action, w)"
| "turn cfg dr p (Raising e) w = (Raising e, w)"

subsection \<open>A worker alone\<close>

text \<open>Without interference the turns are \<open>handle\<close>.\<close>

fun turns :: "settings \<Rightarrow> draws \<Rightarrow> payload \<Rightarrow> nat \<Rightarrow> phase \<times> world \<Rightarrow> phase \<times> world" where
  "turns cfg dr p 0 c = c"
| "turns cfg dr p (Suc n) c = turns cfg dr p n (turn cfg dr p (fst c) (snd c))"

definition reply_phase :: "pyexn + handler_action \<Rightarrow> phase" where
  "reply_phase r = (case r of Inl e \<Rightarrow> Raising e | Inr a \<Rightarrow> Replying a)"

lemma turns_add: "turns cfg dr p (m + n) c = turns cfg dr p n (turns cfg dr p m c)"
  by (induction m arbitrary: c) simp_all

lemma turns_final [simp]:
  "turns cfg dr p n (Replying a, w) = (Replying a, w)" "turns cfg dr p n (Raising e, w) = (Raising e, w)"
  by (induction n) simp_all

text \<open>Once the message is answered, nothing more happens.\<close>

lemma turns_answered:
  assumes "turns cfg dr p m c = (reply_phase r, w)" "m \<le> n"
  shows "turns cfg dr p n c = (reply_phase r, w)"
  using turns_add [of cfg dr p m "n - m" c] assms by (simp add: reply_phase_def split: sum.split)

text \<open>What one worker does to the documents' table before it records the status.\<close>

lemma working_documents_frame [simp]:
  "documents (working (snd (mark_running s d row w))) = documents (working w)"
  "documents (working (snd (save_output s d row out w))) = documents (working w)"
  "documents (working (snd (claim_step d t w))) = documents (working w)"
  by (simp_all add: mark_running_def save_output_defs claim_step_def claim_pending_step_def Let_def case_prod_beta)

lemma get_document_cong: "documents (working w') = documents (working w) \<Longrightarrow> get_document d w' = get_document d w"
  by (simp add: get_document_def find_document_def)

lemma turns_deriving:
  assumes "get_document (payload_document_id p) w = Some document"
  shows "turns cfg dr p 2 (Deriving document, w) =
    (Replying ACK, snd (recompute_document_status (payload_document_id p) w))"
  using assms by (simp add: numeral_2_eq_2 recompute_document_status_def record_status_def Let_def)

text \<open>The loop over the ready steps takes at most two turns for each.\<close>

lemma turns_claiming:
  assumes "get_document (payload_document_id p) w = Some document"
  shows "\<exists>n \<le> 2 * length ts + 1. turns cfg dr p n (Claiming ts document, w) =
    (case trigger_ready (payload_document_id p) ts w of
       (Inl e, w') \<Rightarrow> (Raising e, w') | (Inr _, w') \<Rightarrow> (Deriving document, w')) \<and>
    get_document (payload_document_id p) (snd (trigger_ready (payload_document_id p) ts w)) = Some document"
  using assms
proof (induction ts arbitrary: w)
  case Nil
  then show ?case by (intro exI [of _ 1]) simp
next
  case (Cons t ts)
  let ?d = "payload_document_id p"
  obtain claimed w1 where c: "claim_step ?d t w = (claimed, w1)" by force
  have d1: "get_document ?d w1 = Some document"
    using Cons.prems get_document_cong [of w1 w ?d] working_documents_frame(3) [of ?d t w] c by simp
  show ?case
  proof (cases claimed)
    case False
    from Cons.IH [OF d1] obtain n where "n \<le> 2 * length ts + 1"
      "turns cfg dr p n (Claiming ts document, w1) =
        (case trigger_ready ?d ts w1 of (Inl e, w') \<Rightarrow> (Raising e, w') | (Inr _, w') \<Rightarrow> (Deriving document, w'))"
      "get_document ?d (snd (trigger_ready ?d ts w1)) = Some document" by blast
    with c False show ?thesis by (intro exI [of _ "Suc n"]) simp
  next
    case True
    obtain r w2 where pub: "publish_step ?d t w1 = (r, w2)" by force
    have d2: "get_document ?d w2 = Some document"
      using d1 get_document_cong [of w2 w1 ?d] publish_step_frame(2) [of ?d t w1] pub by simp
    show ?thesis
    proof (cases r)
      case (Inl e)
      with c True pub d2 show ?thesis by (intro exI [of _ "Suc (Suc 0)"]) simp
    next
      case (Inr u)
      from Cons.IH [OF d2] obtain n where "n \<le> 2 * length ts + 1"
        "turns cfg dr p n (Claiming ts document, w2) =
          (case trigger_ready ?d ts w2 of (Inl e, w') \<Rightarrow> (Raising e, w') | (Inr _, w') \<Rightarrow> (Deriving document, w'))"
        "get_document ?d (snd (trigger_ready ?d ts w2)) = Some document" by blast
      with c True pub Inr show ?thesis by (intro exI [of _ "Suc (Suc n)"]) simp
    qed
  qed
qed

lemma turns_record_failure:
  assumes "get_document (payload_document_id p) w = Some document"
  shows "\<exists>n \<le> 2. turns cfg dr p n (record_failure cfg (payload_document_id p) row e document w) =
    (case on_failure cfg (payload_document_id p) row e w of (a, w') \<Rightarrow> (Replying a, w'))"
proof (cases "st_attempts row + 1 \<ge> step_max_attempts cfg")
  case True
  let ?d = "payload_document_id p"
  let ?row = "row\<lparr>st_attempts := st_attempts row + 1, st_status := ERROR,
      st_error_text := Some (exn_text e), st_finished_at := Some (clock w)\<rparr>"
  let ?w = "commit (emit_event ?d (step_event (st_name row) ERROR) (flush_step row ?row w))"
  have "get_document ?d ?w = Some document"
    using assms get_document_cong [of ?w w ?d] by simp
  from turns_deriving [OF this, of cfg dr] True show ?thesis
    by (intro exI [of _ 2]) (simp add: record_failure_def on_failure_def Let_def)
next
  case False
  then show ?thesis
    by (intro exI [of _ 0]) (simp add: record_failure_def on_failure_def Let_def)
qed


lemma length_ready: "length (ready_successors PIPELINE done_set) \<le> 4"
proof -
  have "distinct (ready_successors PIPELINE done_set)"
    by (rule distinct_ready_successors) (simp add: pipeline_nodes all_step_names_def)
  moreover have "set (ready_successors PIPELINE done_set) \<subseteq> set all_step_names"
    using pipeline.ready_iff pipeline_nodes by (metis subsetI)
  ultimately show ?thesis
    using card_mono [of "set all_step_names" "set (ready_successors PIPELINE done_set)"]
    by (simp add: distinct_card all_step_names_def)
qed

text \<open>After the output is saved.\<close>

lemma turns_saved:
  assumes "get_document (payload_document_id p) w = Some document"
  shows "\<exists>n \<le> 12. turns cfg dr p n (Saved document, w) =
    (case trigger_successors PIPELINE (payload_document_id p) w of
       (Inl e, w') \<Rightarrow> (Raising e, w')
     | (Inr _, w') \<Rightarrow> (Replying ACK, snd (recompute_document_status (payload_document_id p) w')))"
proof -
  let ?d = "payload_document_id p"
  let ?ts = "ready_successors PIPELINE (done_steps (step_status_map ?d w))"
  obtain r w' where tr: "trigger_ready ?d ?ts w = (r, w')" by force
  from turns_claiming [OF assms, of ?ts cfg dr] tr obtain n where n: "n \<le> 2 * length ?ts + 1"
    "turns cfg dr p n (Claiming ?ts document, w) = (case r of Inl e \<Rightarrow> (Raising e, w') | Inr _ \<Rightarrow> (Deriving document, w'))"
    "get_document ?d w' = Some document" by auto
  have "turns cfg dr p (Suc n + 2) (Saved document, w) =
    (case r of Inl e \<Rightarrow> (Raising e, w') | Inr _ \<Rightarrow> (Replying ACK, snd (recompute_document_status ?d w')))"
    unfolding turns_add using n(2) turns_deriving [OF n(3), of cfg dr]
    by (cases r) simp_all
  moreover have "Suc n + 2 \<le> 12" using n(1) length_ready [of "done_steps (step_status_map ?d w)"] by simp
  ultimately show ?thesis
    unfolding trigger_successors_def using tr by (intro exI [of _ "Suc n + 2"]) (cases r, auto)
qed

lemma turns_executing:
  assumes "get_document (payload_document_id p) w = Some document"
  shows "\<exists>n \<le> 13. turns cfg dr p n (Executing loaded row document, w) =
    (case (case run_step dr (payload_step p) loaded of
             Inl e \<Rightarrow> (case on_failure cfg (payload_document_id p) row e w of (a, w2) \<Rightarrow> (Inr a, w2))
           | Inr output \<Rightarrow>
               case save_output (payload_step p) (payload_document_id p) row output w of (row2, w2) \<Rightarrow>
               if st_status row2 = DONE then
                 (case trigger_successors PIPELINE (payload_document_id p) w2 of
                    (Inl e, w3) \<Rightarrow> (Inl e, w3)
                  | (Inr _, w3) \<Rightarrow> (Inr ACK, snd (recompute_document_status (payload_document_id p) w3)))
               else (Inr ACK, w2)) of (r, w') \<Rightarrow> (reply_phase r, w'))"
proof (cases "run_step dr (payload_step p) loaded")
  case (Inl e)
  from turns_record_failure [OF assms, of cfg dr row e] obtain n where "n \<le> 2"
    "turns cfg dr p n (record_failure cfg (payload_document_id p) row e document w) =
      (case on_failure cfg (payload_document_id p) row e w of (a, w') \<Rightarrow> (Replying a, w'))" by blast
  with Inl show ?thesis
    by (intro exI [of _ "Suc n"]) (simp add: run_and_save_def reply_phase_def split: prod.split)
next
  case (Inr out)
  let ?d = "payload_document_id p"
  obtain row2 w2 where so: "save_output (payload_step p) ?d row out w = (row2, w2)" by force
  have d2: "get_document ?d w2 = Some document"
    using assms get_document_cong [of w2 w ?d] working_documents_frame(2) [of "payload_step p" ?d row out w] so by simp
  show ?thesis
  proof (cases "st_status row2 = DONE")
    case True
    from turns_saved [OF d2, of cfg dr] obtain n where "n \<le> 12" "turns cfg dr p n (Saved document, w2) =
      (case trigger_successors PIPELINE ?d w2 of
         (Inl e, w') \<Rightarrow> (Raising e, w')
       | (Inr _, w') \<Rightarrow> (Replying ACK, snd (recompute_document_status ?d w')))" by blast
    with Inr so True show ?thesis
      by (intro exI [of _ "Suc n"]) (simp add: run_and_save_def reply_phase_def split: prod.split sum.split)
  next
    case False
    with Inr so show ?thesis
      by (intro exI [of _ 1]) (simp add: run_and_save_def reply_phase_def)
  qed
qed

theorem turns_are_handle:
  "turns cfg dr p 16 (Received, w) =
    (case handle cfg dr (payload_step p) p w of (r, w') \<Rightarrow> (reply_phase r, w'))"
proof -
  let ?d = "payload_document_id p" and ?s = "payload_step p"
  have "\<exists>n \<le> 16. turns cfg dr p n (Received, w) =
      (case handle cfg dr ?s p w of (r, w') \<Rightarrow> (reply_phase r, w'))"
  proof (cases "runnable_row ?s ?d w")
    case None
    then have "turns cfg dr p 2 (Received, w) = (Replying ACK, w)"
      by (auto simp: numeral_2_eq_2 runnable_row_def check_row_def check_document_def split: option.splits if_splits)
    with None show ?thesis by (intro exI [of _ 2]) (simp add: handle_def reply_phase_def)
  next
    case (Some row)
    then obtain document where doc: "get_document ?d w = Some document"
      by (auto simp: runnable_row_def split: option.splits if_splits)
    with Some have two: "turns cfg dr p 2 (Received, w) = (Starting (load_steps ?d w) row document, w)"
      by (auto simp: numeral_2_eq_2 runnable_row_def check_row_def check_document_def split: option.splits if_splits)
    obtain row1 w1 where mr: "mark_running ?s ?d row w = (row1, w1)" by force
    have d1: "get_document ?d w1 = Some document"
      using doc get_document_cong [of w1 w ?d] working_documents_frame(1) [of ?s ?d row w] mr by simp
    have three: "turns cfg dr p (2 + 1) (Received, w) =
        (Executing (AList.update ?s row1 (load_steps ?d w)) row1 document, w1)"
      unfolding turns_add two using mr by (simp add: One_nat_def)
    from turns_executing [OF d1, of cfg dr "AList.update ?s row1 (load_steps ?d w)" row1] obtain n where
      n: "n \<le> 13" "turns cfg dr p n (Executing (AList.update ?s row1 (load_steps ?d w)) row1 document, w1) =
        (case handle cfg dr ?s p w of (r, w') \<Rightarrow> (reply_phase r, w'))"
      using Some mr by (auto simp: handle_def Let_def)
    from n(2) three have "turns cfg dr p (2 + 1 + n) (Received, w) =
        (case handle cfg dr ?s p w of (r, w') \<Rightarrow> (reply_phase r, w'))"
      unfolding turns_add by simp
    with n(1) show ?thesis by (intro exI [of _ "2 + 1 + n"]) simp
  qed
  then show ?thesis
    by (auto simp: case_prod_beta intro: turns_answered)
qed

subsection \<open>Every message is answered\<close>

text \<open>How many turns are left at most, whatever the other workers do in between.\<close>

fun remaining :: "phase \<Rightarrow> nat" where
  "remaining Received = 16"
| "remaining (Loaded _ _) = 15"
| "remaining (Starting _ _ _) = 14"
| "remaining (Executing _ _ _) = 13"
| "remaining (Saved _) = 12"
| "remaining (Claiming ts _) = 2 * length ts + 3"
| "remaining (Sending _ ts _) = 2 * length ts + 4"
| "remaining (Deriving _) = 2"
| "remaining (Recording _ _) = 1"
| "remaining (Replying _) = 0"
| "remaining (Raising _) = 0"

lemma remaining_zero: "remaining ph = 0 \<longleftrightarrow> (\<exists>r. ph = reply_phase r)"
proof
  show "\<exists>r. ph = reply_phase r" if "remaining ph = 0"
    using that
    by (cases ph) (auto simp: reply_phase_def intro: exI [of _ "Inl e" for e] exI [of _ "Inr a" for a])
  show "remaining ph = 0" if "\<exists>r. ph = reply_phase r"
    using that by (auto simp: reply_phase_def split: sum.split)
qed

lemma turn_remaining: "remaining (fst (turn cfg dr p ph w)) \<le> remaining ph - 1"
proof (induction cfg dr p ph w rule: turn.induct)
  case (5 cfg dr p document w)
  then show ?case using length_ready [of "done_steps (step_status_map (payload_document_id p) w)"] by simp
qed (auto simp: check_row_def check_document_def run_and_save_def record_failure_def Let_def
    split: option.split sum.split prod.split)

end
