(* ===== verification/Storage.thy ===== *)
theory Storage
  imports Session Config
begin

section \<open>File storage (\<open>app/storage.py\<close>)\<close>

text \<open>
  \<open>LocalDiskStorage.save\<close> writes the bytes to \<open>base_dir/<org_id>/<document_id>\<close> and answers a
  file URI. The disk is a dict from paths to bytes; \<open>os.path.abspath\<close> depends on the process's
  working directory and is the argument \<open>abspath\<close>.
\<close>

text \<open>\<open>os.path.join(a, b)\<close> for a relative \<open>b\<close>.\<close>

definition path_join :: "string \<Rightarrow> string \<Rightarrow> string" where
  "path_join a b = (if a = [] then b else if last a = CHR ''/'' then a @ b else a @ ''/'' @ b)"

text \<open>\<open>Path.as_uri\<close>: the scheme and the percent-encoded path.\<close>

definition uri_safe :: "char \<Rightarrow> bool" where
  "uri_safe c = (let n = of_char c :: nat in
     (48 \<le> n \<and> n \<le> 57) \<or> (65 \<le> n \<and> n \<le> 90) \<or> (97 \<le> n \<and> n \<le> 122) \<or> c \<in> set ''/_.-~'')"

definition upper_hex :: "nat \<Rightarrow> char" where
  "upper_hex d = ''0123456789ABCDEF'' ! d"

definition percent_encode :: "string \<Rightarrow> string" where
  "percent_encode s = concat (map (\<lambda>c. if uri_safe c then [c]
     else let n = of_char c :: nat in [CHR ''%'', upper_hex (n div 16), upper_hex (n mod 16)]) s)"

definition as_uri :: "string \<Rightarrow> string" where
  "as_uri p = ''file://'' @ percent_encode p"

definition storage_path :: "string \<Rightarrow> uuid \<Rightarrow> uuid \<Rightarrow> string" where
  "storage_path base_dir org_id document_id =
     path_join (path_join base_dir (uuid_str org_id)) (uuid_str document_id)"

definition storage_save ::
  "(string \<Rightarrow> string) \<Rightarrow> string \<Rightarrow> uuid \<Rightarrow> uuid \<Rightarrow> string \<Rightarrow> world \<Rightarrow> string \<times> world" where
  "storage_save abspath base_dir org_id document_id data w =
     (let path = storage_path base_dir org_id document_id
      in (as_uri (abspath path), w\<lparr>disk := AList.update path data (disk w)\<rparr>))"

lemma storage_save_frame [simp]:
  "committed (snd (storage_save f b org d bytes w)) = committed w"
  "working (snd (storage_save f b org d bytes w)) = working w"
  "pending (snd (storage_save f b org d bytes w)) = pending w"
  "trace (snd (storage_save f b org d bytes w)) = trace w"
  "faults (snd (storage_save f b org d bytes w)) = faults w"
  "clock (snd (storage_save f b org d bytes w)) = clock w"
  by (simp_all add: storage_save_def Let_def)

end
