(* ===== verification/Documents.thy ===== *)
theory Documents
  imports Transition Storage
begin

section \<open>Upload and detail (\<open>app/api/routes_impl/documents.py\<close>, \<open>app/api/documents.py\<close>)\<close>

text \<open>
  \<open>create_document\<close> stores the bytes, inserts the document and its four step rows in one
  transaction and publishes the entry steps after the commit. \<open>get_document_detail\<close> answers
  only to the document's own organization and assembles the extracted data once the document
  is ready. The primary keys (\<open>uuid4\<close>) of the new rows are arguments.
\<close>

subsection \<open>Upload\<close>

record document_created =
  dc_id :: uuid
  dc_status :: document_status

definition new_document :: "app_user \<Rightarrow> string \<Rightarrow> uuid \<Rightarrow> timestamp \<Rightarrow> document" where
  "new_document user filename d now = \<lparr>doc_id = d, doc_org_id = user_org_id user,
     doc_uploaded_by = user_id user, doc_filename = filename, doc_storage_uri = [],
     doc_status = PROCESSING, doc_created_at = now, doc_updated_at = now\<rparr>"

definition new_step :: "uuid \<Rightarrow> uuid \<Rightarrow> step_name \<Rightarrow> step_status \<Rightarrow> timestamp \<Rightarrow> pipeline_step" where
  "new_step i d s st now = \<lparr>st_id = i, st_document_id = d, st_name = s, st_status = st,
     st_attempts = 0, st_result = None, st_error_text = None, st_external_job_id = None,
     st_started_at = None, st_finished_at = None, st_updated_at = now\<rparr>"

definition new_steps :: "(step_name \<Rightarrow> uuid) \<Rightarrow> uuid \<Rightarrow> timestamp \<Rightarrow> pipeline_step list" where
  "new_steps ids d now =
     map (\<lambda>s. new_step (ids s) d s (if s \<in> set (entry_nodes PIPELINE) then QUEUED else PENDING) now)
       (nodes PIPELINE)"

fun publish_entries :: "uuid \<Rightarrow> step_name list \<Rightarrow> world \<Rightarrow> (pyexn + unit) \<times> world" where
  "publish_entries d [] w = (Inr (), w)"
| "publish_entries d (s # ss) w =
     (case publish_step d s w of (Inl e, w1) \<Rightarrow> (Inl e, w1) | (Inr _, w1) \<Rightarrow> publish_entries d ss w1)"

definition create_document ::
  "settings \<Rightarrow> (string \<Rightarrow> string) \<Rightarrow> uuid \<Rightarrow> (step_name \<Rightarrow> uuid) \<Rightarrow> app_user \<Rightarrow> string \<Rightarrow> string \<Rightarrow> world \<Rightarrow>
   (pyexn + document_created) \<times> world" where
  "create_document cfg abspath d ids user filename data w =
     (let document = new_document user filename d (clock w);
          (uri, w1) = storage_save abspath (storage_dir cfg) (user_org_id user) d data w;
          w2 = w1\<lparr>working := (working w1)\<lparr>
                 documents := documents (working w1) @ [document\<lparr>doc_storage_uri := uri\<rparr>],
                 pipeline_steps := pipeline_steps (working w1) @ new_steps ids d (clock w)\<rparr>\<rparr>;
          w3 = commit w2
      in case publish_entries d (entry_nodes PIPELINE) w3 of
           (Inl e, w4) \<Rightarrow> (Inl e, w4)
         | (Inr _, w4) \<Rightarrow> (Inr \<lparr>dc_id = d, dc_status = doc_status document\<rparr>, w4))"

text \<open>The route: a missing or empty file name becomes \<open>upload.bin\<close>.\<close>

definition upload_document ::
  "settings \<Rightarrow> (string \<Rightarrow> string) \<Rightarrow> uuid \<Rightarrow> (step_name \<Rightarrow> uuid) \<Rightarrow> app_user \<Rightarrow> string option \<Rightarrow> string \<Rightarrow> world \<Rightarrow>
   document_created response \<times> world" where
  "upload_document cfg abspath d ids user filename data w =
     (let name = (case filename of Some n \<Rightarrow> if n = [] then ''upload.bin'' else n | None \<Rightarrow> ''upload.bin'')
      in case session_scope (create_document cfg abspath d ids user name data) w of
           (Inl e, w1) \<Rightarrow> (Escaped e, w1)
         | (Inr r, w1) \<Rightarrow> (Answer r, w1))"

subsection \<open>Detail\<close>

record step_out =
  so_name :: step_name
  so_status :: step_status
  so_attempts :: int
  so_error_text :: "string option"
  so_external_job_id :: "string option"

record extracted_data =
  ed_ocr_text :: "string option"
  ed_metadata :: "(string \<times> json) list option"
  ed_chunks :: "string list option"
  ed_external_job_id :: "string option"
  ed_partner_result :: "(string \<times> json) list option"

record document_detail =
  dd_id :: uuid
  dd_filename :: string
  dd_uploaded_by :: string
  dd_status :: document_status
  dd_steps :: "step_out list"
  dd_data :: "extracted_data option"

text \<open>The field types of \<open>ExtractedData\<close>; another JSON value is a validation error.\<close>

definition validation_error :: pyexn where
  "validation_error = Exn ''ValidationError'' ''ExtractedData''"

fun opt_text :: "json option \<Rightarrow> pyexn + string option" where
  "opt_text None = Inr None"
| "opt_text (Some JNull) = Inr None"
| "opt_text (Some (JString s)) = Inr (Some s)"
| "opt_text (Some _) = Inl validation_error"

fun opt_dict :: "json option \<Rightarrow> pyexn + (string \<times> json) list option" where
  "opt_dict None = Inr None"
| "opt_dict (Some JNull) = Inr None"
| "opt_dict (Some (JObject kvs)) = Inr (Some kvs)"
| "opt_dict (Some _) = Inl validation_error"

fun texts :: "json list \<Rightarrow> pyexn + string list" where
  "texts [] = Inr []"
| "texts (JString s # js) = bind_result (texts js) (\<lambda>ss. Inr (s # ss))"
| "texts (_ # js) = Inl validation_error"

fun opt_texts :: "json option \<Rightarrow> pyexn + string list option" where
  "opt_texts None = Inr None"
| "opt_texts (Some JNull) = Inr None"
| "opt_texts (Some (JArray js)) = bind_result (texts js) (\<lambda>ss. Inr (Some ss))"
| "opt_texts (Some _) = Inl validation_error"

text \<open>\<open>(row.result or {}).get("key")\<close>: a falsy result counts as the empty dict.\<close>

fun falsy :: "json \<Rightarrow> bool" where
  "falsy JNull = True"
| "falsy (JBool b) = (\<not> b)"
| "falsy (JInt i) = (i = 0)"
| "falsy (JFloat s) = (s \<in> {''0.0'', ''-0.0''})"
| "falsy (JString s) = (s = [])"
| "falsy (JArray js) = (js = [])"
| "falsy (JObject kvs) = (kvs = [])"

definition result_get :: "pipeline_step \<Rightarrow> string \<Rightarrow> pyexn + json option" where
  "result_get r k = (case st_result r of
       None \<Rightarrow> Inr None
     | Some j \<Rightarrow> if falsy j then Inr None else
         (case j of JObject kvs \<Rightarrow> Inr (map_of kvs k)
          | _ \<Rightarrow> Inl (Exn ''AttributeError'' ''object has no attribute get'')))"

definition step_item :: "(step_name \<times> pipeline_step) list \<Rightarrow> step_name \<Rightarrow> pyexn + pipeline_step" where
  "step_item steps s = (case map_of steps s of Some r \<Rightarrow> Inr r
     | None \<Rightarrow> Inl (Exn ''KeyError'' (CHR 0x27 # step_name_value s @ [CHR 0x27])))"

definition extract_data :: "(step_name \<times> pipeline_step) list \<Rightarrow> pyexn + extracted_data" where
  "extract_data steps =
     bind_result (step_item steps OCR) (\<lambda>ocr_step.
     bind_result (result_get ocr_step ''text'') (\<lambda>ocr_text.
     bind_result (step_item steps EXTERNAL_CALL) (\<lambda>external_step.
     bind_result (step_item steps METADATA) (\<lambda>meta_step.
     bind_result (step_item steps CHUNKING) (\<lambda>chunk_step.
     bind_result (result_get chunk_step ''chunks'') (\<lambda>chunks.
     bind_result (opt_text ocr_text) (\<lambda>t.
     bind_result (opt_dict (st_result meta_step)) (\<lambda>m.
     bind_result (opt_texts chunks) (\<lambda>cs.
     bind_result (opt_dict (st_result external_step)) (\<lambda>pr.
     Inr \<lparr>ed_ocr_text = t, ed_metadata = m, ed_chunks = cs,
          ed_external_job_id = st_external_job_id external_step, ed_partner_result = pr\<rparr>))))))))))"

text \<open>\<open>document.steps\<close>: the rows of the document, ordered by name.\<close>

definition document_steps :: "uuid \<Rightarrow> world \<Rightarrow> pipeline_step list" where
  "document_steps d w = sort_key st_name (steps_of d (working w))"

definition step_out_of :: "pipeline_step \<Rightarrow> step_out" where
  "step_out_of r = \<lparr>so_name = st_name r, so_status = st_status r, so_attempts = st_attempts r,
     so_error_text = st_error_text r, so_external_job_id = st_external_job_id r\<rparr>"

definition get_document_detail :: "uuid \<Rightarrow> uuid \<Rightarrow> world \<Rightarrow> pyexn + document_detail option" where
  "get_document_detail org_id d w =
     (case get_document d w of
        None \<Rightarrow> Inr None
      | Some document \<Rightarrow>
          if doc_org_id document \<noteq> org_id then Inr None
          else
            let steps = dict_of (map (\<lambda>r. (st_name r, r)) (document_steps d w)) in
            bind_result
              (if doc_status document = READY
               then bind_result (extract_data steps) (\<lambda>e. Inr (Some e)) else Inr None) (\<lambda>data.
            case find_user (doc_uploaded_by document) (working w) of
              None \<Rightarrow> Inl (Exn ''AttributeError'' ''NoneType object has no attribute email'')
            | Some u \<Rightarrow> Inr (Some \<lparr>dd_id = doc_id document, dd_filename = doc_filename document,
                dd_uploaded_by = user_email u, dd_status = doc_status document,
                dd_steps = map step_out_of (document_steps d w), dd_data = data\<rparr>)))"

definition get_document_route :: "uuid \<Rightarrow> uuid \<Rightarrow> world \<Rightarrow> document_detail response" where
  "get_document_route org_id d w =
     (case get_document_detail org_id d (open_session w) of
        Inl e \<Rightarrow> Escaped e
      | Inr None \<Rightarrow> HTTPException 404 ''document not found''
      | Inr (Some detail) \<Rightarrow> Answer detail)"

end
