(* ===== verification/Lifecycle.thy ===== *)
theory Lifecycle
  imports Transition Documents
begin

section \<open>The contract: what a transaction may do\<close>

text \<open>
  The abstract specification that the operations implement. \<open>step_move\<close> is the state machine
  of one step row (PENDING, QUEUED, RUNNING, then DONE or ERROR, with AWAITING_CALLBACK for the
  external call), with the guard of each transition and the events it announces; \<open>tx_step\<close> is
  one committed transaction of the whole program; \<open>effect_path\<close> says that a sequence of
  visible effects is made of such transactions and of messages for steps that are no longer
  PENDING. The invariant \<open>pipeline_ok\<close> is proved once, over \<open>tx_step\<close>, so it holds after every
  commit of every operation, also when the process dies between two commits.
\<close>

subsection \<open>Rows replaced by primary key\<close>

definition put_step :: "pipeline_step \<Rightarrow> database \<Rightarrow> database" where
  "put_step r db = db\<lparr>pipeline_steps := update_where (\<lambda>q. st_id q = st_id r) (\<lambda>_. r) (pipeline_steps db)\<rparr>"

definition put_doc_status :: "uuid \<Rightarrow> document_status \<Rightarrow> timestamp \<Rightarrow> database \<Rightarrow> database" where
  "put_doc_status d st now db = db\<lparr>documents :=
     update_where (\<lambda>q. doc_id q = d) (\<lambda>q. q\<lparr>doc_status := st, doc_updated_at := now\<rparr>) (documents db)\<rparr>"

definition document_statuses :: "uuid \<Rightarrow> database \<Rightarrow> (step_name \<times> step_status) list" where
  "document_statuses d db = map (\<lambda>r. (st_name r, st_status r)) (steps_of d db)"

lemma put_step_frame [simp]:
  "documents (put_step r db) = documents db" "app_users (put_step r db) = app_users db"
  "organizations (put_step r db) = organizations db" "webhook_events (put_step r db) = webhook_events db"
  by (simp_all add: put_step_def)

lemma put_doc_status_frame [simp]:
  "pipeline_steps (put_doc_status d st now db) = pipeline_steps db"
  "app_users (put_doc_status d st now db) = app_users db"
  "organizations (put_doc_status d st now db) = organizations db"
  "webhook_events (put_doc_status d st now db) = webhook_events db"
  "find_step e s (put_doc_status d st now db) = find_step e s db"
  "status_of e s (put_doc_status d st now db) = status_of e s db"
  "steps_of e (put_doc_status d st now db) = steps_of e db"
  by (simp_all add: put_doc_status_def find_step_def status_of_def steps_of_def)

text \<open>\<open>r'\<close> is a new version of the row \<open>r\<close> of the table.\<close>

definition new_version :: "database \<Rightarrow> pipeline_step \<Rightarrow> pipeline_step \<Rightarrow> bool" where
  "new_version db r r' \<longleftrightarrow> r \<in> set (pipeline_steps db) \<and> st_id r' = st_id r \<and> step_key r' = step_key r"

lemma new_version_same [simp]: "new_version db r r \<longleftrightarrow> r \<in> set (pipeline_steps db)"
  by (simp add: new_version_def)

lemma map_put_step:
  assumes "schema_ok db" "new_version db r r'" "f r' = f r"
  shows "map f (pipeline_steps (put_step r' db)) = map f (pipeline_steps db)"
proof -
  have "q = r" if "q \<in> set (pipeline_steps db)" "st_id q = st_id r'" for q
    using distinct_key_eq [OF schema_okD(2) [OF assms(1)] that(1), of r] assms(2) that
    by (simp add: new_version_def)
  then show ?thesis
    unfolding put_step_def using assms(3) by (simp add: map_key_update_where)
qed

lemma set_put_step:
  assumes "schema_ok db" "new_version db r r'"
  shows "set (pipeline_steps (put_step r' db)) = insert r' (set (pipeline_steps db) - {r})"
proof -
  have id: "st_id q = st_id r' \<longleftrightarrow> q = r" if "q \<in> set (pipeline_steps db)" for q
    using distinct_key_eq [OF schema_okD(2) [OF assms(1)] that, of r] assms(2)
    by (auto simp: new_version_def)
  have "r \<in> set (pipeline_steps db)" using assms(2) by (simp add: new_version_def)
  then show ?thesis unfolding put_step_def by (auto simp: set_update_where id)
qed

lemma schema_ok_put_step:
  assumes "schema_ok db" "new_version db r r'"
  shows "schema_ok (put_step r' db)"
proof -
  from assms(2) have "st_id r' = st_id r" "step_key r' = step_key r" "st_document_id r' = st_document_id r"
    by (simp_all add: new_version_def step_key_def)
  from this [THEN map_put_step [OF assms]] assms(1) show ?thesis
    unfolding schema_ok_def by (metis put_step_frame set_map)
qed

lemma find_step_put_step:
  assumes "schema_ok db" "new_version db r r'"
  shows "find_step d s (put_step r' db) = (if (d, s) = step_key r' then Some r' else find_step d s db)"
proof (rule option_ext)
  fix q
  note ok' = schema_ok_put_step [OF assms]
  have key: "q = r \<longleftrightarrow> step_key q = step_key r'" if "q \<in> set (pipeline_steps db)" for q
    using distinct_key_eq [OF schema_okD(3) [OF assms(1)] that, of r] assms(2)
    by (auto simp: new_version_def)
  show "find_step d s (put_step r' db) = Some q \<longleftrightarrow>
      (if (d, s) = step_key r' then Some r' else find_step d s db) = Some q"
    unfolding find_step_iff [OF ok'] set_put_step [OF assms]
    using find_step_iff [OF assms(1), of d s q] key [of q]
    by (auto simp: step_key_def)
qed

lemma status_of_put_step:
  assumes "schema_ok db" "new_version db r r'"
  shows "status_of d s (put_step r' db) = (if (d, s) = step_key r' then Some (st_status r') else status_of d s db)"
  by (simp add: status_of_def find_step_put_step [OF assms])

lemma schema_ok_put_doc_status: "schema_ok db \<Longrightarrow> schema_ok (put_doc_status d st now db)"
proof -
  have "map f (documents (put_doc_status d st now db)) = map f (documents db)"
    if "\<And>q st t. f (q\<lparr>doc_status := st, doc_updated_at := t\<rparr>) = f q" for f :: "document \<Rightarrow> 'a"
    using that by (simp add: put_doc_status_def map_key_update_where)
  from this [of doc_id] this [of doc_org_id] this [of doc_uploaded_by]
  show "schema_ok db \<Longrightarrow> schema_ok (put_doc_status d st now db)"
    unfolding schema_ok_def by simp (metis set_map)
qed

lemma find_document_put_doc_status:
  "find_document e (put_doc_status d st now db) =
    map_option (\<lambda>q. if doc_id q = d then q\<lparr>doc_status := st, doc_updated_at := now\<rparr> else q) (find_document e db)"
  unfolding find_document_def put_doc_status_def
  by (simp add: find_key_update_where)

subsection \<open>The state machine of a step row\<close>

text \<open>The parents of the step are done, in this database.\<close>

definition parents_done :: "database \<Rightarrow> pipeline_step \<Rightarrow> bool" where
  "parents_done db r \<longleftrightarrow> (\<forall>p \<in> parents PIPELINE (st_name r). status_of (st_document_id r) p db = Some DONE)"

text \<open>What the step functions and the webhook store as a result.\<close>

fun result_shape :: "step_name \<Rightarrow> json \<Rightarrow> bool" where
  "result_shape OCR j = (\<exists>t. j = JObject [(''text'', JString t)])"
| "result_shape METADATA j = (\<exists>kvs. j = JObject kvs)"
| "result_shape CHUNKING j = (\<exists>cs. j = JObject [(''chunks'', JArray (map JString cs))])"
| "result_shape EXTERNAL_CALL j = (\<exists>kvs. j = JObject kvs)"

definition job_unused :: "string \<Rightarrow> database \<Rightarrow> bool" where
  "job_unused j db \<longleftrightarrow> (\<forall>q \<in> set (pipeline_steps db). st_external_job_id q \<noteq> Some j)"

text \<open>
  One transition of the row \<open>r\<close> to \<open>r'\<close>, and the events announced with it. The time \<open>t\<close> is
  the new \<open>updated_at\<close>. The transition \<open>retry\<close>, back to QUEUED, announces nothing.
\<close>

inductive step_move :: "settings \<Rightarrow> database \<Rightarrow> pipeline_step \<Rightarrow> pipeline_step \<Rightarrow> event list \<Rightarrow> bool"
  for cfg db where
  claim: "st_status r = PENDING \<Longrightarrow> parents_done db r \<Longrightarrow>
    step_move cfg db r (r\<lparr>st_status := QUEUED, st_updated_at := t\<rparr>) [step_event (st_name r) QUEUED]"
| start: "st_status r \<in> {QUEUED, RUNNING} \<Longrightarrow> st_started_at r = None \<or> begun = st_started_at r \<Longrightarrow> begun \<noteq> None \<Longrightarrow>
    step_move cfg db r (r\<lparr>st_status := RUNNING, st_started_at := begun, st_updated_at := t\<rparr>)
      [step_event (st_name r) RUNNING]"
| finish: "st_status r = RUNNING \<Longrightarrow> st_name r \<noteq> EXTERNAL_CALL \<Longrightarrow> result_shape (st_name r) j \<Longrightarrow>
    step_move cfg db r (r\<lparr>st_result := Some j, st_status := DONE, st_finished_at := Some u, st_updated_at := t\<rparr>)
      [step_event (st_name r) DONE]"
| sent: "st_status r = RUNNING \<Longrightarrow> st_name r = EXTERNAL_CALL \<Longrightarrow> job_unused j db \<Longrightarrow>
    step_move cfg db r (r\<lparr>st_external_job_id := Some j, st_status := AWAITING_CALLBACK, st_updated_at := t\<rparr>)
      [step_event EXTERNAL_CALL AWAITING_CALLBACK]"
| retry: "st_status r = RUNNING \<Longrightarrow> st_attempts r + 1 < step_max_attempts cfg \<Longrightarrow>
    step_move cfg db r (r\<lparr>st_attempts := st_attempts r + 1, st_status := QUEUED, st_updated_at := t\<rparr>) []"
| exhaust: "st_status r = RUNNING \<Longrightarrow> st_attempts r + 1 \<ge> step_max_attempts cfg \<Longrightarrow>
    step_move cfg db r (r\<lparr>st_attempts := st_attempts r + 1, st_status := ERROR, st_error_text := Some x,
      st_finished_at := Some u, st_updated_at := t\<rparr>) [step_event (st_name r) ERROR]"
| reap: "st_status r \<in> {QUEUED, RUNNING, AWAITING_CALLBACK} \<Longrightarrow>
    step_move cfg db r (r\<lparr>st_status := ERROR, st_error_text := Some x, st_finished_at := Some u,
      st_updated_at := t\<rparr>) [step_event (st_name r) ERROR]"
| completed: "st_status r = AWAITING_CALLBACK \<Longrightarrow>
    step_move cfg db r (r\<lparr>st_finished_at := Some u, st_status := DONE, st_result := Some (JObject kvs),
      st_updated_at := t\<rparr>) [step_event EXTERNAL_CALL DONE]"

text \<open>The invariant of a row.\<close>

definition step_row_ok :: "settings \<Rightarrow> pipeline_step \<Rightarrow> bool" where
  "step_row_ok cfg r \<longleftrightarrow>
     0 \<le> st_attempts r \<and> st_attempts r \<le> step_max_attempts cfg \<and>
     (st_status r \<noteq> ERROR \<longrightarrow> st_attempts r < step_max_attempts cfg) \<and>
     (st_status r = DONE \<longrightarrow> (\<exists>j. st_result r = Some j \<and> result_shape (st_name r) j)) \<and>
     (st_status r \<noteq> DONE \<longrightarrow> st_result r = None) \<and>
     (st_status r = AWAITING_CALLBACK \<longrightarrow> st_name r = EXTERNAL_CALL) \<and>
     (st_external_job_id r \<noteq> None \<longrightarrow> st_name r = EXTERNAL_CALL \<and> st_status r \<in> {AWAITING_CALLBACK, DONE, ERROR}) \<and>
     (st_name r = EXTERNAL_CALL \<and> st_status r \<in> {AWAITING_CALLBACK, DONE} \<longrightarrow> st_external_job_id r \<noteq> None) \<and>
     (st_error_text r \<noteq> None \<longleftrightarrow> st_status r = ERROR) \<and>
     (st_finished_at r \<noteq> None \<longleftrightarrow> st_status r \<in> {DONE, ERROR}) \<and>
     (st_status r \<in> {RUNNING, AWAITING_CALLBACK, DONE} \<longrightarrow> st_started_at r \<noteq> None)"

lemma step_move_key:
  "step_move cfg db r r' ev \<Longrightarrow> st_id r' = st_id r \<and> step_key r' = step_key r \<and>
    st_document_id r' = st_document_id r \<and> st_name r' = st_name r"
  by (cases rule: step_move.cases) (auto simp: step_key_def)

lemma step_move_row_ok:
  assumes "step_move cfg db r r' ev" "step_row_ok cfg r"
  shows "step_row_ok cfg r'"
  using assms
proof (induction rule: step_move.induct)
  case (claim r t)
  then show ?case by (simp add: step_row_ok_def)
next
  case (start r begun t)
  then show ?case by (cases "st_status r") (simp_all add: step_row_ok_def)
next
  case (finish r j u t)
  then show ?case by (simp add: step_row_ok_def)
next
  case (sent r j t)
  then show ?case by (simp add: step_row_ok_def)
next
  case (retry r t)
  then show ?case by (simp add: step_row_ok_def)
next
  case (exhaust r x u t)
  then show ?case by (simp add: step_row_ok_def)
next
  case (reap r x u t)
  then show ?case by (cases "st_status r") (simp_all add: step_row_ok_def)
next
  case (completed r u kvs t)
  then show ?case by (simp add: step_row_ok_def)
qed

text \<open>The statuses of the move: the edges of the state machine.\<close>

inductive status_edge :: "step_status \<Rightarrow> step_status \<Rightarrow> bool" where
  "status_edge PENDING QUEUED"
| "status_edge QUEUED RUNNING"
| "status_edge RUNNING RUNNING"
| "status_edge RUNNING DONE"
| "status_edge RUNNING AWAITING_CALLBACK"
| "status_edge RUNNING QUEUED"
| "status_edge RUNNING ERROR"
| "status_edge QUEUED ERROR"
| "status_edge AWAITING_CALLBACK DONE"
| "status_edge AWAITING_CALLBACK ERROR"

inductive_simps status_edge_from [simp]:
  "status_edge DONE b" "status_edge ERROR b" "status_edge a PENDING"

lemma step_move_edge: "step_move cfg db r r' ev \<Longrightarrow> status_edge (st_status r) (st_status r')"
  by (cases rule: step_move.cases) (auto intro: status_edge.intros)

lemma step_move_final: "step_move cfg db r r' ev \<Longrightarrow> st_status r \<notin> {DONE, ERROR} \<and> st_status r' \<noteq> PENDING"
  by (cases rule: step_move.cases) auto

lemma step_move_parents:
  "step_move cfg db r r' ev \<Longrightarrow> (st_status r \<noteq> PENDING \<longrightarrow> parents_done db r) \<Longrightarrow> parents_done db r"
  by (cases rule: step_move.cases) auto

lemma step_move_job:
  "step_move cfg db r r' ev \<Longrightarrow> st_external_job_id r' = st_external_job_id r \<or>
    (\<exists>j. st_external_job_id r' = Some j \<and> job_unused j db)"
  by (cases rule: step_move.cases) auto

subsection \<open>The invariant of the database\<close>

definition in_order :: "database \<Rightarrow> bool" where
  "in_order db \<longleftrightarrow> (\<forall>r \<in> set (pipeline_steps db). st_status r \<noteq> PENDING \<longrightarrow> parents_done db r)"

definition four_steps :: "database \<Rightarrow> bool" where
  "four_steps db \<longleftrightarrow> (\<forall>q \<in> set (documents db). \<forall>s. find_step (doc_id q) s db \<noteq> None)"

definition jobs_unique :: "database \<Rightarrow> bool" where
  "jobs_unique db \<longleftrightarrow> (\<forall>r \<in> set (pipeline_steps db). \<forall>q \<in> set (pipeline_steps db).
     st_external_job_id r \<noteq> None \<longrightarrow> st_external_job_id r = st_external_job_id q \<longrightarrow> r = q)"

definition pipeline_ok :: "settings \<Rightarrow> database \<Rightarrow> bool" where
  "pipeline_ok cfg db \<longleftrightarrow> schema_ok db \<and> (\<forall>r \<in> set (pipeline_steps db). step_row_ok cfg r) \<and>
     in_order db \<and> four_steps db \<and> jobs_unique db"

lemma pipeline_okD:
  assumes "pipeline_ok cfg db"
  shows "schema_ok db" "in_order db" "four_steps db" "jobs_unique db"
    and "r \<in> set (pipeline_steps db) \<Longrightarrow> step_row_ok cfg r"
    and "r \<in> set (pipeline_steps db) \<Longrightarrow> st_status r \<noteq> PENDING \<Longrightarrow> parents_done db r"
  using assms by (auto simp: pipeline_ok_def in_order_def)

lemma pipeline_ok_step:
  assumes ok: "pipeline_ok cfg db" and r: "r \<in> set (pipeline_steps db)" and move: "step_move cfg db r r' ev"
  shows "pipeline_ok cfg (put_step r' db)" and "new_version db r r'"
proof -
  note sch = pipeline_okD(1) [OF ok]
  show nv: "new_version db r r'" using r step_move_key [OF move] by (simp add: new_version_def)
  note set' = set_put_step [OF sch nv]
  have keep: "parents_done (put_step r' db) q" if "parents_done db q" for q
  proof -
    have "st_status r \<noteq> DONE" using step_move_final [OF move] by auto
    moreover have "find_step (st_document_id r) (st_name r) db = Some r"
      using find_step_iff [OF sch] r by simp
    ultimately have "status_of (st_document_id r) (st_name r) db \<noteq> Some DONE"
      by (simp add: status_of_def)
    then show ?thesis
      using that step_move_key [OF move]
      by (auto simp: parents_done_def status_of_put_step [OF sch nv] step_key_def)
  qed
  have "step_row_ok cfg r'"
    by (rule step_move_row_ok [OF move pipeline_okD(5) [OF ok r]])
  then have rows: "\<forall>q \<in> set (pipeline_steps (put_step r' db)). step_row_ok cfg q"
    unfolding set' using pipeline_okD(5) [OF ok] by blast
  have "parents_done db r'"
    using step_move_parents [OF move] pipeline_okD(6) [OF ok r] step_move_key [OF move]
    by (simp add: parents_done_def)
  then have order: "in_order (put_step r' db)"
    unfolding in_order_def set' using keep pipeline_okD(6) [OF ok] by blast
  have compl: "four_steps (put_step r' db)"
    using pipeline_okD(3) [OF ok] by (simp add: four_steps_def find_step_put_step [OF sch nv])
  have uniq: "q = q'" if "q \<in> set (pipeline_steps (put_step r' db))" "q' \<in> set (pipeline_steps (put_step r' db))"
      "st_external_job_id q \<noteq> None" "st_external_job_id q = st_external_job_id q'" for q q'
    using that pipeline_okD(4) [OF ok] step_move_job [OF move] r
    unfolding set' jobs_unique_def job_unused_def by (metis Diff_iff insert_iff singletonI)
  then have "jobs_unique (put_step r' db)" unfolding jobs_unique_def by blast
  with schema_ok_put_step [OF sch nv] rows order compl show "pipeline_ok cfg (put_step r' db)"
    by (simp add: pipeline_ok_def)
qed

subsection \<open>Transactions\<close>

definition add_document :: "document \<Rightarrow> pipeline_step list \<Rightarrow> database \<Rightarrow> database" where
  "add_document q rs db = db\<lparr>documents := documents db @ [q], pipeline_steps := pipeline_steps db @ rs\<rparr>"

text \<open>The primary keys drawn for an upload are new.\<close>

definition fresh_ids :: "uuid \<Rightarrow> (step_name \<Rightarrow> uuid) \<Rightarrow> database \<Rightarrow> bool" where
  "fresh_ids d ids db \<longleftrightarrow> d \<notin> doc_id ` set (documents db) \<and> distinct (map ids all_step_names) \<and>
     set (map ids all_step_names) \<inter> st_id ` set (pipeline_steps db) = {}"

inductive tx_step :: "settings \<Rightarrow> database \<Rightarrow> database \<Rightarrow> (uuid \<times> event) list \<Rightarrow> bool"
  for cfg db where
  idle: "tx_step cfg db db []"
| move: "r \<in> set (pipeline_steps db) \<Longrightarrow> step_move cfg db r r' evs \<Longrightarrow>
    tx_step cfg db (put_step r' db) (map (Pair (st_document_id r)) evs)"
| derive: "find_document d db = Some q \<Longrightarrow> st = derive_document_status (document_statuses d db) \<Longrightarrow>
    doc_status q \<noteq> st \<Longrightarrow> tx_step cfg db (put_doc_status d st now db) [(d, doc_status_event st)]"
| webhook: "tx_step cfg db (db\<lparr>webhook_events := webhook_events db @ [e]\<rparr>) []"
| upload: "user \<in> set (app_users db) \<Longrightarrow> fresh_ids d ids db \<Longrightarrow>
    tx_step cfg db (add_document ((new_document user filename d now)\<lparr>doc_storage_uri := uri\<rparr>)
      (new_steps ids d now) db) []"

lemma find_step_add_document:
  assumes "schema_ok db" "fresh_ids d ids db"
  shows "find_step e s (add_document q (new_steps ids d now) db) =
    (if e = d then Some (new_step (ids s) d s (if s = OCR then QUEUED else PENDING) now) else find_step e s db)"
proof -
  have none: "find (\<lambda>r. step_key r = (d, s)) (pipeline_steps db) = None"
    using assms schema_okD(6) [OF assms(1)] by (auto simp: find_None_iff step_key_def fresh_ids_def)
  have new: "find (\<lambda>r. step_key r = (e, s)) (new_steps ids d now) =
      (if e = d then Some (new_step (ids s) d s (if s = OCR then QUEUED else PENDING) now) else None)"
    by (cases s) (auto simp: new_steps_def pipeline_nodes all_step_names_def pipeline_entry_nodes
        step_key_def new_step_def)
  show ?thesis
    using none new by (auto simp: find_step_def add_document_def find_append split: option.split)
qed

lemma schema_ok_add_document:
  assumes ok: "schema_ok db" and user: "user \<in> set (app_users db)" and fresh: "fresh_ids d ids db"
    and q: "doc_id q = d" "doc_org_id q = user_org_id user" "doc_uploaded_by q = user_id user"
  shows "schema_ok (add_document q (new_steps ids d now) db)"
proof -
  have ids: "map st_id (new_steps ids d now) = map ids all_step_names"
    by (simp add: new_steps_def new_step_def pipeline_nodes)
  have keys: "map step_key (new_steps ids d now) = map (Pair d) all_step_names"
    by (simp add: new_steps_def new_step_def step_key_def pipeline_nodes)
  have docs: "st_document_id ` set (new_steps ids d now) \<subseteq> {d}"
    by (auto simp: new_steps_def new_step_def)
  have "distinct (map st_id (pipeline_steps db @ new_steps ids d now))"
    using schema_okD(2) [OF ok] fresh unfolding map_append ids by (auto simp: fresh_ids_def)
  moreover have "distinct (map step_key (pipeline_steps db @ new_steps ids d now))"
    using schema_okD(3,6) [OF ok] fresh unfolding map_append keys
    by (auto simp: fresh_ids_def distinct_map inj_on_def step_key_def)
  ultimately show ?thesis
    using ok user fresh q docs by (auto simp: schema_ok_def add_document_def fresh_ids_def)
qed

lemma pipeline_ok_upload:
  assumes ok: "pipeline_ok cfg db" and cfg: "1 \<le> step_max_attempts cfg"
    and user: "user \<in> set (app_users db)" and fresh: "fresh_ids d ids db"
    and q: "doc_id q = d" "doc_org_id q = user_org_id user" "doc_uploaded_by q = user_id user"
  shows "pipeline_ok cfg (add_document q (new_steps ids d now) db)"
proof -
  let ?db = "add_document q (new_steps ids d now) db"
  note sch = pipeline_okD(1) [OF ok]
  note find = find_step_add_document [OF sch fresh]
  have old: "st_document_id r \<noteq> d" if "r \<in> set (pipeline_steps db)" for r
    using that schema_okD(6) [OF sch] fresh by (auto simp: fresh_ids_def)
  have steps: "set (pipeline_steps ?db) = set (pipeline_steps db) \<union> set (new_steps ids d now)"
    by (simp add: add_document_def)
  have new: "st_attempts r = 0 \<and> st_result r = None \<and> st_error_text r = None \<and> st_external_job_id r = None \<and>
      st_finished_at r = None \<and> (st_status r = QUEUED \<and> st_name r = OCR \<or> st_status r = PENDING)"
    if "r \<in> set (new_steps ids d now)" for r
    using that by (auto simp: new_steps_def new_step_def pipeline_entry_nodes split: if_splits)
  have "step_row_ok cfg r" if "r \<in> set (pipeline_steps ?db)" for r
    using that pipeline_okD(5) [OF ok] new [of r] cfg unfolding steps by (auto simp: step_row_ok_def)
  moreover have "in_order ?db"
    unfolding in_order_def
  proof (intro ballI impI)
    fix r assume r: "r \<in> set (pipeline_steps ?db)" "st_status r \<noteq> PENDING"
    show "parents_done ?db r"
    proof (cases "r \<in> set (pipeline_steps db)")
      case True
      with pipeline_okD(6) [OF ok] r old show ?thesis
        by (simp add: parents_done_def status_of_def find)
    next
      case False
      with r steps new have "st_name r = OCR" by auto
      then show ?thesis by (simp add: parents_done_def enum_simps)
    qed
  qed
  moreover have "four_steps ?db"
    using pipeline_okD(3) [OF ok] q(1) by (auto simp: four_steps_def find) (simp add: add_document_def, blast)
  moreover have "jobs_unique ?db"
    using pipeline_okD(4) [OF ok] new unfolding jobs_unique_def steps by (metis Un_iff)
  ultimately show ?thesis
    using schema_ok_add_document [OF sch user fresh q] by (simp add: pipeline_ok_def)
qed

lemma jobs_unique_cong: "pipeline_steps db' = pipeline_steps db \<Longrightarrow> jobs_unique db' = jobs_unique db"
  by (simp only: jobs_unique_def)

lemma pipeline_ok_doc_status: "pipeline_ok cfg db \<Longrightarrow> pipeline_ok cfg (put_doc_status d st now db)"
proof -
  assume ok: "pipeline_ok cfg db"
  have "map doc_id (documents (put_doc_status d st now db)) = map doc_id (documents db)"
    by (simp add: put_doc_status_def map_key_update_where)
  then have "doc_id ` set (documents (put_doc_status d st now db)) = doc_id ` set (documents db)"
    by (metis set_map)
  then have "four_steps (put_doc_status d st now db)"
    using pipeline_okD(3) [OF ok] unfolding four_steps_def by (metis imageE image_eqI put_doc_status_frame(5))
  with ok schema_ok_put_doc_status [OF pipeline_okD(1) [OF ok]] show ?thesis
    using jobs_unique_cong [of "put_doc_status d st now db" db]
    by (simp add: pipeline_ok_def in_order_def parents_done_def)
qed

lemma webhook_events_frame [simp]:
  "find_step d s (db\<lparr>webhook_events := es\<rparr>) = find_step d s db"
  "find_document d (db\<lparr>webhook_events := es\<rparr>) = find_document d db"
  "status_of d s (db\<lparr>webhook_events := es\<rparr>) = status_of d s db"
  "steps_of d (db\<lparr>webhook_events := es\<rparr>) = steps_of d db"
  "parents_done (db\<lparr>webhook_events := es\<rparr>) r = parents_done db r"
  "schema_ok (db\<lparr>webhook_events := es\<rparr>) = schema_ok db"
  by (simp_all add: find_step_def find_document_def status_of_def steps_of_def parents_done_def schema_ok_def)

lemma pipeline_ok_webhook: "pipeline_ok cfg db \<Longrightarrow> pipeline_ok cfg (db\<lparr>webhook_events := es\<rparr>)"
  using jobs_unique_cong [of "db\<lparr>webhook_events := es\<rparr>" db]
  by (simp add: pipeline_ok_def in_order_def four_steps_def)

lemma pipeline_ok_tx:
  assumes "tx_step cfg db db' ns" "pipeline_ok cfg db" "1 \<le> step_max_attempts cfg"
  shows "pipeline_ok cfg db'"
  using assms
proof (induction rule: tx_step.induct)
  case (move r r' evs)
  then show ?case by (blast intro: pipeline_ok_step)
next
  case (upload user d ids filename now uri)
  then show ?case by (intro pipeline_ok_upload) (simp_all add: new_document_def)
qed (simp_all add: pipeline_ok_doc_status pipeline_ok_webhook)

subsection \<open>Sequences of visible effects\<close>

text \<open>A message may be sent for a step that has left PENDING.\<close>

definition deliverable :: "payload \<Rightarrow> database \<Rightarrow> bool" where
  "deliverable p db \<longleftrightarrow> (\<exists>r. find_step (payload_document_id p) (payload_step p) db = Some r \<and> st_status r \<noteq> PENDING)"

fun effect_path :: "settings \<Rightarrow> database \<Rightarrow> effect list \<Rightarrow> bool" where
  "effect_path cfg db [] = True"
| "effect_path cfg db (Published p # es) = (deliverable p db \<and> effect_path cfg db es)"
| "effect_path cfg db (Committed db' ns # es) = (tx_step cfg db db' ns \<and> effect_path cfg db' es)"

fun final_db :: "database \<Rightarrow> effect list \<Rightarrow> database" where
  "final_db db [] = db"
| "final_db db (Published p # es) = final_db db es"
| "final_db db (Committed db' ns # es) = final_db db' es"

lemma final_db_append [simp]: "final_db db (xs @ ys) = final_db (final_db db xs) ys"
  by (induction db xs rule: final_db.induct) auto

lemma effect_path_append [simp]:
  "effect_path cfg db (xs @ ys) \<longleftrightarrow> effect_path cfg db xs \<and> effect_path cfg (final_db db xs) ys"
  by (induction cfg db xs rule: effect_path.induct) auto

lemma effect_path_ok:
  assumes "effect_path cfg db es" "pipeline_ok cfg db" "1 \<le> step_max_attempts cfg"
  shows "pipeline_ok cfg (final_db db es) \<and> (\<forall>db' \<in> set (committed_of es). pipeline_ok cfg db')"
  using assms by (induction cfg db es rule: effect_path.induct) (auto dest: pipeline_ok_tx)

subsubsection \<open>What no transaction undoes\<close>

lemma tx_step_final_row:
  assumes "tx_step cfg db db' ns" "pipeline_ok cfg db"
    and "find_step d s db = Some r" "st_status r \<in> {DONE, ERROR}"
  shows "find_step d s db' = Some r"
  using assms
proof (induction rule: tx_step.induct)
  case (move q q' evs)
  note sch = pipeline_okD(1) [OF move.prems(1)]
  have "r \<noteq> q" using step_move_final [OF move.hyps(2)] move.prems(3) by auto
  then have "step_key q' \<noteq> (d, s)"
    using move.hyps(1) move.prems(2) step_move_key [OF move.hyps(2)] find_step_iff [OF sch]
      distinct_key_eq [OF schema_okD(3) [OF sch]] by (metis prod.inject step_key_def)
  then show ?case
    using move.prems(2) find_step_put_step [OF sch pipeline_ok_step(2) [OF move.prems(1) move.hyps]] by simp
next
  case (upload user e ids filename now uri)
  have "d \<noteq> e" using upload.prems(1,2) upload.hyps(2) schema_okD(6) [OF pipeline_okD(1)]
    by (auto simp: fresh_ids_def dest!: find_stepD)
  then show ?case
    using upload by (simp add: find_step_add_document [OF pipeline_okD(1) [OF upload.prems(1)] upload.hyps(2)])
qed simp_all

lemma tx_step_left_pending:
  assumes "tx_step cfg db db' ns" "pipeline_ok cfg db"
    and "status_of d s db = Some st" "st \<noteq> PENDING"
  shows "\<exists>st'. status_of d s db' = Some st' \<and> st' \<noteq> PENDING"
  using assms
proof (induction rule: tx_step.induct)
  case (move q q' evs)
  then show ?case
    using step_move_final [OF move.hyps(2)]
    by (simp add: status_of_put_step [OF pipeline_okD(1) [OF move.prems(1)] pipeline_ok_step(2) [OF move.prems(1) move.hyps]])
next
  case (upload user e ids filename now uri)
  have "d \<noteq> e" using upload.prems(1,2) upload.hyps(2) schema_okD(6) [OF pipeline_okD(1)]
    by (auto simp: fresh_ids_def status_of_def dest!: find_stepD)
  then show ?case
    using upload.prems(2,3) find_step_add_document [OF pipeline_okD(1) [OF upload.prems(1)] upload.hyps(2)]
    unfolding status_of_def by auto
qed simp_all

lemma effect_path_final_row:
  assumes "effect_path cfg db es" "pipeline_ok cfg db" "1 \<le> step_max_attempts cfg"
    and "find_step d s db = Some r" "st_status r \<in> {DONE, ERROR}"
  shows "find_step d s (final_db db es) = Some r"
  using assms
  by (induction cfg db es rule: effect_path.induct) (auto dest: pipeline_ok_tx tx_step_final_row)

lemma effect_path_left_pending:
  assumes "effect_path cfg db es" "pipeline_ok cfg db" "1 \<le> step_max_attempts cfg"
    and "status_of d s db = Some st" "st \<noteq> PENDING"
  shows "\<exists>st'. status_of d s (final_db db es) = Some st' \<and> st' \<noteq> PENDING"
  using assms
proof (induction cfg db es arbitrary: st rule: effect_path.induct)
  case (3 cfg db db' ns es)
  from 3(2) have tx: "tx_step cfg db db' ns" and path: "effect_path cfg db' es" by simp_all
  from tx_step_left_pending [OF tx 3(3,5,6)] obtain st'
    where "status_of d s db' = Some st'" "st' \<noteq> PENDING" by auto
  from 3(1) [OF path pipeline_ok_tx [OF tx 3(3,4)] 3(4) this] show ?case by simp
qed auto

subsubsection \<open>A step is announced QUEUED at most once\<close>

definition claims :: "uuid \<Rightarrow> step_name \<Rightarrow> (uuid \<times> event) list \<Rightarrow> nat" where
  "claims d s ns = length (filter (\<lambda>n. n = (d, step_event s QUEUED)) ns)"

lemma claims_append [simp]: "claims d s (xs @ ys) = claims d s xs + claims d s ys"
  by (simp add: claims_def)

lemma step_event_eq [simp]: "step_event s st = step_event s' st' \<longleftrightarrow> s = s' \<and> st = st'"
  using step_name_codec.encode_injective [of s s'] step_status_codec.encode_injective [of st st']
  by (auto simp: step_event_def)

lemma step_event_not_doc_status [simp]:
  "step_event s st \<noteq> doc_status_event x" "doc_status_event x \<noteq> step_event s st"
  by (simp_all add: step_event_def doc_status_event_def)

text \<open>A claim starts from PENDING and leaves it.\<close>

lemma tx_step_claims:
  assumes "tx_step cfg db db' ns" "pipeline_ok cfg db" "claims d s ns \<noteq> 0"
  shows "claims d s ns = 1 \<and> status_of d s db = Some PENDING \<and> status_of d s db' = Some QUEUED"
  using assms
proof (induction rule: tx_step.induct)
  case (move r r' evs)
  note sch = pipeline_okD(1) [OF move.prems(1)]
  note post = status_of_put_step [OF sch pipeline_ok_step(2) [OF move.prems(1) move.hyps]]
  have found: "status_of (st_document_id r) (st_name r) db = Some (st_status r)"
    by (rule status_of_row [OF sch move.hyps(1)])
  have facts: "st_status r' = QUEUED" "st_status r = PENDING" "evs = [step_event (st_name r) QUEUED]"
      "d = st_document_id r" "s = st_name r"
    using move.hyps(2) move.prems(2) by (cases rule: step_move.cases; auto simp: claims_def split: if_splits)+
  with step_move_key [OF move.hyps(2)] have "step_key r' = (d, s)" by (simp add: step_key_def)
  with facts found show ?case by (simp add: claims_def post)
qed (auto simp: claims_def)

theorem effect_path_claims:
  assumes "effect_path cfg db es" "pipeline_ok cfg db" "1 \<le> step_max_attempts cfg"
  shows "claims d s (notified_of es) \<le> (case status_of d s db of None \<Rightarrow> 1 | Some st \<Rightarrow> if st = PENDING then 1 else 0)"
  using assms
proof (induction cfg db es rule: effect_path.induct)
  case (3 cfg db db' ns es)
  from 3 have tx: "tx_step cfg db db' ns" by simp
  from 3 pipeline_ok_tx [OF tx] have IH: "claims d s (notified_of es) \<le>
      (case status_of d s db' of None \<Rightarrow> 1 | Some st \<Rightarrow> if st = PENDING then 1 else 0)" by simp
  show ?case
  proof (cases "claims d s ns = 0")
    case True
    with IH tx_step_left_pending [OF tx 3(3), of d s] show ?thesis
      by (auto split: option.splits if_splits)
  next
    case False
    from tx_step_claims [OF tx 3(3) False] IH show ?thesis by simp
  qed
qed (auto simp: claims_def split: option.split)

subsection \<open>Operations that implement the contract\<close>

text \<open>Between operations a session has no open transaction.\<close>

definition clean :: "world \<Rightarrow> bool" where
  "clean w \<longleftrightarrow> working w = committed w \<and> pending w = []"

text \<open>Nothing that belongs to this document was touched.\<close>

definition same_document :: "uuid \<Rightarrow> database \<Rightarrow> database \<Rightarrow> bool" where
  "same_document e db db' \<longleftrightarrow> find_document e db' = find_document e db \<and> steps_of e db' = steps_of e db"

lemma same_document_refl [simp]: "same_document e db db"
  by (simp add: same_document_def)

lemma same_document_trans: "same_document e a b \<Longrightarrow> same_document e b c \<Longrightarrow> same_document e a c"
  by (simp add: same_document_def)

lemma same_document_put_step:
  assumes "schema_ok db" "new_version db r r'" "e \<noteq> st_document_id r'"
  shows "same_document e db (put_step r' db)"
proof -
  have r: "r \<in> set (pipeline_steps db)" "st_id r' = st_id r" "st_document_id r' = st_document_id r"
    using assms(2) by (simp_all add: new_version_def step_key_def)
  have "filter (\<lambda>q. st_document_id q = e) (update_where (\<lambda>q. st_id q = st_id r') (\<lambda>_. r') rows) =
      filter (\<lambda>q. st_document_id q = e) rows" if "set rows \<subseteq> set (pipeline_steps db)" for rows
    using that
  proof (induction rows)
    case (Cons q rows)
    then have "st_id q = st_id r' \<longrightarrow> q = r"
      using distinct_key_eq [OF schema_okD(2) [OF assms(1)], of q r] r by auto
    with Cons assms(3) r show ?case by (auto simp: update_where_def)
  qed (simp add: update_where_def)
  then show ?thesis
    by (simp add: same_document_def steps_of_def find_document_def put_step_def)
qed

lemma same_document_put_doc_status: "e \<noteq> d \<Longrightarrow> same_document e db (put_doc_status d st now db)"
  using find_documentD [of e db]
  by (cases "find_document e db") (auto simp: same_document_def find_document_put_doc_status)

lemma same_document_webhook [simp]: "same_document e db (db\<lparr>webhook_events := es\<rparr>)"
  by (simp add: same_document_def)

lemma same_document_add_document:
  "doc_id q = d \<Longrightarrow> e \<noteq> d \<Longrightarrow> same_document e db (add_document q (new_steps ids d now) db)"
  by (simp add: same_document_def find_document_def steps_of_def add_document_def new_steps_def
      new_step_def filter_empty_conv find_append split: option.split)

text \<open>
  The operation took the world \<open>w\<close> to \<open>w'\<close> by transactions of the contract, and touched no
  other document than those of \<open>D\<close>.
\<close>

definition refines :: "settings \<Rightarrow> uuid set \<Rightarrow> world \<Rightarrow> world \<Rightarrow> bool" where
  "refines cfg D w w' \<longleftrightarrow> clean w' \<and> clock w' = clock w \<and>
     (\<exists>es. (\<forall>e db'. e \<notin> D \<longrightarrow> db' \<in> set (committed_of es) \<longrightarrow> same_document e (committed w) db') \<and> trace w' = trace w @ es \<and> effect_path cfg (committed w) es \<and> final_db (committed w) es = committed w')"

lemma refines_refl: "clean w \<Longrightarrow> refines cfg D w w"
  by (simp add: refines_def)

lemma final_db_cases: "final_db db es = db \<or> final_db db es \<in> set (committed_of es)"
  by (induction db es rule: final_db.induct) auto

lemma refinesE:
  assumes "refines cfg D w w'"
  obtains es where "trace w' = trace w @ es" "effect_path cfg (committed w) es" "final_db (committed w) es = committed w'"
    and "\<And>e db'. e \<notin> D \<Longrightarrow> db' \<in> set (committed_of es) \<Longrightarrow> same_document e (committed w) db'"
  using assms by (auto simp: refines_def)

lemma refines_same:
  assumes "refines cfg D w w'" "e \<notin> D"
  shows "same_document e (committed w) (committed w')"
proof -
  obtain es where "final_db (committed w) es = committed w'"
    and "\<And>db'. db' \<in> set (committed_of es) \<Longrightarrow> same_document e (committed w) db'"
    using refinesE [OF assms(1)] assms(2) by metis
  with final_db_cases [of "committed w" es] show ?thesis by auto
qed

lemma refines_trans:
  assumes "refines cfg D w w'" "refines cfg D w' w''"
  shows "refines cfg D w w''"
proof -
  obtain es where es: "trace w' = trace w @ es" "effect_path cfg (committed w) es" "final_db (committed w) es = committed w'"
    "\<And>e db'. e \<notin> D \<Longrightarrow> db' \<in> set (committed_of es) \<Longrightarrow> same_document e (committed w) db'"
    using refinesE [OF assms(1)] by metis
  obtain fs where fs: "trace w'' = trace w' @ fs" "effect_path cfg (committed w') fs" "final_db (committed w') fs = committed w''"
    "\<And>e db'. e \<notin> D \<Longrightarrow> db' \<in> set (committed_of fs) \<Longrightarrow> same_document e (committed w') db'"
    using refinesE [OF assms(2)] by metis
  have "same_document e (committed w) db'" if "e \<notin> D" "db' \<in> set (committed_of (es @ fs))" for e db'
    using that es(4) same_document_trans [OF refines_same [OF assms(1) that(1)] fs(4) [OF that(1)]] by auto
  with es fs assms show ?thesis
    unfolding refines_def by (intro conjI exI [of _ "es @ fs"]) auto
qed

lemma refines_weaken: "refines cfg D w w' \<Longrightarrow> D \<subseteq> E \<Longrightarrow> refines cfg E w w'"
  by (auto simp: refines_def)

lemma refines_clean: "refines cfg D w w' \<Longrightarrow> clean w'"
  by (simp add: refines_def)

lemma refines_ok:
  assumes "refines cfg D w w'" "pipeline_ok cfg (committed w)" "1 \<le> step_max_attempts cfg"
  shows "pipeline_ok cfg (committed w')"
proof -
  from assms(1) obtain es where "effect_path cfg (committed w) es" "final_db (committed w) es = committed w'"
    by (auto simp: refines_def)
  with effect_path_ok [OF this(1) assms(2,3)] show ?thesis by simp
qed

lemma refines_commit:
  assumes "trace v = trace w" "clock v = clock w" "tx_step cfg (committed w) (working v) (pending v)"
    and "\<And>e. e \<notin> D \<Longrightarrow> same_document e (committed w) (working v)"
  shows "refines cfg D w (commit v)"
  using assms by (simp add: refines_def clean_def)

lemma refines_publish:
  assumes "clean w" "deliverable \<lparr>payload_document_id = d, payload_step = s\<rparr> (committed w)"
  shows "refines cfg D w (snd (publish_step d s w))"
  using assms publish_step_trace [of d s w]
  by (auto simp: refines_def clean_def split: sum.splits)

text \<open>The UPDATE of a loaded row, when the stored row is the loaded one up to its time stamp.\<close>

definition loaded_from :: "pipeline_step \<Rightarrow> pipeline_step \<Rightarrow> bool" where
  "loaded_from r old \<longleftrightarrow> old\<lparr>st_updated_at := st_updated_at r\<rparr> = r"

lemma flush_step_put_step:
  assumes ok: "schema_ok (working w)" and r: "r \<in> set (pipeline_steps (working w))" "loaded_from r old"
    and new: "st_id new = st_id old" "step_key new = step_key old"
  shows "working (flush_step old new w) =
    put_step (new\<lparr>st_updated_at := (if new = old then st_updated_at r else clock w)\<rparr>) (working w)"
proof -
  let ?r' = "new\<lparr>st_updated_at := (if new = old then st_updated_at r else clock w)\<rparr>"
  have id: "st_id old = st_id r" using r(2) unfolding loaded_from_def by (metis pipeline_step.select_convs(1) pipeline_step.surjective pipeline_step.update_convs(11))
  have merged: "merge_step (clock w) old new r = ?r'"
    using r(2) new by (cases r; cases old; cases new) (auto simp: merge_step_def loaded_from_def step_key_def)
  have eq: "q = r" if "q \<in> set (pipeline_steps (working w))" "st_id q = st_id r" for q
    using distinct_key_eq [OF schema_okD(2) [OF ok] that(1) r(1) that(2)] .
  have "update_where (\<lambda>q. st_id q = st_id old) (merge_step (clock w) old new) (pipeline_steps (working w)) =
      update_where (\<lambda>q. st_id q = st_id ?r') (\<lambda>_. ?r') (pipeline_steps (working w))"
    unfolding update_where_def
  proof (intro map_cong refl)
    fix q assume "q \<in> set (pipeline_steps (working w))"
    then show "(if st_id q = st_id old then merge_step (clock w) old new q else q) =
        (if st_id q = st_id ?r' then ?r' else q)"
      using eq [of q] id merged new(1) by (cases "st_id q = st_id r") simp_all
  qed
  then show ?thesis by (simp add: flush_step_def put_step_def)
qed

lemma loaded_fromD:
  assumes "loaded_from r old"
  shows "old\<lparr>st_updated_at := st_updated_at r\<rparr> = r" and "step_key old = step_key r" and "st_id old = st_id r"
    and "st_status old = st_status r" "st_name old = st_name r" "st_document_id old = st_document_id r"
    and "st_attempts old = st_attempts r" "st_started_at old = st_started_at r"
proof -
  show r: "old\<lparr>st_updated_at := st_updated_at r\<rparr> = r" using assms by (simp add: loaded_from_def)
  show "step_key old = step_key r" by (subst r [symmetric]) (simp add: step_key_def)
  show "st_id old = st_id r" by (subst r [symmetric]) simp
  show "st_status old = st_status r" by (subst r [symmetric]) simp
  show "st_name old = st_name r" by (subst r [symmetric]) simp
  show "st_document_id old = st_document_id r" by (subst r [symmetric]) simp
  show "st_attempts old = st_attempts r" by (subst r [symmetric]) simp
  show "st_started_at old = st_started_at r" by (subst r [symmetric]) simp
qed

lemma loaded_from_self [simp]: "loaded_from r r"
  by (simp add: loaded_from_def)

lemma mem_put_step:
  assumes "schema_ok db" "new_version db r r'"
  shows "r' \<in> set (pipeline_steps (put_step r' db))"
  by (simp add: set_put_step [OF assms])

text \<open>
  The transaction of an operation that changes one loaded row and commits: the stored row is
  the one in memory up to its time stamp, before and after.
\<close>

lemma flush_row:
  assumes clean: "clean w" and ok: "pipeline_ok cfg (committed w)"
    and r: "r \<in> set (pipeline_steps (committed w))" "loaded_from r old"
    and new: "st_id new = st_id old" "step_key new = step_key old"
    and move: "\<And>t. step_move cfg (committed w) r (new\<lparr>st_updated_at := t\<rparr>) evs"
    and v: "working v = working (flush_step old new w)" "pending v = map (Pair (st_document_id r)) evs"
      "trace v = trace w" "clock v = clock w"
  shows "\<exists>r'. step_move cfg (committed w) r r' evs \<and> loaded_from r' new \<and> new_version (committed w) r r' \<and>
    working v = put_step r' (committed w) \<and> refines cfg {st_document_id r} w (commit v)"
proof -
  define t where "t = (if new = old then st_updated_at r else clock w)"
  have eq: "working v = put_step (new\<lparr>st_updated_at := t\<rparr>) (committed w)"
    using flush_step_put_step [of w r old new] clean pipeline_okD(1) [OF ok] r new v
    by (simp add: clean_def t_def)
  have "refines cfg {st_document_id r} w (commit v)"
  proof (rule refines_commit [OF v(3,4)])
    show "tx_step cfg (committed w) (working v) (pending v)"
      unfolding eq v(2) by (rule tx_step.move [OF r(1) move])
    show "same_document e (committed w) (working v)" if "e \<notin> {st_document_id r}" for e
      unfolding eq using that step_move_key [OF move, of t]
      by (intro same_document_put_step [OF pipeline_okD(1) [OF ok] pipeline_ok_step(2) [OF ok r(1) move]]) auto
  qed
  with move eq pipeline_ok_step(2) [OF ok r(1) move] show ?thesis
    by (intro exI [of _ "new\<lparr>st_updated_at := t\<rparr>"]) (simp add: loaded_from_def)
qed

subsubsection \<open>What a refinement keeps\<close>

lemma refines_final_row:
  assumes "refines cfg D w w'" "pipeline_ok cfg (committed w)" "1 \<le> step_max_attempts cfg"
    and "find_step d s (committed w) = Some r" "st_status r \<in> {DONE, ERROR}"
  shows "find_step d s (committed w') = Some r"
proof -
  from assms(1) obtain es where "effect_path cfg (committed w) es" "final_db (committed w) es = committed w'"
    by (auto simp: refines_def)
  with effect_path_final_row [OF this(1) assms(2-5)] show ?thesis by simp
qed

lemma refines_left_pending:
  assumes "refines cfg D w w'" "pipeline_ok cfg (committed w)" "1 \<le> step_max_attempts cfg"
    and "status_of d s (committed w) = Some st" "st \<noteq> PENDING"
  shows "\<exists>st'. status_of d s (committed w') = Some st' \<and> st' \<noteq> PENDING"
proof -
  from assms(1) obtain es where "effect_path cfg (committed w) es" "final_db (committed w) es = committed w'"
    by (auto simp: refines_def)
  with effect_path_left_pending [OF this(1) assms(2-5)] show ?thesis by simp
qed

lemma refines_parents_done:
  assumes "refines cfg D w w'" "pipeline_ok cfg (committed w)" "1 \<le> step_max_attempts cfg"
    and "\<forall>p \<in> parents PIPELINE s. status_of d p (committed w) = Some DONE"
  shows "\<forall>p \<in> parents PIPELINE s. status_of d p (committed w') = Some DONE"
proof
  fix p assume "p \<in> parents PIPELINE s"
  with assms(4) obtain r where "find_step d p (committed w) = Some r" "st_status r = DONE"
    by (auto simp: status_of_def)
  with refines_final_row [OF assms(1-3) this(1)] show "status_of d p (committed w') = Some DONE"
    by (simp add: status_of_def)
qed

lemma tx_step_find_step:
  assumes "tx_step cfg db db' ns" "pipeline_ok cfg db" "find_step d s db \<noteq> None"
  shows "find_step d s db' \<noteq> None"
  using assms
proof (induction rule: tx_step.induct)
  case (move q q' evs)
  then show ?case
    by (simp add: find_step_put_step [OF pipeline_okD(1) [OF move.prems(1)] pipeline_ok_step(2) [OF move.prems(1) move.hyps]])
next
  case (upload user e ids filename now uri)
  then show ?case by (simp add: find_step_add_document [OF pipeline_okD(1) [OF upload.prems(1)] upload.hyps(2)])
qed simp_all

lemma effect_path_find_step:
  assumes "effect_path cfg db es" "pipeline_ok cfg db" "1 \<le> step_max_attempts cfg" "find_step d s db \<noteq> None"
  shows "find_step d s (final_db db es) \<noteq> None"
  using assms
proof (induction cfg db es rule: effect_path.induct)
  case (3 cfg db db' ns es)
  from 3(2) have tx: "tx_step cfg db db' ns" and path: "effect_path cfg db' es" by simp_all
  from 3(1) [OF path pipeline_ok_tx [OF tx 3(3,4)] 3(4) tx_step_find_step [OF tx 3(3,5)]] show ?case by simp
qed auto

lemma refines_find_step:
  assumes "refines cfg D w w'" "pipeline_ok cfg (committed w)" "1 \<le> step_max_attempts cfg"
    and "find_step d s (committed w) \<noteq> None"
  shows "find_step d s (committed w') \<noteq> None"
proof -
  from assms(1) obtain es where "effect_path cfg (committed w) es" "final_db (committed w) es = committed w'"
    by (auto simp: refines_def)
  with effect_path_find_step [OF this(1) assms(2-4)] show ?thesis by simp
qed

text \<open>
  The contract itself: an operation on a clean world, with a guard on its arguments, whose
  effects are transactions of the abstract specification.
\<close>

locale pipeline_operation =
  fixes cfg :: settings and guard :: "world \<Rightarrow> bool" and docs :: "world \<Rightarrow> uuid set" and run :: "world \<Rightarrow> world"
  assumes attempts: "guard w \<Longrightarrow> 1 \<le> step_max_attempts cfg"
    and refines: "clean w \<Longrightarrow> pipeline_ok cfg (committed w) \<Longrightarrow> guard w \<Longrightarrow> refines cfg (docs w) w (run w)"
begin

lemma keeps_ok:
  "clean w \<Longrightarrow> pipeline_ok cfg (committed w) \<Longrightarrow> guard w \<Longrightarrow> pipeline_ok cfg (committed (run w))"
  by (rule refines_ok [OF refines _ attempts])

text \<open>Every state that a crash during the operation can leave behind is consistent.\<close>

lemma crash_ok:
  assumes "clean w" "pipeline_ok cfg (committed w)" "guard w"
    and "trace (run w) = trace w @ es" "db \<in> set (committed_of es)"
  shows "pipeline_ok cfg db"
  using refines [OF assms(1-3)] effect_path_ok [OF _ assms(2) attempts [OF assms(3)]] assms(4,5)
  by (auto simp: refines_def)

text \<open>A finished step never changes again.\<close>

lemma final_row:
  assumes "clean w" "pipeline_ok cfg (committed w)" "guard w"
    and "find_step d s (committed w) = Some r" "st_status r \<in> {DONE, ERROR}"
  shows "find_step d s (committed (run w)) = Some r"
proof -
  from refines [OF assms(1-3)] obtain es
    where "effect_path cfg (committed w) es" "final_db (committed w) es = committed (run w)"
    by (auto simp: refines_def)
  with effect_path_final_row [OF this(1) assms(2) attempts [OF assms(3)] assms(4,5)] show ?thesis by simp
qed

text \<open>Other documents are left alone, at the end and in every state on the way.\<close>

lemma frame_throughout:
  assumes "clean w" "pipeline_ok cfg (committed w)" "guard w" "e \<notin> docs w"
    and "trace (run w) = trace w @ es" "db \<in> set (committed_of es)"
  shows "same_document e (committed w) db"
proof -
  from refines [OF assms(1-3)] obtain fs where "trace (run w) = trace w @ fs"
    "\<And>db'. db' \<in> set (committed_of fs) \<Longrightarrow> same_document e (committed w) db'"
    by (elim refinesE) (use assms(4) in auto)
  with assms(5,6) show ?thesis by simp
qed

lemma frame:
  "clean w \<Longrightarrow> pipeline_ok cfg (committed w) \<Longrightarrow> guard w \<Longrightarrow> e \<notin> docs w \<Longrightarrow>
    same_document e (committed w) (committed (run w))"
  by (rule refines_same [OF refines])

text \<open>The operation leaves nothing uncommitted.\<close>

lemma leaves_clean: "clean w \<Longrightarrow> pipeline_ok cfg (committed w) \<Longrightarrow> guard w \<Longrightarrow> clean (run w)"
  by (rule refines_clean [OF refines])

lemma claims_once:
  assumes "clean w" "pipeline_ok cfg (committed w)" "guard w" "trace (run w) = trace w @ es"
  shows "claims d s (notified_of es) \<le> 1"
  using refines [OF assms(1-3)] effect_path_claims [OF _ assms(2) attempts [OF assms(3)], of es d s] assms(4)
  by (auto simp: refines_def split: option.splits if_splits)

end

end
