(* ===== verification/RefineWorker.thy ===== *)
theory RefineWorker
  imports Lifecycle Worker
begin

section \<open>The worker implements the contract\<close>

text \<open>
  The transitioner's operations, each phase of the handler's template method, and the consumer
  callback of the worker are refinements of the transactions of \<open>Lifecycle\<close>: each commit is
  one \<open>tx_step\<close>, and each message is for a step that has left PENDING.
\<close>

subsection \<open>The transitioner\<close>

lemma claim_pending_step_db:
  assumes ok: "schema_ok (working w)" and r: "find_step d s (working w) = Some r"
  shows "fst (claim_pending_step d s w) \<longleftrightarrow> st_status r = PENDING"
    and "working (snd (claim_pending_step d s w)) =
      (if st_status r = PENDING then put_step (r\<lparr>st_status := QUEUED, st_updated_at := clock w\<rparr>) (working w)
       else working w)"
proof -
  from r find_step_iff [OF ok] have mem: "r \<in> set (pipeline_steps (working w))"
    and key: "st_document_id r = d" "st_name r = s" by auto
  have eq: "q = r" if "q \<in> set (pipeline_steps (working w))" "claimable d s q" for q
    using distinct_key_eq [OF schema_okD(3) [OF ok] that(1) mem] that(2) key
    by (simp add: claimable_def step_key_def)
  have iff: "claimable d s r \<longleftrightarrow> st_status r = PENDING" using key by (simp add: claimable_def)
  show "fst (claim_pending_step d s w) \<longleftrightarrow> st_status r = PENDING"
  proof -
    have "filter (claimable d s) (pipeline_steps (working w)) \<noteq> [] \<longleftrightarrow>
        (\<exists>q \<in> set (pipeline_steps (working w)). claimable d s q)"
      by (simp add: filter_empty_conv)
    also have "\<dots> \<longleftrightarrow> st_status r = PENDING" using eq iff mem by blast
    finally show ?thesis by (simp add: claim_pending_step_def)
  qed
  have id: "q = r" if "q \<in> set (pipeline_steps (working w))" "st_id q = st_id r" for q
    using distinct_key_eq [OF schema_okD(2) [OF ok] that(1) mem that(2)] .
  show "working (snd (claim_pending_step d s w)) =
      (if st_status r = PENDING then put_step (r\<lparr>st_status := QUEUED, st_updated_at := clock w\<rparr>) (working w)
       else working w)"
  proof (cases "st_status r = PENDING")
    case True
    have "update_where (claimable d s) (\<lambda>r. r\<lparr>st_status := QUEUED, st_updated_at := clock w\<rparr>)
        (pipeline_steps (working w)) =
      update_where (\<lambda>q. st_id q = st_id r) (\<lambda>_. r\<lparr>st_status := QUEUED, st_updated_at := clock w\<rparr>)
        (pipeline_steps (working w))"
      unfolding update_where_def
    proof (intro map_cong refl)
      fix q assume "q \<in> set (pipeline_steps (working w))"
      then have "claimable d s q \<longleftrightarrow> q = r" "st_id q = st_id r \<longleftrightarrow> q = r"
        using eq [of q] id [of q] iff True by blast+
      then show "(if claimable d s q then q\<lparr>st_status := QUEUED, st_updated_at := clock w\<rparr> else q) =
          (if st_id q = st_id r then r\<lparr>st_status := QUEUED, st_updated_at := clock w\<rparr> else q)"
        by simp
    qed
    with True show ?thesis by (simp add: claim_pending_step_def put_step_def)
  next
    case False
    with eq iff have "\<not> claimable d s q" if "q \<in> set (pipeline_steps (working w))" for q using that by blast
    with False show ?thesis by (simp add: claim_pending_step_def update_where_no_match)
  qed
qed

lemma claim_pending_step_frame [simp]:
  "committed (snd (claim_pending_step d s w)) = committed w"
  "pending (snd (claim_pending_step d s w)) = pending w"
  "trace (snd (claim_pending_step d s w)) = trace w"
  "faults (snd (claim_pending_step d s w)) = faults w"
  "clock (snd (claim_pending_step d s w)) = clock w"
  by (simp_all add: claim_pending_step_def)

lemma claim_step_db:
  assumes clean: "clean w" and ok: "pipeline_ok cfg (committed w)"
    and r: "find_step d s (committed w) = Some r"
  shows "fst (claim_step d s w) \<longleftrightarrow> st_status r = PENDING"
    and "committed (snd (claim_step d s w)) =
      (if st_status r = PENDING then put_step (r\<lparr>st_status := QUEUED, st_updated_at := clock w\<rparr>) (committed w)
       else committed w)"
    and "parents_done (committed w) r \<Longrightarrow> refines cfg {d} w (snd (claim_step d s w))"
proof -
  note work = clean [unfolded clean_def]
  note sch = pipeline_okD(1) [OF ok]
  have db: "fst (claim_pending_step d s w) \<longleftrightarrow> st_status r = PENDING"
    "working (snd (claim_pending_step d s w)) =
      (if st_status r = PENDING then put_step (r\<lparr>st_status := QUEUED, st_updated_at := clock w\<rparr>) (committed w)
       else committed w)"
    using claim_pending_step_db [of w d s r] sch r work by simp_all
  show "fst (claim_step d s w) \<longleftrightarrow> st_status r = PENDING"
    and "committed (snd (claim_step d s w)) =
      (if st_status r = PENDING then put_step (r\<lparr>st_status := QUEUED, st_updated_at := clock w\<rparr>) (committed w)
       else committed w)"
    using db by (simp_all add: claim_step_def case_prod_beta)
  assume par: "parents_done (committed w) r"
  have key: "r \<in> set (pipeline_steps (committed w))" "st_document_id r = d" "st_name r = s"
    using r find_step_iff [OF sch] by auto
  show "refines cfg {d} w (snd (claim_step d s w))"
  proof (cases "st_status r = PENDING")
    case True
    let ?r' = "r\<lparr>st_status := QUEUED, st_updated_at := clock w\<rparr>"
    have "new_version (committed w) r ?r'" using key by (simp add: new_version_def step_key_def)
    from same_document_put_step [OF sch this] tx_step.move [OF key(1) step_move.claim [OF True par]] key True db work
    show ?thesis
      unfolding claim_step_def by (simp add: case_prod_beta) (intro refines_commit; simp)
  next
    case False
    with db work show ?thesis
      unfolding claim_step_def
      by (simp add: case_prod_beta) (intro refines_commit; simp add: tx_step.idle)
  qed
qed

lemma clean_find_step: "clean w \<Longrightarrow> find_step d s (working w) = find_step d s (committed w)"
  by (simp add: clean_def)

lemma refines_claim_publish:
  assumes clean: "clean w" and ok: "pipeline_ok cfg (committed w)" and att: "1 \<le> step_max_attempts cfg"
    and r: "find_step d s (committed w) = Some r" and par: "parents_done (committed w) r"
    and claimed: "fst (claim_step d s w)"
  shows "refines cfg {d} w (snd (publish_step d s (snd (claim_step d s w))))"
proof -
  note ref = claim_step_db(3) [OF clean ok r par]
  note sch = pipeline_okD(1) [OF ok]
  have pend: "st_status r = PENDING" using claim_step_db(1) [OF clean ok r] claimed by simp
  have key: "r \<in> set (pipeline_steps (committed w))" "st_document_id r = d" "st_name r = s"
    using r find_step_iff [OF sch] by auto
  let ?r' = "r\<lparr>st_status := QUEUED, st_updated_at := clock w\<rparr>"
  have nv: "new_version (committed w) r ?r'" using key by (simp add: new_version_def step_key_def)
  have "find_step d s (committed (snd (claim_step d s w))) = Some ?r'"
    using claim_step_db(2) [OF clean ok r] pend find_step_put_step [OF sch nv] key
    by (simp add: step_key_def)
  then have "deliverable \<lparr>payload_document_id = d, payload_step = s\<rparr> (committed (snd (claim_step d s w)))"
    by (simp add: deliverable_def)
  from refines_trans [OF ref refines_publish [OF refines_clean [OF ref] this]] show ?thesis .
qed

lemma refines_trigger_ready:
  assumes "clean w" "pipeline_ok cfg (committed w)" and att: "1 \<le> step_max_attempts cfg"
    and "\<forall>s \<in> set ss. \<forall>p \<in> parents PIPELINE s. status_of d p (committed w) = Some DONE"
    and "\<forall>s \<in> set ss. find_step d s (committed w) \<noteq> None"
  shows "refines cfg {d} w (snd (trigger_ready d ss w))"
  using assms
proof (induction ss arbitrary: w)
  case Nil
  then show ?case by (simp add: refines_refl)
next
  case (Cons s ss)
  from Cons.prems(5) obtain r where r: "find_step d s (committed w) = Some r" by auto
  have key: "st_document_id r = d" "st_name r = s"
    using r find_step_iff [OF pipeline_okD(1) [OF Cons.prems(2)]] by auto
  with Cons.prems(4) have par: "parents_done (committed w) r" by (simp add: parents_done_def)
  have rest: "refines cfg {d} w (snd (trigger_ready d ss w'))" if ref: "refines cfg {d} w w'" for w'
  proof -
    have "refines cfg {d} w' (snd (trigger_ready d ss w'))"
    proof (rule Cons.IH [OF refines_clean [OF ref] refines_ok [OF ref Cons.prems(2,3)] att])
      show "\<forall>s \<in> set ss. \<forall>p \<in> parents PIPELINE s. status_of d p (committed w') = Some DONE"
        using refines_parents_done [OF ref Cons.prems(2,3)] Cons.prems(4) by (meson list.set_intros(2))
      show "\<forall>s \<in> set ss. find_step d s (committed w') \<noteq> None"
        using refines_find_step [OF ref Cons.prems(2,3)] Cons.prems(5) by simp
    qed
    with ref show ?thesis by (rule refines_trans)
  qed
  show ?case
  proof (cases "fst (claim_step d s w)")
    case True
    note ref = refines_claim_publish [OF Cons.prems(1,2,3) r par True]
    from True ref rest [OF ref] show ?thesis
      by (simp add: case_prod_beta split: sum.split)
  next
    case False
    from False rest [OF claim_step_db(3) [OF Cons.prems(1,2) r par]] show ?thesis
      by (simp add: case_prod_beta)
  qed
qed


text \<open>In a pipeline state every step of a document with one step row has its row.\<close>

lemma row_of_document:
  assumes ok: "pipeline_ok cfg db" and r: "r \<in> set (pipeline_steps db)"
  shows "find_step (st_document_id r) s db \<noteq> None"
proof -
  from schema_okD(6) [OF pipeline_okD(1) [OF ok] r] obtain q
    where q: "st_document_id r = doc_id q" "q \<in> set (documents db)" by (rule imageE)
  from pipeline_okD(3) [OF ok] q(2) have "find_step (doc_id q) s db \<noteq> None" unfolding four_steps_def by blast
  with q(1) show ?thesis by simp
qed

lemma done_steps_iff:
  assumes "schema_ok (working w)"
  shows "s \<in> done_steps (step_status_map d w) \<longleftrightarrow> status_of d s (working w) = Some DONE"
proof -
  have dist: "distinct (map fst (step_status_map d w))"
    using distinct_steps_of [OF assms] by (simp add: step_status_map_eq [OF assms] comp_def)
  have "s \<in> done_steps (step_status_map d w) \<longleftrightarrow> (s, DONE) \<in> set (step_status_map d w)"
    by (force simp: done_steps_def)
  also have "\<dots> \<longleftrightarrow> map_of (step_status_map d w) s = Some DONE"
    using map_of_eq_Some_iff [OF dist] by simp
  finally show ?thesis by (simp add: map_of_step_status_map [OF assms])
qed

lemma refines_trigger_successors:
  assumes clean: "clean w" and ok: "pipeline_ok cfg (committed w)" and att: "1 \<le> step_max_attempts cfg"
    and r: "r \<in> set (pipeline_steps (committed w))" "st_document_id r = d"
  shows "refines cfg {d} w (snd (trigger_successors PIPELINE d w))"
proof -
  have work: "working w = committed w" using clean by (simp add: clean_def)
  note sch = pipeline_okD(1) [OF ok, folded work]
  show ?thesis
    unfolding trigger_successors_def
  proof (rule refines_trigger_ready [OF clean ok att])
    show "\<forall>s \<in> set (ready_successors PIPELINE (done_steps (step_status_map d w))).
        \<forall>p \<in> parents PIPELINE s. status_of d p (committed w) = Some DONE"
      using done_steps_iff [OF sch] work by (metis pipeline.ready_iff subsetD)
    show "\<forall>s \<in> set (ready_successors PIPELINE (done_steps (step_status_map d w))). find_step d s (committed w) \<noteq> None"
      using row_of_document [OF ok r(1)] r(2) by simp
  qed
qed

lemma step_status_map_clean:
  assumes "clean w" "pipeline_ok cfg (committed w)"
  shows "step_status_map d w = document_statuses d (committed w)"
  using assms step_status_map_eq [of w d] pipeline_okD(1) [OF assms(2)]
  by (simp add: clean_def document_statuses_def)

text \<open>The document's status follows from its steps.\<close>

definition in_sync :: "uuid \<Rightarrow> database \<Rightarrow> bool" where
  "in_sync d db \<longleftrightarrow> (case find_document d db of None \<Rightarrow> True
     | Some q \<Rightarrow> doc_status q = derive_document_status (document_statuses d db))"

lemma recompute_document_status_cases:
  fixes d :: uuid
  assumes clean: "clean w" and ok: "pipeline_ok cfg (committed w)"
  defines "new \<equiv> derive_document_status (document_statuses d (committed w))"
  shows "recompute_document_status d w = (new, if in_sync d (committed w) then w
    else commit (emit_event d (doc_status_event new) (flush_document_status d new w)))"
  using step_status_map_clean [OF assms(1,2), of d] clean
  by (auto simp: recompute_document_status_def get_document_def clean_def in_sync_def new_def Let_def split: option.split)

lemma recompute_document_status_db:
  fixes d :: uuid
  assumes clean: "clean w" and ok: "pipeline_ok cfg (committed w)"
  defines "new \<equiv> derive_document_status (document_statuses d (committed w))"
  shows "refines cfg {d} w (snd (recompute_document_status d w))"
    and "committed (snd (recompute_document_status d w)) =
      (if in_sync d (committed w) then committed w else put_doc_status d new (clock w) (committed w))"
    and "fst (recompute_document_status d w) = new"
proof -
  note eq = recompute_document_status_cases [OF assms(1,2), of d, folded new_def]
  have work: "working w = committed w" "pending w = []" using clean by (simp_all add: clean_def)
  have flush: "working (flush_document_status d new w) = put_doc_status d new (clock w) (committed w)"
    by (simp add: flush_document_status_def put_doc_status_def work)
  show "refines cfg {d} w (snd (recompute_document_status d w))"
  proof (cases "in_sync d (committed w)")
    case True
    with clean show ?thesis by (simp add: eq refines_refl)
  next
    case False
    then obtain q where q: "find_document d (committed w) = Some q" "doc_status q \<noteq> new"
      by (auto simp: in_sync_def new_def split: option.splits)
    from False show ?thesis
      unfolding eq using tx_step.derive [OF q(1) new_def [THEN meta_eq_to_obj_eq] q(2)]
      by (auto intro!: refines_commit same_document_put_doc_status simp: flush work)
  qed
  show "committed (snd (recompute_document_status d w)) =
      (if in_sync d (committed w) then committed w else put_doc_status d new (clock w) (committed w))"
    "fst (recompute_document_status d w) = new"
    by (simp_all add: eq flush)
qed

lemma document_statuses_put_doc_status [simp]:
  "document_statuses e (put_doc_status d st now db) = document_statuses e db"
  by (simp add: document_statuses_def)

text \<open>After it, the document is in sync, and no other document was touched.\<close>

lemma recompute_in_sync:
  assumes "clean w" "pipeline_ok cfg (committed w)"
  shows "in_sync e (committed (snd (recompute_document_status d w))) \<longleftrightarrow> e = d \<or> in_sync e (committed w)"
  using find_documentD [of e "committed w"]
  by (auto simp: recompute_document_status_db(2) [OF assms] in_sync_def find_document_put_doc_status
      split: option.splits)


subsection \<open>The worker\<close>

lemma load_steps_lookup:
  assumes "clean w" "schema_ok (committed w)"
  shows "map_of (load_steps d w) s = find_step d s (committed w)"
proof -
  have "load_steps d w = map (\<lambda>r. (st_name r, r)) (steps_of d (committed w))"
    using distinct_steps_of [OF assms(2)] assms(1) by (simp add: load_steps_def dict_of_distinct comp_def clean_def)
  then show ?thesis
    using map_of_map_key [OF distinct_steps_of [OF assms(2)], of "\<lambda>r. r" d s]
    by (simp add: find_steps_of option.map_ident)
qed

lemma map_of_load_steps:
  assumes "clean w" "pipeline_ok cfg (committed w)"
  shows "map_of (load_steps d w) s = find_step d s (committed w)"
  by (rule load_steps_lookup [OF assms(1) pipeline_okD(1) [OF assms(2)]])

lemma runnable_rowD:
  assumes "clean w" "pipeline_ok cfg (committed w)" "runnable_row s d w = Some r"
  shows "find_step d s (committed w) = Some r" and "st_status r \<in> {PENDING, QUEUED, RUNNING}"
    and "r \<in> set (pipeline_steps (committed w))" "st_document_id r = d" "st_name r = s"
    and "\<exists>q. find_document d (committed w) = Some q \<and> doc_status q \<noteq> FAILED"
proof -
  show found: "find_step d s (committed w) = Some r"
    using assms(3) map_of_load_steps [OF assms(1,2)]
    by (auto simp: runnable_row_def split: option.splits if_splits)
  then show "r \<in> set (pipeline_steps (committed w))" "st_document_id r = d" "st_name r = s"
    using find_step_iff [OF pipeline_okD(1) [OF assms(2)]] by auto
  have "st_status r \<notin> TERMINAL_FOR_RUN"
    using assms(3) by (auto simp: runnable_row_def split: option.splits if_splits)
  then show "st_status r \<in> {PENDING, QUEUED, RUNNING}"
    by (cases "st_status r") (simp_all add: TERMINAL_FOR_RUN_def)
  show "\<exists>q. find_document d (committed w) = Some q \<and> doc_status q \<noteq> FAILED"
    using assms(1,3) by (auto simp: runnable_row_def get_document_def clean_def split: option.splits if_splits)
qed

lemma mark_running_db:
  assumes clean: "clean w" and ok: "pipeline_ok cfg (committed w)"
    and r: "r \<in> set (pipeline_steps (committed w))" "st_document_id r = d" "st_name r = s"
    and st: "st_status r \<in> {QUEUED, RUNNING}"
  shows "\<exists>r'. step_move cfg (committed w) r r' [step_event s RUNNING] \<and>
    loaded_from r' (fst (mark_running s d r w)) \<and> new_version (committed w) r r' \<and>
    committed (snd (mark_running s d r w)) = put_step r' (committed w) \<and> refines cfg {d} w (snd (mark_running s d r w))"
proof -
  define begun where "begun = (case st_started_at r of None \<Rightarrow> Some (clock w) | Some t \<Rightarrow> Some t)"
  have "step_move cfg (committed w) r (r\<lparr>st_status := RUNNING, st_started_at := begun, st_updated_at := t\<rparr>)
      [step_event s RUNNING]" for t
    unfolding r(3) [symmetric] by (rule step_move.start [OF st]) (auto simp: begun_def split: option.split)
  with flush_row [OF clean ok r(1) loaded_from_self, of "r\<lparr>st_status := RUNNING, st_started_at := begun\<rparr>"
      "[step_event s RUNNING]" "emit_event d (step_event s RUNNING)
        (flush_step r (r\<lparr>st_status := RUNNING, st_started_at := begun\<rparr>) w)"]
  show ?thesis
    using clean r(2) by (simp add: mark_running_def begun_def step_key_def clean_def Let_def)
qed

lemma run_step_text:
  "run_step dr OCR loaded = Inr output \<Longrightarrow> \<exists>t. output = JObject [(''text'', JString t)]"
  by (auto simp: run_step_def bind_result_Inr_iff ocr_def split: if_splits)

lemma run_step_dict:
  "run_step dr METADATA loaded = Inr output \<Longrightarrow> \<exists>kvs. output = JObject kvs"
  by (auto simp: run_step_def bind_result_Inr_iff metadata_def split: if_splits)

lemma run_step_chunks:
  "run_step dr CHUNKING loaded = Inr output \<Longrightarrow> \<exists>cs. output = JObject [(''chunks'', JArray (map JString cs))]"
  by (auto simp: run_step_def bind_result_Inr_iff split: if_splits) (rule exI, rule refl)

lemma run_step_job:
  "run_step dr EXTERNAL_CALL loaded = Inr output \<Longrightarrow>
    output = JObject [(''external_job_id'', JString (''j_'' @ take 16 (uuid_hex (job_uuid dr))))]"
  by (auto simp: run_step_def bind_result_Inr_iff external_call_def split: if_splits)

lemma run_step_shape:
  assumes "run_step dr s loaded = Inr output"
  shows "s \<noteq> EXTERNAL_CALL \<Longrightarrow> result_shape s output"
    and "s = EXTERNAL_CALL \<Longrightarrow> output_job_id output = Some (''j_'' @ take 16 (uuid_hex (job_uuid dr)))"
  using assms run_step_text run_step_dict run_step_chunks run_step_job
  by (cases s; fastforce simp: output_job_id_def)+

text \<open>The job identifiers that the partner hands out are new.\<close>

definition fresh_job :: "draws \<Rightarrow> step_name \<Rightarrow> database \<Rightarrow> bool" where
  "fresh_job dr s db \<longleftrightarrow> (s = EXTERNAL_CALL \<longrightarrow> job_unused (''j_'' @ take 16 (uuid_hex (job_uuid dr))) db)"

lemma save_output_db:
  assumes clean: "clean w" and ok: "pipeline_ok cfg (committed w)"
    and r: "r \<in> set (pipeline_steps (committed w))" "loaded_from r row" "st_document_id r = d" "st_name r = s"
    and st: "st_status r = RUNNING"
    and out: "run_step dr s loaded = Inr output" "fresh_job dr s (committed w)"
  shows "\<exists>r' ev. step_move cfg (committed w) r r' [ev] \<and>
    loaded_from r' (fst (save_output s d row output w)) \<and> new_version (committed w) r r' \<and>
    committed (snd (save_output s d row output w)) = put_step r' (committed w) \<and>
    refines cfg {d} w (snd (save_output s d row output w))"
proof (cases "s = EXTERNAL_CALL")
  case True
  let ?j = "''j_'' @ take 16 (uuid_hex (job_uuid dr))"
  let ?new = "row\<lparr>st_external_job_id := Some ?j, st_status := AWAITING_CALLBACK\<rparr>"
  have "step_move cfg (committed w) r (r\<lparr>st_external_job_id := Some ?j, st_status := AWAITING_CALLBACK,
      st_updated_at := t\<rparr>) [step_event EXTERNAL_CALL AWAITING_CALLBACK]" for t
    using st r(4) True out(2) by (intro step_move.sent) (simp_all add: fresh_job_def)
  then have move: "step_move cfg (committed w) r (?new\<lparr>st_updated_at := t\<rparr>)
      [step_event s AWAITING_CALLBACK]" for t
    using loaded_fromD(1) [OF r(2)] True by (cases row; cases r) simp
  from flush_row [OF clean ok r(1,2) _ _ this,
      of "emit_event d (step_event s AWAITING_CALLBACK) (flush_step row ?new w)"]
  show ?thesis
    using clean r(3) True run_step_shape(2) [OF out(1)]
    by (auto simp: save_output_defs step_key_def clean_def Let_def)
next
  case False
  let ?new = "row\<lparr>st_result := Some output, st_status := DONE, st_finished_at := Some (clock w)\<rparr>"
  have "step_move cfg (committed w) r (r\<lparr>st_result := Some output, st_status := DONE,
      st_finished_at := Some (clock w), st_updated_at := t\<rparr>) [step_event (st_name r) DONE]" for t
    using st r(4) False run_step_shape(1) [OF out(1)] by (intro step_move.finish) simp_all
  then have move: "step_move cfg (committed w) r (?new\<lparr>st_updated_at := t\<rparr>) [step_event s DONE]" for t
    using loaded_fromD(1) [OF r(2)] r(4) by (cases row; cases r) simp
  from flush_row [OF clean ok r(1,2) _ _ this, of "emit_event d (step_event s DONE) (flush_step row ?new w)"]
  show ?thesis
    using clean r(3) False by (auto simp: save_output_defs step_key_def clean_def Let_def)
qed


text \<open>The two ends of a failed run: the last attempt fails the step, any other queues it again.\<close>

lemma on_failure_last:
  assumes clean: "clean w" and ok: "pipeline_ok cfg (committed w)"
    and r: "r \<in> set (pipeline_steps (committed w))" "loaded_from r row" "st_document_id r = d"
    and st: "st_status r = RUNNING" and last: "st_attempts r + 1 \<ge> step_max_attempts cfg"
  shows "\<exists>r' w1. step_move cfg (committed w) r r' [step_event (st_name r) ERROR] \<and>
    loaded_from r' (row\<lparr>st_attempts := st_attempts row + 1, st_status := ERROR,
      st_error_text := Some (exn_text e), st_finished_at := Some (clock w)\<rparr>) \<and>
    new_version (committed w) r r' \<and> committed w1 = put_step r' (committed w) \<and> refines cfg {d} w w1 \<and>
    on_failure cfg d row e w = (ACK, snd (recompute_document_status d w1)) \<and>
    w1 = commit (emit_event d (step_event (st_name row) ERROR) (flush_step row (row\<lparr>st_attempts := st_attempts row + 1,
      st_status := ERROR, st_error_text := Some (exn_text e), st_finished_at := Some (clock w)\<rparr>) w))"
proof -
  let ?new = "row\<lparr>st_attempts := st_attempts row + 1, st_status := ERROR,
      st_error_text := Some (exn_text e), st_finished_at := Some (clock w)\<rparr>"
  let ?v = "emit_event d (step_event (st_name row) ERROR) (flush_step row ?new w)"
  have "step_move cfg (committed w) r (r\<lparr>st_attempts := st_attempts r + 1, st_status := ERROR,
      st_error_text := Some (exn_text e), st_finished_at := Some (clock w), st_updated_at := t\<rparr>)
      [step_event (st_name r) ERROR]" for t
    by (intro step_move.exhaust st last)
  then have move: "step_move cfg (committed w) r (?new\<lparr>st_updated_at := t\<rparr>) [step_event (st_name r) ERROR]" for t
    using loaded_fromD(1) [OF r(2)] by (cases row; cases r) simp
  from flush_row [OF clean ok r(1,2) _ _ this, of ?v]
  have "\<exists>r'. step_move cfg (committed w) r r' [step_event (st_name r) ERROR] \<and> loaded_from r' ?new \<and>
      new_version (committed w) r r' \<and> working ?v = put_step r' (committed w) \<and> refines cfg {d} w (commit ?v)"
    using clean r(3) loaded_fromD(5) [OF r(2)] by (simp add: step_key_def clean_def)
  moreover have "on_failure cfg d row e w = (ACK, snd (recompute_document_status d (commit ?v)))"
    using last loaded_fromD(7) [OF r(2)] by (simp add: on_failure_def Let_def)
  ultimately show ?thesis by (metis commit_simps(1))
qed

lemma on_failure_exhausted:
  assumes "clean w" "pipeline_ok cfg (committed w)" "r \<in> set (pipeline_steps (committed w))" "loaded_from r row"
    and "st_document_id r = d" "st_status r = RUNNING" "st_attempts r + 1 \<ge> step_max_attempts cfg"
  shows "\<exists>r' w1. step_move cfg (committed w) r r' [step_event (st_name r) ERROR] \<and>
    loaded_from r' (row\<lparr>st_attempts := st_attempts row + 1, st_status := ERROR,
      st_error_text := Some (exn_text e), st_finished_at := Some (clock w)\<rparr>) \<and>
    new_version (committed w) r r' \<and> committed w1 = put_step r' (committed w) \<and> refines cfg {d} w w1 \<and>
    on_failure cfg d row e w = (ACK, snd (recompute_document_status d w1))"
  using on_failure_last [OF assms] by blast

lemma on_failure_retry:
  assumes clean: "clean w" and ok: "pipeline_ok cfg (committed w)"
    and r: "r \<in> set (pipeline_steps (committed w))" "loaded_from r row" "st_document_id r = d"
    and st: "st_status r = RUNNING" and more: "st_attempts r + 1 < step_max_attempts cfg"
  shows "\<exists>r' w1. step_move cfg (committed w) r r' [] \<and>
    loaded_from r' (row\<lparr>st_attempts := st_attempts row + 1, st_status := QUEUED\<rparr>) \<and>
    new_version (committed w) r r' \<and> committed w1 = put_step r' (committed w) \<and> refines cfg {d} w w1 \<and>
    on_failure cfg d row e w = (RETRY, w1)"
proof -
  let ?new = "row\<lparr>st_attempts := st_attempts row + 1, st_status := QUEUED\<rparr>"
  have "step_move cfg (committed w) r (r\<lparr>st_attempts := st_attempts r + 1, st_status := QUEUED,
      st_updated_at := t\<rparr>) []" for t
    by (intro step_move.retry st more)
  then have move: "step_move cfg (committed w) r (?new\<lparr>st_updated_at := t\<rparr>) []" for t
    using loaded_fromD(1) [OF r(2)] by (cases row; cases r) simp
  from flush_row [OF clean ok r(1,2) _ _ this, of "flush_step row ?new w"]
  have "\<exists>r'. step_move cfg (committed w) r r' [] \<and> loaded_from r' ?new \<and> new_version (committed w) r r' \<and>
      working (flush_step row ?new w) = put_step r' (committed w) \<and> refines cfg {d} w (commit (flush_step row ?new w))"
    using clean r(3) by (simp add: step_key_def clean_def)
  moreover have "on_failure cfg d row e w = (RETRY, commit (flush_step row ?new w))"
    using more loaded_fromD(7) [OF r(2)] by (simp add: on_failure_def Let_def)
  ultimately show ?thesis by (metis commit_simps(1))
qed

lemma on_failure_db:
  assumes "clean w" "pipeline_ok cfg (committed w)" and att: "1 \<le> step_max_attempts cfg"
    and "r \<in> set (pipeline_steps (committed w))" "loaded_from r row" "st_document_id r = d" "st_status r = RUNNING"
  shows "refines cfg {d} w (snd (on_failure cfg d row e w))"
proof (cases "st_attempts r + 1 \<ge> step_max_attempts cfg")
  case True
  from on_failure_exhausted [OF assms(1,2,4-7) True, of e] obtain w1
    where w1: "refines cfg {d} w w1" "on_failure cfg d row e w = (ACK, snd (recompute_document_status d w1))" by blast
  from refines_trans [OF w1(1) recompute_document_status_db(1) [OF refines_clean [OF w1(1)]
      refines_ok [OF w1(1) assms(2) att]]] w1(2) show ?thesis by simp
next
  case False
  then have "st_attempts r + 1 < step_max_attempts cfg" by simp
  from on_failure_retry [OF assms(1,2,4-7) this, of e] show ?thesis by auto
qed

text \<open>The message that is handled was sent for a step that had left PENDING.\<close>

lemma deliverableD:
  assumes "deliverable p db" "find_step (payload_document_id p) (payload_step p) db = Some r"
  shows "st_status r \<noteq> PENDING"
  using assms by (auto simp: deliverable_def)

lemma step_move_running:
  "step_move cfg db r r' ev \<Longrightarrow> st_status r' = RUNNING \<Longrightarrow> st_external_job_id r' = st_external_job_id r"
  by (cases rule: step_move.cases) auto

text \<open>The start of a run: the row is marked RUNNING.\<close>

lemma handle_started:
  assumes clean: "clean w" and ok: "pipeline_ok cfg (committed w)" and att: "1 \<le> step_max_attempts cfg"
    and msg: "deliverable p (committed w)" and fresh: "fresh_job dr (payload_step p) (committed w)"
    and run: "runnable_row (payload_step p) (payload_document_id p) w = Some r"
  obtains row1 w1 r1 where "mark_running (payload_step p) (payload_document_id p) r w = (row1, w1)"
    and "step_move cfg (committed w) r r1 [step_event (payload_step p) RUNNING]" "loaded_from r1 row1"
    and "new_version (committed w) r r1" "committed w1 = put_step r1 (committed w)"
    and "refines cfg {payload_document_id p} w w1" "clean w1" "pipeline_ok cfg (committed w1)"
    and "r1 \<in> set (pipeline_steps (committed w1))" "st_document_id r1 = payload_document_id p"
    and "st_name r1 = payload_step p" "st_status r1 = RUNNING" "fresh_job dr (payload_step p) (committed w1)"
proof -
  let ?d = "payload_document_id p" and ?s = "payload_step p"
  note row = runnable_rowD [OF clean ok run]
  from deliverableD [OF msg row(1)] row(2) have st: "st_status r \<in> {QUEUED, RUNNING}" by auto
  obtain row1 w1 where mr: "mark_running ?s ?d r w = (row1, w1)" by force
  from mark_running_db [OF clean ok row(3-5) st] mr obtain r1 where
    r1: "step_move cfg (committed w) r r1 [step_event ?s RUNNING]" "loaded_from r1 row1"
      "new_version (committed w) r r1" "committed w1 = put_step r1 (committed w)" "refines cfg {?d} w w1"
    by auto
  have "st_status row1 = RUNNING" using mr by (auto simp: mark_running_def Let_def)
  then have run1: "st_status r1 = RUNNING" using loaded_fromD(4) [OF r1(2)] by simp
  have "fresh_job dr (payload_step p) (committed w1)"
    using fresh step_move_running [OF r1(1) run1] row(3) r1(4) set_put_step [OF pipeline_okD(1) [OF ok] r1(3)]
    by (auto simp: fresh_job_def job_unused_def)
  moreover have "r1 \<in> set (pipeline_steps (committed w1))" "st_document_id r1 = ?d" "st_name r1 = ?s"
    using mem_put_step [OF pipeline_okD(1) [OF ok] r1(3)] r1(4) row(4,5) step_move_key [OF r1(1)] by simp_all
  ultimately show ?thesis
    using run1 by (intro that [OF mr r1 refines_clean [OF r1(5)] refines_ok [OF r1(5) ok att]])
qed

text \<open>The end of a run that raised nothing: the output is saved, and a finished step triggers its successors.\<close>

lemma handle_saved:
  assumes clean: "clean w" and ok: "pipeline_ok cfg (committed w)" and att: "1 \<le> step_max_attempts cfg"
    and r: "r \<in> set (pipeline_steps (committed w))" "loaded_from r row" "st_document_id r = d" "st_name r = s"
      "st_status r = RUNNING"
    and out: "run_step dr s loaded = Inr out" "fresh_job dr s (committed w)"
  obtains row2 r2 w2 ev where "save_output s d row out w = (row2, w2)"
    and "step_move cfg (committed w) r r2 [ev]" "loaded_from r2 row2" "new_version (committed w) r r2"
    and "committed w2 = put_step r2 (committed w)" "refines cfg {d} w w2" "clean w2" "pipeline_ok cfg (committed w2)"
    and "r2 \<in> set (pipeline_steps (committed w2))" "st_document_id r2 = d" "st_name r2 = s"
    and "st_status r2 = (if s = EXTERNAL_CALL then AWAITING_CALLBACK else DONE)"
proof -
  obtain row2 w2 where so: "save_output s d row out w = (row2, w2)" by force
  from save_output_db [OF clean ok r out] so obtain r2 ev where
    r2: "step_move cfg (committed w) r r2 [ev]" "loaded_from r2 row2" "new_version (committed w) r r2"
      "committed w2 = put_step r2 (committed w)" "refines cfg {d} w w2" by auto
  have "st_status row2 = (if s = EXTERNAL_CALL then AWAITING_CALLBACK else DONE)"
    using so by (auto simp: save_output_defs Let_def)
  then have "st_status r2 = (if s = EXTERNAL_CALL then AWAITING_CALLBACK else DONE)"
    unfolding loaded_fromD(4) [OF r2(2)] .
  moreover have "r2 \<in> set (pipeline_steps (committed w2))" "st_document_id r2 = d" "st_name r2 = s"
    using mem_put_step [OF pipeline_okD(1) [OF ok] r2(3)] r2(4) r(3,4) step_move_key [OF r2(1)] by simp_all
  ultimately show ?thesis
    by (intro that [OF so r2 refines_clean [OF r2(5)] refines_ok [OF r2(5) ok att]])
qed

lemma refines_handle:
  assumes clean: "clean w" and ok: "pipeline_ok cfg (committed w)" and att: "1 \<le> step_max_attempts cfg"
    and msg: "deliverable p (committed w)" and fresh: "fresh_job dr (payload_step p) (committed w)"
  shows "refines cfg {payload_document_id p} w (snd (handle cfg dr (payload_step p) p w))"
proof (cases "runnable_row (payload_step p) (payload_document_id p) w")
  case None
  with clean show ?thesis by (simp add: handle_def refines_refl)
next
  case (Some r)
  let ?d = "payload_document_id p" and ?s = "payload_step p"
  obtain row1 w1 r1 where mr: "mark_running ?s ?d r w = (row1, w1)" and r1: "refines cfg {?d} w w1" "clean w1"
    "pipeline_ok cfg (committed w1)" "r1 \<in> set (pipeline_steps (committed w1))" "loaded_from r1 row1"
    "st_document_id r1 = ?d" "st_name r1 = ?s" "st_status r1 = RUNNING" "fresh_job dr (payload_step p) (committed w1)"
    by (rule handle_started [OF assms Some])
  show ?thesis
  proof (cases "run_step dr ?s (AList.update ?s row1 (load_steps ?d w))")
    case (Inl e)
    with refines_trans [OF r1(1) on_failure_db [OF r1(2,3) att r1(4,5,6,8)]] Some mr
    show ?thesis by (simp add: handle_def Let_def case_prod_beta)
  next
    case (Inr out)
    obtain row2 r2 w2 where so: "save_output ?s ?d row1 out w1 = (row2, w2)" and r2: "refines cfg {?d} w1 w2" "clean w2"
      "pipeline_ok cfg (committed w2)" "r2 \<in> set (pipeline_steps (committed w2))" "st_document_id r2 = ?d"
      by (rule handle_saved [OF r1(2,3) att r1(4-8) Inr r1(9)])
    note ref2 = refines_trans [OF r1(1) r2(1)]
    note ref3 = refines_trans [OF ref2 refines_trigger_successors [OF r2(2,3) att r2(4,5)]]
    from refines_trans [OF ref3 recompute_document_status_db(1) [OF refines_clean [OF ref3] refines_ok [OF ref3 ok att]]]
      ref2 ref3 Some mr Inr so
    show ?thesis by (auto simp: handle_def Let_def case_prod_beta split: sum.split)
  qed
qed

text \<open>Outside an operation, opening and closing a session change nothing.\<close>

lemma open_session_clean [simp]: "clean w \<Longrightarrow> open_session w = w"
  by (simp add: open_session_def clean_def)

lemma rollback_clean [simp]: "clean w \<Longrightarrow> rollback w = w"
  by (simp add: rollback_def clean_def)

lemma session_scope_refines:
  assumes "clean w" "refines cfg D w (snd (body w))"
  shows "session_scope body w = body w"
  using assms refines_clean [OF assms(2)] by (simp add: session_scope_def case_prod_beta)

lemma handle_in_session_refines:
  assumes "clean w" "refines cfg {payload_document_id p} w (snd (handle cfg dr (payload_step p) p w))"
  shows "snd (handle_in_session cfg dr p w) = snd (handle cfg dr (payload_step p) p w)"
  using refines_clean [OF assms(2)]
  by (simp add: handle_in_session_def case_prod_beta split: sum.split)

text \<open>The guard of a delivery: what the broker delivers was published for a step that had left
  PENDING, and the partner's job identifiers do not repeat.\<close>

definition delivery_guard :: "(string \<Rightarrow> payload option) \<Rightarrow> draws \<Rightarrow> string \<Rightarrow> world \<Rightarrow> bool" where
  "delivery_guard parse_body dr body w \<longleftrightarrow>
     (case parse_body body of None \<Rightarrow> True
      | Some p \<Rightarrow> deliverable p (committed w) \<and> fresh_job dr (payload_step p) (committed w))"

definition delivery_documents :: "(string \<Rightarrow> payload option) \<Rightarrow> string \<Rightarrow> uuid set" where
  "delivery_documents parse_body body = (case parse_body body of None \<Rightarrow> {} | Some p \<Rightarrow> {payload_document_id p})"

lemma refines_callback:
  assumes "clean w" "pipeline_ok cfg (committed w)" "1 \<le> step_max_attempts cfg" "delivery_guard parse_body dr body w"
  shows "refines cfg (delivery_documents parse_body body) w (snd (callback cfg parse_body dr body w))"
proof (cases "parse_body body")
  case None
  with assms(1) show ?thesis by (simp add: callback_def refines_refl)
next
  case (Some p)
  with assms(4) have "deliverable p (committed w)" "fresh_job dr (payload_step p) (committed w)" by (simp_all add: delivery_guard_def)
  note ref = refines_handle [OF assms(1-3) this]
  have "refines cfg {payload_document_id p} w (snd (handle_in_session cfg dr p w))"
    using ref handle_in_session_refines [OF assms(1) ref] by simp
  with session_scope_refines [where body = "handle_in_session cfg dr p", OF assms(1) this] Some show ?thesis
    by (simp add: callback_def delivery_documents_def case_prod_beta)
qed

interpretation worker: pipeline_operation cfg
    "\<lambda>w. 1 \<le> step_max_attempts cfg \<and> delivery_guard parse_body dr body w"
    "\<lambda>w. delivery_documents parse_body body"
    "\<lambda>w. snd (callback cfg parse_body dr body w)"
  for cfg parse_body dr body
  by unfold_locales (auto intro: refines_callback)

end
