(* ===== verification/Reaper.thy ===== *)
theory Reaper
  imports Transition
begin

section \<open>The reaper (\<open>app/worker/reaper.py\<close>)\<close>

text \<open>
  \<open>run_once\<close> is one scan: the steps that have been in flight for too long, then the calls
  whose webhook never came. Both loops work on the rows that their query returned. A publish
  that raises leaves the scan; \<open>iteration\<close> is one turn of \<open>main\<close>'s loop, which logs the
  exception and goes on with a new session later.
\<close>

definition microseconds :: "int \<Rightarrow> timestamp" where
  "microseconds seconds = seconds * 1000000"

definition reaper_fail :: "pipeline_step \<Rightarrow> string \<Rightarrow> world \<Rightarrow> world" where
  "reaper_fail step reason w =
     (let step' = step\<lparr>st_status := ERROR, st_error_text := Some reason, st_finished_at := Some (clock w)\<rparr>;
          w1 = commit (emit_event (st_document_id step) (step_event (st_name step) ERROR) (flush_step step step' w))
      in snd (recompute_document_status (st_document_id step) w1))"

fun reap_in_flight :: "settings \<Rightarrow> pipeline_step list \<Rightarrow> int \<Rightarrow> world \<Rightarrow> (pyexn + int) \<times> world" where
  "reap_in_flight cfg [] acted w = (Inr acted, w)"
| "reap_in_flight cfg (step # rest) acted w =
     (if st_attempts step \<ge> step_max_attempts cfg then
        reap_in_flight cfg rest (acted + 1) (reaper_fail step ''exhausted retries (reaped)'' w)
      else if st_status step = QUEUED then
        (case publish_step (st_document_id step) (st_name step) w of
           (Inl e, w1) \<Rightarrow> (Inl e, w1)
         | (Inr _, w1) \<Rightarrow> reap_in_flight cfg rest (acted + 1) w1)
      else reap_in_flight cfg rest acted w)"

fun reap_callbacks :: "pipeline_step list \<Rightarrow> int \<Rightarrow> world \<Rightarrow> int \<times> world" where
  "reap_callbacks [] acted w = (acted, w)"
| "reap_callbacks (step # rest) acted w =
     reap_callbacks rest (acted + 1) (reaper_fail step ''partner callback timeout'' w)"

definition run_once :: "settings \<Rightarrow> world \<Rightarrow> (pyexn + int) \<times> world" where
  "run_once cfg w =
     (let now = clock w;
          queued_cutoff = now - microseconds (step_timeout_seconds cfg);
          stale = lock_stale_steps [QUEUED, RUNNING] queued_cutoff w
      in case reap_in_flight cfg stale 0 w of
           (Inl e, w1) \<Rightarrow> (Inl e, w1)
         | (Inr acted, w1) \<Rightarrow>
             let w2 = commit w1;
                 callback_cutoff = now - microseconds (callback_sla_seconds cfg);
                 stuck = lock_stale_steps [AWAITING_CALLBACK] callback_cutoff w2
             in case reap_callbacks stuck acted w2 of (acted', w3) \<Rightarrow> (Inr acted', w3))"

definition iteration :: "settings \<Rightarrow> world \<Rightarrow> world" where
  "iteration cfg w = snd (session_scope (run_once cfg) w)"

end
