(* ===== verification/Webhooks.thy ===== *)
theory Webhooks
  imports Transition
begin

section \<open>The partner webhook (\<open>app/webhook_security.py\<close>, \<open>app/api/webhooks.py\<close>, \<open>app/api/routes_impl/webhooks.py\<close>)\<close>

text \<open>
  The route verifies the signature over the raw body, parses the body, and applies the
  result in a session. The digest (\<open>hmac.new(key, body, sha256).digest()\<close>) and the JSON parser
  are arguments, as are the parsing of a date in the payload and the new row's id. A raw body
  is a list of bytes.
\<close>

subsection \<open>Signatures\<close>

definition hexdigest :: "string \<Rightarrow> string" where
  "hexdigest bytes = concat (map (\<lambda>b. let n = of_char b :: nat in
     [digit_char (n div 16), digit_char (n mod 16)]) bytes)"

definition compute_signature :: "settings \<Rightarrow> (string \<Rightarrow> string \<Rightarrow> string) \<Rightarrow> string \<Rightarrow> string" where
  "compute_signature cfg hmac_sha256 raw_body =
     hexdigest (hmac_sha256 (utf8_encode (partner_hmac_secret cfg)) raw_body)"

text \<open>\<open>hmac.compare_digest\<close> on two texts: it refuses any character outside ASCII.\<close>

definition is_ascii :: "string \<Rightarrow> bool" where
  "is_ascii s \<longleftrightarrow> (\<forall>c \<in> set s. (of_char c :: nat) < 128)"

definition compare_digest :: "string \<Rightarrow> string \<Rightarrow> pyexn + bool" where
  "compare_digest a b =
     (if is_ascii a \<and> is_ascii b then Inr (a = b)
      else Inl (Exn ''TypeError'' ''comparing strings with non-ASCII characters is not supported''))"

definition verify_signature ::
  "settings \<Rightarrow> (string \<Rightarrow> string \<Rightarrow> string) \<Rightarrow> string \<Rightarrow> string option \<Rightarrow> pyexn + bool" where
  "verify_signature cfg hmac_sha256 raw_body provided =
     (case provided of
        None \<Rightarrow> Inr False
      | Some p \<Rightarrow> if p = [] then Inr False
                  else compare_digest (compute_signature cfg hmac_sha256 raw_body) p)"

subsection \<open>Which signatures are accepted\<close>

lemma hexdigest_hex: "set (hexdigest bytes) \<subseteq> digit_char ` {..<16}"
proof -
  have "(of_char b :: nat) div 16 < 16 \<and> (of_char b :: nat) mod 16 < 16" for b :: char
  proof
    have "(of_char b :: nat) < 16 * 16" using of_char_less [of b] by linarith
    then show "(of_char b :: nat) div 16 < 16" by (rule less_mult_imp_div_less)
  qed simp
  then show ?thesis by (auto simp: hexdigest_def Let_def)
qed

lemma hexdigest_ascii: "is_ascii (hexdigest bytes)"
proof -
  have "\<forall>d \<in> set [0..<16]. (of_char (digit_char d) :: nat) < 128" by code_simp
  then show ?thesis using hexdigest_hex [of bytes] by (auto simp: is_ascii_def)
qed

lemma length_hexdigest: "length (hexdigest bytes) = 2 * length bytes"
  by (induction bytes) (simp_all add: hexdigest_def Let_def)

lemma verify_signature_iff:
  "verify_signature cfg hmac_sha256 raw provided = Inr True \<longleftrightarrow>
    compute_signature cfg hmac_sha256 raw \<noteq> [] \<and> provided = Some (compute_signature cfg hmac_sha256 raw)"
  using hexdigest_ascii [of "hmac_sha256 (utf8_encode (partner_hmac_secret cfg)) raw"]
  by (auto simp: verify_signature_def compare_digest_def compute_signature_def split: option.splits if_splits)

lemma verify_signature_cases:
  "verify_signature cfg hmac_sha256 raw provided =
    (case provided of None \<Rightarrow> Inr False
     | Some p \<Rightarrow> if is_ascii p then Inr (p \<noteq> [] \<and> p = compute_signature cfg hmac_sha256 raw)
       else Inl (Exn ''TypeError'' ''comparing strings with non-ASCII characters is not supported''))"
  using hexdigest_ascii [of "hmac_sha256 (utf8_encode (partner_hmac_secret cfg)) raw"]
  by (auto simp: verify_signature_def compare_digest_def compute_signature_def is_ascii_def split: option.splits)

subsection \<open>The payload\<close>

datatype webhook_status = COMPLETED | PARTNER_FAILED

text \<open>The members of \<open>WebhookStatus\<close> are \<open>COMPLETED\<close> and \<open>FAILED\<close>.\<close>

fun webhook_status_member :: "webhook_status \<Rightarrow> string" where
  "webhook_status_member COMPLETED = ''COMPLETED''"
| "webhook_status_member PARTNER_FAILED = ''FAILED''"

definition webhook_status_value :: "webhook_status \<Rightarrow> string" where
  "webhook_status_value s = generate_next_value (webhook_status_member s)"

definition webhook_status_of_value :: "string \<Rightarrow> webhook_status option" where
  "webhook_status_of_value v = find (\<lambda>s. webhook_status_value s = v) [COMPLETED, PARTNER_FAILED]"

lemma webhook_status_value_simps [enum_simps]:
  "webhook_status_value COMPLETED = ''completed''"
  "webhook_status_value PARTNER_FAILED = ''failed''"
  by code_simp+

interpretation webhook_status_codec: text_codec webhook_status_value webhook_status_of_value "\<lambda>_. True"
proof unfold_locales
  fix s show "webhook_status_of_value (webhook_status_value s) = Some s"
    by (cases s) (simp_all add: webhook_status_of_value_def enum_simps)
qed

record webhook_payload =
  wp_job_id :: string
  wp_status :: webhook_status
  wp_result :: "(string \<times> json) list"
  wp_occurred_at :: "timestamp option"

text \<open>\<open>WebhookPayload\<close>: which JSON values are accepted. A missing \<open>result\<close> is the empty
  dict, a missing or null \<open>occurred_at\<close> is \<open>None\<close>; other keys are ignored.\<close>

definition validate_payload :: "(json \<Rightarrow> timestamp option) \<Rightarrow> json \<Rightarrow> webhook_payload option" where
  "validate_payload parse_datetime j =
     (case j of
        JObject kvs \<Rightarrow>
          (case (map_of kvs ''job_id'', map_of kvs ''status'') of
             (Some (JString job), Some (JString st)) \<Rightarrow>
               (case (webhook_status_of_value st,
                      case map_of kvs ''result'' of None \<Rightarrow> Some [] | Some (JObject r) \<Rightarrow> Some r | Some _ \<Rightarrow> None,
                      case map_of kvs ''occurred_at'' of None \<Rightarrow> Some None | Some JNull \<Rightarrow> Some None
                        | Some t \<Rightarrow> map_option Some (parse_datetime t)) of
                  (Some s, Some r, Some t) \<Rightarrow>
                    Some \<lparr>wp_job_id = job, wp_status = s, wp_result = r, wp_occurred_at = t\<rparr>
                | _ \<Rightarrow> None)
           | _ \<Rightarrow> None)
      | _ \<Rightarrow> None)"

definition model_validate_json ::
  "(string \<Rightarrow> json option) \<Rightarrow> (json \<Rightarrow> timestamp option) \<Rightarrow> string \<Rightarrow> webhook_payload option" where
  "model_validate_json parse_json parse_datetime raw =
     Option.bind (parse_json raw) (validate_payload parse_datetime)"

subsection \<open>Applying the result\<close>

datatype webhook_outcome = ACCEPTED | DUPLICATE_IGNORED | PROCESSED

fun webhook_outcome_value :: "webhook_outcome \<Rightarrow> string" where
  "webhook_outcome_value ACCEPTED = ''accepted''"
| "webhook_outcome_value DUPLICATE_IGNORED = ''duplicate-ignored''"
| "webhook_outcome_value PROCESSED = ''processed''"

record webhook_response =
  wr_status :: webhook_outcome
  wr_document_status :: "document_status option"

text \<open>The audit row, committed before anything else happens.\<close>

definition record_webhook :: "uuid \<Rightarrow> string \<Rightarrow> json \<Rightarrow> world \<Rightarrow> world" where
  "record_webhook new_id job_id body w = commit (w\<lparr>working := (working w)\<lparr>webhook_events :=
     webhook_events (working w) @ [\<lparr>wh_id = new_id, wh_job_id = job_id, wh_signature_ok = True,
       wh_payload = body, wh_received_at = clock w, wh_processed_at = None\<rparr>]\<rparr>\<rparr>)"

definition apply_partner_result ::
  "(string \<Rightarrow> json option) \<Rightarrow> uuid \<Rightarrow> string \<Rightarrow> webhook_payload \<Rightarrow> world \<Rightarrow> (pyexn + webhook_response) \<times> world" where
  "apply_partner_result parse_json new_id raw p w =
     (case parse_json raw of
        None \<Rightarrow> (Inl (Exn ''JSONDecodeError'' ''Expecting value''), w)
      | Some body \<Rightarrow>
          let w1 = record_webhook new_id (wp_job_id p) body w in
          case get_step_by_job_id (wp_job_id p) w1 of
            Inl e \<Rightarrow> (Inl e, w1)
          | Inr None \<Rightarrow> (Inr \<lparr>wr_status = ACCEPTED, wr_document_status = None\<rparr>, w1)
          | Inr (Some step) \<Rightarrow>
              if st_status step \<in> {DONE, ERROR} then
                (Inr \<lparr>wr_status = DUPLICATE_IGNORED, wr_document_status = None\<rparr>, w1)
              else
                let d = st_document_id step;
                    step1 = step\<lparr>st_finished_at := Some (clock w1)\<rparr>;
                    (step2, ev) =
                      (if wp_status p = COMPLETED
                       then (step1\<lparr>st_status := DONE, st_result := Some (JObject (wp_result p))\<rparr>,
                             step_event EXTERNAL_CALL DONE)
                       else (step1\<lparr>st_status := ERROR, st_error_text :=
                               Some (''partner reported failure: '' @ json_dumps (JObject (wp_result p)))\<rparr>,
                             step_event EXTERNAL_CALL ERROR));
                    w2 = commit (emit_event d ev (flush_step step step2 w1));
                    (new_status, w3) = recompute_document_status d w2
                in (Inr \<lparr>wr_status = PROCESSED, wr_document_status = Some new_status\<rparr>, w3))"

subsection \<open>The route\<close>

definition partner_webhook ::
  "settings \<Rightarrow> (string \<Rightarrow> string \<Rightarrow> string) \<Rightarrow> (string \<Rightarrow> json option) \<Rightarrow> (json \<Rightarrow> timestamp option) \<Rightarrow>
   uuid \<Rightarrow> string \<Rightarrow> string option \<Rightarrow> world \<Rightarrow> webhook_response response \<times> world" where
  "partner_webhook cfg hmac_sha256 parse_json parse_datetime new_id raw signature w =
     (case verify_signature cfg hmac_sha256 raw signature of
        Inl e \<Rightarrow> (Escaped e, w)
      | Inr False \<Rightarrow> (HTTPException 401 ''bad signature'', w)
      | Inr True \<Rightarrow>
          (case model_validate_json parse_json parse_datetime raw of
             None \<Rightarrow> (HTTPException 422 ''bad payload'', w)
           | Some p \<Rightarrow>
               (case session_scope (apply_partner_result parse_json new_id raw p) w of
                  (Inl e, w1) \<Rightarrow> (Escaped e, w1)
                | (Inr r, w1) \<Rightarrow> (Answer r, w1))))"

text \<open>\<open>POST /dev/sign-webhook\<close> (\<open>app/api/dev.py\<close>): the signature of the raw body, and the header
  to send it in.\<close>

record sign_webhook_response =
  sw_signature :: string
  sw_header :: string

definition sign_webhook :: "settings \<Rightarrow> (string \<Rightarrow> string \<Rightarrow> string) \<Rightarrow> string \<Rightarrow> sign_webhook_response" where
  "sign_webhook cfg hmac_sha256 raw =
     \<lparr>sw_signature = compute_signature cfg hmac_sha256 raw, sw_header = ''X-Partner-Signature''\<rparr>"

end
