(* ===== verification/RefineEntry.thy ===== *)
theory RefineEntry
  imports RefineWorker Reaper Webhooks
begin

section \<open>The reaper, the webhook and the upload implement the contract\<close>

text \<open>
  The same for the other three operations that write: a scan of the reaper, the partner's
  webhook, and an upload. With the worker's callback these are all the operations of the
  program that change the database.
\<close>

subsection \<open>The reaper\<close>

lemma reaper_fail_committed:
  assumes clean: "clean w" and ok: "pipeline_ok cfg (committed w)"
    and r: "r \<in> set (pipeline_steps (committed w))"
    and st: "st_status r \<in> {QUEUED, RUNNING, AWAITING_CALLBACK}"
  obtains r' w1 where "new_version (committed w) r r'" "committed w1 = put_step r' (committed w)"
    and "loaded_from r' (r\<lparr>st_status := ERROR, st_error_text := Some reason, st_finished_at := Some (clock w)\<rparr>)"
    and "refines cfg {st_document_id r} w w1"
    and "reaper_fail r reason w = snd (recompute_document_status (st_document_id r) w1)"
proof -
  let ?new = "r\<lparr>st_status := ERROR, st_error_text := Some reason, st_finished_at := Some (clock w)\<rparr>"
  let ?v = "emit_event (st_document_id r) (step_event (st_name r) ERROR) (flush_step r ?new w)"
  have "\<exists>r'. step_move cfg (committed w) r r' [step_event (st_name r) ERROR] \<and> loaded_from r' ?new \<and>
      new_version (committed w) r r' \<and> working ?v = put_step r' (committed w) \<and>
      refines cfg {st_document_id r} w (commit ?v)"
    using clean by (intro flush_row [OF clean ok r loaded_from_self] step_move.reap [OF st])
      (simp_all add: step_key_def clean_def)
  then obtain r' where "new_version (committed w) r r'" "working ?v = put_step r' (committed w)"
    "loaded_from r' ?new" "refines cfg {st_document_id r} w (commit ?v)" by blast
  then show ?thesis
    by (intro that [of r' "commit ?v"]) (simp_all only: commit_simps reaper_fail_def Let_def)
qed

lemma reaper_fail_db:
  assumes clean: "clean w" and ok: "pipeline_ok cfg (committed w)" and att: "1 \<le> step_max_attempts cfg"
    and r: "r \<in> set (pipeline_steps (committed w))"
    and st: "st_status r \<in> {QUEUED, RUNNING, AWAITING_CALLBACK}"
  shows "refines cfg {st_document_id r} w (reaper_fail r reason w)"
    and "q \<in> set (pipeline_steps (committed w)) \<Longrightarrow> q \<noteq> r \<Longrightarrow>
      q \<in> set (pipeline_steps (committed (reaper_fail r reason w)))"
    and "in_sync (st_document_id r) (committed (reaper_fail r reason w))"
proof -
  obtain r' w1 where r': "new_version (committed w) r r'" "committed w1 = put_step r' (committed w)"
    "refines cfg {st_document_id r} w w1"
    and eq: "reaper_fail r reason w = snd (recompute_document_status (st_document_id r) w1)"
    by (rule reaper_fail_committed [OF clean ok r st])
  note ok1 = refines_ok [OF r'(3) ok att] and clean1 = refines_clean [OF r'(3)]
  note rec = recompute_document_status_db [OF clean1 ok1, of "st_document_id r"]
  show "refines cfg {st_document_id r} w (reaper_fail r reason w)"
    unfolding eq by (rule refines_trans [OF r'(3) rec(1)])
  show "in_sync (st_document_id r) (committed (reaper_fail r reason w))"
    unfolding eq recompute_in_sync [OF clean1 ok1] by simp
  show "q \<in> set (pipeline_steps (committed (reaper_fail r reason w)))"
    if "q \<in> set (pipeline_steps (committed w))" "q \<noteq> r"
    using that rec(2) r'(2) set_put_step [OF pipeline_okD(1) [OF ok] r'(1)] by (simp add: eq)
qed

lemma refines_reap_in_flight:
  assumes "clean w" "pipeline_ok cfg (committed w)" and att: "1 \<le> step_max_attempts cfg"
    and "\<forall>q \<in> set rows. q \<in> set (pipeline_steps (committed w)) \<and> st_status q \<in> {QUEUED, RUNNING}"
  shows "refines cfg {} w (snd (reap_in_flight cfg rows acted w)) \<and>
    committed (snd (reap_in_flight cfg rows acted w)) = committed w"
  using assms
proof (induction rows arbitrary: acted w)
  case Nil
  then show ?case by (simp add: refines_refl)
next
  case (Cons q rows)
  have q: "q \<in> set (pipeline_steps (committed w))" "st_status q \<in> {QUEUED, RUNNING}"
    using Cons.prems(4) by simp_all
  have below: "\<not> step_max_attempts cfg \<le> st_attempts q"
  proof -
    have "st_status q \<noteq> ERROR" using q(2) by auto
    with pipeline_okD(5) [OF Cons.prems(2) q(1)] show ?thesis by (simp add: step_row_ok_def)
  qed
  show ?case
  proof (cases "st_status q = QUEUED")
    case False
    with below Cons.IH [OF Cons.prems(1-3), of acted] Cons.prems(4) show ?thesis by simp
  next
    case True
    have "find_step (st_document_id q) (st_name q) (committed w) = Some q"
      using find_step_iff [OF pipeline_okD(1) [OF Cons.prems(2)]] q(1) by simp
    with True have "deliverable \<lparr>payload_document_id = st_document_id q, payload_step = st_name q\<rparr> (committed w)"
      by (simp add: deliverable_def)
    note ref = refines_publish [OF Cons.prems(1) this, of cfg "{}"]
    have IH: "refines cfg {} (snd (publish_step (st_document_id q) (st_name q) w))
        (snd (reap_in_flight cfg rows (acted + 1) (snd (publish_step (st_document_id q) (st_name q) w)))) \<and>
      committed (snd (reap_in_flight cfg rows (acted + 1) (snd (publish_step (st_document_id q) (st_name q) w)))) =
        committed (snd (publish_step (st_document_id q) (st_name q) w))"
      using Cons.prems(4) by (intro Cons.IH [OF refines_clean [OF ref] refines_ok [OF ref Cons.prems(2,3)] att]) simp
    from ref IH refines_trans [OF ref conjunct1 [OF IH]] below True show ?thesis
      by (simp add: case_prod_beta split: sum.split)
  qed
qed

lemma refines_reap_callbacks:
  assumes "clean w" "pipeline_ok cfg (committed w)" and att: "1 \<le> step_max_attempts cfg"
    and "\<forall>q \<in> set rows. q \<in> set (pipeline_steps (committed w)) \<and> st_status q = AWAITING_CALLBACK"
    and "distinct rows"
  shows "refines cfg (st_document_id ` set rows) w (snd (reap_callbacks rows acted w))"
  using assms
proof (induction rows arbitrary: acted w)
  case Nil
  then show ?case by (simp add: refines_refl)
next
  case (Cons q rows)
  have q: "q \<in> set (pipeline_steps (committed w))" "st_status q \<in> {QUEUED, RUNNING, AWAITING_CALLBACK}"
    using Cons.prems(4) by simp_all
  let ?w = "reaper_fail q ''partner callback timeout'' w"
  note fail = reaper_fail_db [OF Cons.prems(1,2) att q, where reason = "''partner callback timeout''"]
  have "\<forall>p \<in> set rows. p \<in> set (pipeline_steps (committed ?w)) \<and> st_status p = AWAITING_CALLBACK"
    using fail(2) Cons.prems(4,5) by (metis distinct.simps(2) list.set_intros(2))
  from Cons.IH [OF refines_clean [OF fail(1)] refines_ok [OF fail(1) Cons.prems(2) att] att this] Cons.prems(5)
  have "refines cfg (st_document_id ` set rows) ?w (snd (reap_callbacks rows (acted + 1) ?w))" by simp
  from refines_trans [OF refines_weaken [OF fail(1)] refines_weaken [OF this],
      of "st_document_id ` set (q # rows)"]
  show ?case by auto
qed

text \<open>The documents whose call has waited too long: the only ones a scan changes.\<close>

definition reaper_documents :: "settings \<Rightarrow> world \<Rightarrow> uuid set" where
  "reaper_documents cfg w = st_document_id ` set (lock_stale_steps [AWAITING_CALLBACK]
     (clock w - microseconds (callback_sla_seconds cfg)) w)"

lemma refines_run_once:
  assumes clean: "clean w" and ok: "pipeline_ok cfg (committed w)" and att: "1 \<le> step_max_attempts cfg"
  shows "refines cfg (reaper_documents cfg w) w (snd (run_once cfg w))"
proof -
  define stale where "stale = lock_stale_steps [QUEUED, RUNNING] (clock w - microseconds (step_timeout_seconds cfg)) w"
  obtain res w1 where loop: "reap_in_flight cfg stale 0 w = (res, w1)" by force
  have "\<forall>q \<in> set stale. q \<in> set (pipeline_steps (committed w)) \<and> st_status q \<in> {QUEUED, RUNNING}"
    using clean by (auto simp: stale_def lock_stale_steps_def clean_def)
  from refines_reap_in_flight [OF clean ok att this, of 0] loop have ref1: "refines cfg {} w w1" and same: "committed w1 = committed w" by simp_all
  note clean1 = refines_clean [OF ref1]
  have ref2: "refines cfg {} w1 (commit w1)"
    using clean1 by (intro refines_commit) (simp_all add: clean_def tx_step.idle)
  note ref12 = refines_trans [OF ref1 ref2]
  note clean2 = refines_clean [OF ref2] and ok2 = refines_ok [OF ref12 ok att]
  define stuck where "stuck = lock_stale_steps [AWAITING_CALLBACK]
    (clock w - microseconds (callback_sla_seconds cfg)) (commit w1)"
  have "\<forall>q \<in> set stuck. q \<in> set (pipeline_steps (committed (commit w1))) \<and> st_status q = AWAITING_CALLBACK"
    by (auto simp: stuck_def lock_stale_steps_def)
  moreover have "distinct stuck"
    using schema_okD(2) [OF pipeline_okD(1) [OF ok2]]
    by (simp add: stuck_def lock_stale_steps_def distinct_map)
  moreover have "st_document_id ` set stuck = reaper_documents cfg w"
    using same clean clean1 by (simp add: stuck_def reaper_documents_def lock_stale_steps_def clean_def)
  ultimately have ref3: "refines cfg (reaper_documents cfg w) (commit w1) (snd (reap_callbacks stuck acted (commit w1)))" for acted
    using refines_reap_callbacks [OF clean2 ok2 att, of stuck] by simp
  from refines_weaken [OF ref1] refines_trans [OF refines_weaken [OF ref12] ref3] show ?thesis
    using loop by (auto simp: run_once_def stale_def stuck_def Let_def case_prod_beta split: sum.split)
qed

lemma refines_iteration:
  assumes "clean w" "pipeline_ok cfg (committed w)" "1 \<le> step_max_attempts cfg"
  shows "refines cfg (reaper_documents cfg w) w (iteration cfg w)"
  using refines_run_once [OF assms] session_scope_refines [where body = "run_once cfg", OF assms(1)]
  by (simp add: iteration_def)

interpretation reaper: pipeline_operation cfg "\<lambda>w. 1 \<le> step_max_attempts cfg"
    "reaper_documents cfg" "iteration cfg" for cfg
  by unfold_locales (auto intro: refines_iteration)


subsection \<open>The webhook\<close>

lemma record_webhook_db:
  assumes clean: "clean w" and ok: "pipeline_ok cfg (committed w)"
  shows "refines cfg {} w (record_webhook new_id job_id body w)"
    and "\<exists>e. committed (record_webhook new_id job_id body w) =
      (committed w)\<lparr>webhook_events := webhook_events (committed w) @ [e]\<rparr> \<and> wh_job_id e = job_id"
    and "clock (record_webhook new_id job_id body w) = clock w"
  using clean unfolding record_webhook_def
  by (auto intro!: refines_commit simp: clean_def intro: tx_step.webhook)

lemma get_step_by_job_id_row:
  assumes ok: "pipeline_ok cfg (working w)" and found: "get_step_by_job_id j w = Inr (Some r)"
  shows "r \<in> set (pipeline_steps (working w))" "st_external_job_id r = Some j" "st_name r = EXTERNAL_CALL"
    and "st_status r \<in> {AWAITING_CALLBACK, DONE, ERROR}"
proof -
  from found have "filter (\<lambda>r. st_external_job_id r = Some j) (pipeline_steps (working w)) = [r]"
    by (simp add: get_step_by_job_id_def scalar_one_or_none_Some)
  then have "r \<in> set (filter (\<lambda>r. st_external_job_id r = Some j) (pipeline_steps (working w)))" by simp
  then show r: "r \<in> set (pipeline_steps (working w))" "st_external_job_id r = Some j" by simp_all
  from pipeline_okD(5) [OF ok r(1)] r(2)
  show "st_name r = EXTERNAL_CALL" "st_status r \<in> {AWAITING_CALLBACK, DONE, ERROR}"
    by (simp_all add: step_row_ok_def)
qed

lemma get_step_by_job_id_total:
  assumes "pipeline_ok cfg (working w)"
  shows "\<exists>x. get_step_by_job_id j w = Inr x"
  unfolding get_step_by_job_id_def
proof (rule scalar_one_or_none_unique)
  show "distinct (filter (\<lambda>r. st_external_job_id r = Some j) (pipeline_steps (working w)))"
    using schema_okD(2) [OF pipeline_okD(1) [OF assms]] by (simp add: distinct_map)
  show "r = q" if "r \<in> set (filter (\<lambda>r. st_external_job_id r = Some j) (pipeline_steps (working w)))"
    "q \<in> set (filter (\<lambda>r. st_external_job_id r = Some j) (pipeline_steps (working w)))" for r q
    using pipeline_okD(4) [OF assms] that unfolding jobs_unique_def by simp
qed

text \<open>The row that the result is written to, as a function of the loaded row.\<close>

definition partner_row :: "webhook_payload \<Rightarrow> timestamp \<Rightarrow> pipeline_step \<Rightarrow> pipeline_step" where
  "partner_row p now step = (if wp_status p = COMPLETED
     then step\<lparr>st_finished_at := Some now, st_status := DONE, st_result := Some (JObject (wp_result p))\<rparr>
     else step\<lparr>st_finished_at := Some now, st_status := ERROR, st_error_text :=
       Some (''partner reported failure: '' @ json_dumps (JObject (wp_result p)))\<rparr>)"

definition partner_commit :: "webhook_payload \<Rightarrow> pipeline_step \<Rightarrow> world \<Rightarrow> world" where
  "partner_commit p step w = commit (emit_event (st_document_id step)
     (step_event EXTERNAL_CALL (if wp_status p = COMPLETED then DONE else ERROR))
     (flush_step step (partner_row p (clock w) step) w))"

lemma apply_partner_result_found:
  assumes "parse_json raw = Some body"
    and "get_step_by_job_id (wp_job_id p) (record_webhook new_id (wp_job_id p) body w) = Inr (Some step)"
    and "st_status step \<notin> {DONE, ERROR}"
  shows "apply_partner_result parse_json new_id raw p w =
    (let w1 = record_webhook new_id (wp_job_id p) body w;
         (new_status, w3) = recompute_document_status (st_document_id step) (partner_commit p step w1)
     in (Inr \<lparr>wr_status = PROCESSED, wr_document_status = Some new_status\<rparr>, w3))"
  using assms by (simp add: apply_partner_result_def partner_commit_def partner_row_def Let_def case_prod_beta)

lemma partner_commit_db:
  assumes clean: "clean w" and ok: "pipeline_ok cfg (committed w)"
    and r: "r \<in> set (pipeline_steps (committed w))" "st_name r = EXTERNAL_CALL"
    and st: "st_status r = AWAITING_CALLBACK"
  shows "\<exists>r' evs. step_move cfg (committed w) r r' evs \<and> loaded_from r' (partner_row p (clock w) r) \<and>
    new_version (committed w) r r' \<and> committed (partner_commit p r w) = put_step r' (committed w) \<and>
    refines cfg {st_document_id r} w (partner_commit p r w)"
proof (cases "wp_status p = COMPLETED")
  case True
  have "step_move cfg (committed w) r ((partner_row p (clock w) r)\<lparr>st_updated_at := t\<rparr>) [step_event EXTERNAL_CALL DONE]" for t
    using True step_move.completed [OF st] by (simp add: partner_row_def)
  from flush_row [OF clean ok r(1) loaded_from_self _ _ this, of "emit_event (st_document_id r)
      (step_event EXTERNAL_CALL DONE) (flush_step r (partner_row p (clock w) r) w)"] True clean
  show ?thesis by (auto simp: partner_commit_def partner_row_def step_key_def clean_def)
next
  case False
  have "step_move cfg (committed w) r ((partner_row p (clock w) r)\<lparr>st_updated_at := t\<rparr>) [step_event EXTERNAL_CALL ERROR]" for t
  proof -
    let ?x = "''partner reported failure: '' @ json_dumps (JObject (wp_result p))"
    have "st_status r \<in> {QUEUED, RUNNING, AWAITING_CALLBACK}" using st by simp
    from step_move.reap [OF this, where cfg = cfg and db = "committed w" and x = ?x and u = "clock w" and t = t]
    have "step_move cfg (committed w) r (r\<lparr>st_status := ERROR, st_error_text := Some ?x,
        st_finished_at := Some (clock w), st_updated_at := t\<rparr>) [step_event EXTERNAL_CALL ERROR]"
      unfolding r(2) .
    moreover have "(partner_row p (clock w) r)\<lparr>st_updated_at := t\<rparr> = r\<lparr>st_status := ERROR,
        st_error_text := Some ?x, st_finished_at := Some (clock w), st_updated_at := t\<rparr>"
      using False by (cases r) (simp add: partner_row_def)
    ultimately show ?thesis by (simp only:)
  qed
  from flush_row [OF clean ok r(1) loaded_from_self _ _ this, of "emit_event (st_document_id r)
      (step_event EXTERNAL_CALL ERROR) (flush_step r (partner_row p (clock w) r) w)"] False clean
  show ?thesis by (auto simp: partner_commit_def partner_row_def step_key_def clean_def)
qed

definition job_documents :: "string \<Rightarrow> database \<Rightarrow> uuid set" where
  "job_documents j db = st_document_id ` {r \<in> set (pipeline_steps db). st_external_job_id r = Some j}"

lemma refines_apply_partner_result:
  assumes clean: "clean w" and ok: "pipeline_ok cfg (committed w)" and att: "1 \<le> step_max_attempts cfg"
  shows "refines cfg (job_documents (wp_job_id p) (committed w)) w (snd (apply_partner_result parse_json new_id raw p w))"
proof (cases "parse_json raw")
  case None
  with clean show ?thesis by (simp add: apply_partner_result_def refines_refl)
next
  case (Some body)
  let ?w1 = "record_webhook new_id (wp_job_id p) body w"
  note rec = record_webhook_db [OF clean ok, of new_id "wp_job_id p" body]
  note clean1 = refines_clean [OF rec(1)] and ok1 = refines_ok [OF rec(1) ok att]
  have work1: "working ?w1 = committed ?w1" using clean1 by (simp add: clean_def)
  show ?thesis
  proof (cases "\<exists>step. get_step_by_job_id (wp_job_id p) ?w1 = Inr (Some step) \<and> st_status step \<notin> {DONE, ERROR}")
    case False
    then have "snd (apply_partner_result parse_json new_id raw p w) = ?w1"
      using Some by (auto simp: apply_partner_result_def Let_def split: sum.split option.split)
    with refines_weaken [OF rec(1)] show ?thesis by simp
  next
    case True
    then obtain step where step: "get_step_by_job_id (wp_job_id p) ?w1 = Inr (Some step)"
      "st_status step \<notin> {DONE, ERROR}" by blast
    note row = get_step_by_job_id_row [OF ok1 [folded work1] step(1), unfolded work1]
    have "st_status step = AWAITING_CALLBACK" using row(4) step(2) by auto
    from partner_commit_db [OF clean1 ok1 row(1,3) this] have
      ref: "refines cfg {st_document_id step} ?w1 (partner_commit p step ?w1)" by blast
    have "{st_document_id step} \<subseteq> job_documents (wp_job_id p) (committed w)"
      using row(1,2) rec(2) by (auto simp: job_documents_def)
    note weak = refines_weaken [OF _ this]
    note ref2 = refines_trans [OF refines_weaken [OF rec(1)] weak [OF ref], OF empty_subsetI]
    from refines_trans [OF ref2 weak [OF recompute_document_status_db(1) [OF refines_clean [OF ref2] refines_ok [OF ref2 ok att]]]]
    show ?thesis unfolding apply_partner_result_found [where parse_json = parse_json, OF Some step] by (simp add: Let_def case_prod_beta)
  qed
qed

definition webhook_documents ::
  "(string \<Rightarrow> json option) \<Rightarrow> (json \<Rightarrow> timestamp option) \<Rightarrow> string \<Rightarrow> database \<Rightarrow> uuid set" where
  "webhook_documents parse_json parse_datetime raw db =
     (case model_validate_json parse_json parse_datetime raw of None \<Rightarrow> {} | Some p \<Rightarrow> job_documents (wp_job_id p) db)"

lemma refines_partner_webhook:
  assumes "clean w" "pipeline_ok cfg (committed w)" "1 \<le> step_max_attempts cfg"
  shows "refines cfg (webhook_documents parse_json parse_datetime raw (committed w)) w (snd (partner_webhook cfg hmac_sha256 parse_json parse_datetime new_id raw signature w))"
proof -
  note ref = refines_apply_partner_result [OF assms]
  show ?thesis
    using ref refines_refl [OF assms(1), of cfg]
      session_scope_refines [where body = "apply_partner_result parse_json new_id raw p" for p, OF assms(1) ref]
    by (simp add: partner_webhook_def webhook_documents_def case_prod_beta split: sum.split option.split bool.split)
qed

interpretation webhook: pipeline_operation cfg "\<lambda>w. 1 \<le> step_max_attempts cfg"
    "\<lambda>w. webhook_documents parse_json parse_datetime raw (committed w)"
    "\<lambda>w. snd (partner_webhook cfg hmac_sha256 parse_json parse_datetime new_id raw signature w)"
  for cfg hmac_sha256 parse_json parse_datetime new_id raw signature
  by unfold_locales (auto intro: refines_partner_webhook)


subsection \<open>The upload\<close>

lemma publish_entries_OCR: "publish_entries d (entry_nodes PIPELINE) w =
    (case publish_step d OCR w of (Inl e, w1) \<Rightarrow> (Inl e, w1) | (Inr _, w1) \<Rightarrow> (Inr (), w1))"
  by (simp add: pipeline_entry_nodes split: prod.split sum.split)

text \<open>What one upload commits.\<close>

definition uploaded :: "settings \<Rightarrow> (string \<Rightarrow> string) \<Rightarrow> uuid \<Rightarrow> (step_name \<Rightarrow> uuid) \<Rightarrow> app_user \<Rightarrow> string \<Rightarrow> timestamp \<Rightarrow> database \<Rightarrow> database" where
  "uploaded cfg abspath d ids user filename now = add_document
     ((new_document user filename d now)\<lparr>doc_storage_uri := as_uri (abspath (storage_path (storage_dir cfg) (user_org_id user) d))\<rparr>)
     (new_steps ids d now)"

lemma create_document_db:
  assumes clean: "clean w" and ok: "pipeline_ok cfg (committed w)" and att: "1 \<le> step_max_attempts cfg"
    and user: "user \<in> set (app_users (committed w))" and fresh: "fresh_ids d ids (committed w)"
  shows "refines cfg {d} w (snd (create_document cfg abspath d ids user filename data w))"
    and "committed (snd (create_document cfg abspath d ids user filename data w)) =
      uploaded cfg abspath d ids user filename (clock w) (committed w)"
proof -
  let ?w1 = "snd (storage_save abspath (storage_dir cfg) (user_org_id user) d data w)"
  let ?db = "uploaded cfg abspath d ids user filename (clock w) (committed w)"
  define w3 where "w3 = commit (?w1\<lparr>working := ?db\<rparr>)"
  have out: "snd (create_document cfg abspath d ids user filename data w) = snd (publish_step d OCR w3)"
    using clean by (simp add: create_document_def publish_entries_OCR w3_def uploaded_def add_document_def
        storage_save_def Let_def clean_def case_prod_beta split: sum.split)
  have tx: "tx_step cfg (committed w) ?db []"
    unfolding uploaded_def by (rule tx_step.upload [OF user fresh])
  then have ref: "refines cfg {d} w w3"
    unfolding w3_def using clean
    by (intro refines_commit) (simp_all add: clean_def uploaded_def same_document_add_document new_document_def)
  have db3: "committed w3 = ?db" by (simp add: w3_def)
  have "status_of d OCR ?db = Some QUEUED"
    using find_step_add_document [OF pipeline_okD(1) [OF ok] fresh]
    by (simp add: uploaded_def status_of_def new_step_def)
  then have "deliverable \<lparr>payload_document_id = d, payload_step = OCR\<rparr> (committed w3)"
    unfolding db3 by (auto simp: deliverable_def status_of_def)
  from refines_trans [OF ref refines_publish [OF refines_clean [OF ref] this]]
  show "refines cfg {d} w (snd (create_document cfg abspath d ids user filename data w))" unfolding out .
  show "committed (snd (create_document cfg abspath d ids user filename data w)) = ?db"
    unfolding out by (simp add: db3)
qed

definition upload_guard :: "settings \<Rightarrow> uuid \<Rightarrow> (step_name \<Rightarrow> uuid) \<Rightarrow> app_user \<Rightarrow> world \<Rightarrow> bool" where
  "upload_guard cfg d ids user w \<longleftrightarrow> 1 \<le> step_max_attempts cfg \<and>
     user \<in> set (app_users (committed w)) \<and> fresh_ids d ids (committed w)"

lemma upload_document_db:
  assumes clean: "clean w" and ok: "pipeline_ok cfg (committed w)" and guard: "upload_guard cfg d ids user w"
  shows "refines cfg {d} w (snd (upload_document cfg abspath d ids user filename data w))"
    and "\<exists>name. committed (snd (upload_document cfg abspath d ids user filename data w)) =
      uploaded cfg abspath d ids user name (clock w) (committed w)"
proof -
  define name where "name = (case filename of Some n \<Rightarrow> if n = [] then ''upload.bin'' else n | None \<Rightarrow> ''upload.bin'')"
  from guard have g: "1 \<le> step_max_attempts cfg" "user \<in> set (app_users (committed w))" "fresh_ids d ids (committed w)"
    by (simp_all add: upload_guard_def)
  note doc = create_document_db [OF clean ok g, of abspath name data]
  have "snd (upload_document cfg abspath d ids user filename data w) =
      snd (create_document cfg abspath d ids user name data w)"
    using session_scope_refines [where body = "create_document cfg abspath d ids user name data", OF clean doc(1)]
    by (simp add: upload_document_def name_def [symmetric] case_prod_beta split: sum.split)
  with doc show "refines cfg {d} w (snd (upload_document cfg abspath d ids user filename data w))"
    "\<exists>name. committed (snd (upload_document cfg abspath d ids user filename data w)) =
      uploaded cfg abspath d ids user name (clock w) (committed w)" by auto
qed

interpretation upload: pipeline_operation cfg "upload_guard cfg d ids user" "\<lambda>w. {d}"
    "\<lambda>w. snd (upload_document cfg abspath d ids user filename data w)"
  for cfg d ids user abspath filename data
  by unfold_locales (auto simp: upload_guard_def intro: upload_document_db(1))

end
