(* ===== verification/CallTurns.thy ===== *)
theory CallTurns
  imports Turns RefineEntry
begin

section \<open>The partner's callback, one statement at a time\<close>

text \<open>
  \<open>apply_partner_result\<close>, stopped after each statement that reads the database and after each
  commit, as \<open>Turns\<close> does with the worker. The \<open>Document\<close> object that
  \<open>recompute_document_status\<close> loads is not kept, so this session and the reaper's read it each time.
\<close>

subsection \<open>Deriving the document status\<close>

datatype recompute =
    ReadSteps
  | ReadDocument document_status
  | WriteDocument document_status "document option"
  | Derived document_status

fun recompute_turn :: "uuid \<Rightarrow> recompute \<Rightarrow> world \<Rightarrow> recompute \<times> world" where
  "recompute_turn d ReadSteps w = (ReadDocument (derive_document_status (step_status_map d w)), w)"
| "recompute_turn d (ReadDocument new) w = (WriteDocument new (get_document d w), w)"
| "recompute_turn d (WriteDocument new None) w = (Derived new, w)"
| "recompute_turn d (WriteDocument new (Some document)) w = (Derived new, record_status d new document w)"
| "recompute_turn d (Derived new) w = (Derived new, w)"

fun recompute_left :: "recompute \<Rightarrow> nat" where
  "recompute_left ReadSteps = 3"
| "recompute_left (ReadDocument _) = 2"
| "recompute_left (WriteDocument _ _) = 1"
| "recompute_left (Derived _) = 0"

text \<open>The three turns together.\<close>

lemma recompute_turns:
  "recompute_document_status d w =
    (case recompute_turn d ReadSteps w of (r1, w1) \<Rightarrow> case recompute_turn d r1 w1 of (r2, w2) \<Rightarrow>
     case recompute_turn d r2 w2 of (r3, w3) \<Rightarrow> (derive_document_status (step_status_map d w), w3))"
  by (simp add: recompute_document_status_def record_status_def Let_def split: option.split)

lemma recompute_turn_left: "recompute_left (fst (recompute_turn d r w)) = recompute_left r - 1"
  by (induction d r w rule: recompute_turn.induct) simp_all

subsection \<open>The callback\<close>

datatype call_phase =
    Arrived
  | LookingUp
  | Applying pipeline_step
  | CallDeriving uuid recompute
  | Answered "pyexn + webhook_response"

definition record_call :: "(string \<Rightarrow> json option) \<Rightarrow> uuid \<Rightarrow> string \<Rightarrow> webhook_payload \<Rightarrow> world \<Rightarrow> call_phase \<times> world" where
  "record_call parse_json new_id raw p w =
     (case parse_json raw of
        None \<Rightarrow> (Answered (Inl (Exn ''JSONDecodeError'' ''Expecting value'')), w)
      | Some body \<Rightarrow> (LookingUp, record_webhook new_id (wp_job_id p) body w))"

definition look_up :: "webhook_payload \<Rightarrow> world \<Rightarrow> call_phase" where
  "look_up p w =
     (case get_step_by_job_id (wp_job_id p) w of
        Inl e \<Rightarrow> Answered (Inl e)
      | Inr None \<Rightarrow> Answered (Inr \<lparr>wr_status = ACCEPTED, wr_document_status = None\<rparr>)
      | Inr (Some step) \<Rightarrow>
          if st_status step \<in> {DONE, ERROR}
          then Answered (Inr \<lparr>wr_status = DUPLICATE_IGNORED, wr_document_status = None\<rparr>)
          else Applying step)"

text \<open>The end of the request: the outcome, once the status is derived.\<close>

fun conclude :: "uuid \<Rightarrow> recompute \<Rightarrow> call_phase" where
  "conclude d (Derived new) = Answered (Inr \<lparr>wr_status = PROCESSED, wr_document_status = Some new\<rparr>)"
| "conclude d r = CallDeriving d r"

fun call_turn ::
  "(string \<Rightarrow> json option) \<Rightarrow> uuid \<Rightarrow> string \<Rightarrow> webhook_payload \<Rightarrow> call_phase \<Rightarrow> world \<Rightarrow> call_phase \<times> world" where
  "call_turn parse_json new_id raw p Arrived w = record_call parse_json new_id raw p w"
| "call_turn parse_json new_id raw p LookingUp w = (look_up p w, w)"
| "call_turn parse_json new_id raw p (Applying step) w =
     (CallDeriving (st_document_id step) ReadSteps, partner_commit p step w)"
| "call_turn parse_json new_id raw p (CallDeriving d r) w =
     (case recompute_turn d r w of (r', w') \<Rightarrow> (conclude d r', w'))"
| "call_turn parse_json new_id raw p (Answered a) w = (Answered a, w)"

fun call_turns ::
  "(string \<Rightarrow> json option) \<Rightarrow> uuid \<Rightarrow> string \<Rightarrow> webhook_payload \<Rightarrow> nat \<Rightarrow> call_phase \<times> world \<Rightarrow> call_phase \<times> world" where
  "call_turns parse_json new_id raw p 0 c = c"
| "call_turns parse_json new_id raw p (Suc n) c =
     call_turns parse_json new_id raw p n (call_turn parse_json new_id raw p (fst c) (snd c))"

lemma call_turns_answered [simp]: "call_turns parse_json new_id raw p n (Answered a, w) = (Answered a, w)"
  by (induction n) simp_all

lemma call_turns_deriving:
  "call_turns parse_json new_id raw p 3 (CallDeriving d ReadSteps, w) =
    (case recompute_document_status d w of
       (new, w') \<Rightarrow> (Answered (Inr \<lparr>wr_status = PROCESSED, wr_document_status = Some new\<rparr>), w'))"
  by (simp add: numeral_3_eq_3 recompute_document_status_def record_status_def Let_def split: option.split)

text \<open>Without interference the turns are \<open>apply_partner_result\<close>.\<close>

theorem call_turns_are_apply_partner_result:
  "call_turns parse_json new_id raw p 6 (Arrived, w) =
    (case apply_partner_result parse_json new_id raw p w of (r, w') \<Rightarrow> (Answered r, w'))"
proof (cases "parse_json raw")
  case None
  then show ?thesis by (simp add: record_call_def apply_partner_result_def eval_nat_numeral)
next
  case (Some body)
  let ?w = "record_webhook new_id (wp_job_id p) body w"
  have two: "call_turns parse_json new_id raw p 6 (Arrived, w) = call_turns parse_json new_id raw p 4 (look_up p ?w, ?w)"
    using Some by (simp add: record_call_def eval_nat_numeral)
  show ?thesis
  proof (cases "\<exists>step. look_up p ?w = Applying step")
    case True
    then obtain step where up: "look_up p ?w = Applying step" by blast
    then have step: "get_step_by_job_id (wp_job_id p) ?w = Inr (Some step)" "st_status step \<notin> {DONE, ERROR}"
      by (auto simp: look_up_def split: sum.splits option.splits if_splits)
    have "call_turns parse_json new_id raw p 4 (Applying step, ?w) =
        call_turns parse_json new_id raw p 3 (CallDeriving (st_document_id step) ReadSteps, partner_commit p step ?w)"
      by (simp add: eval_nat_numeral del: recompute_turn.simps)
    with two up show ?thesis
      by (simp add: call_turns_deriving apply_partner_result_found [where parse_json = parse_json, OF Some step] Let_def case_prod_beta)
  next
    case False
    with two Some show ?thesis
      by (auto simp: look_up_def apply_partner_result_def Let_def split: sum.splits option.splits if_splits)
  qed
qed

text \<open>How many turns are left at most.\<close>

fun call_left :: "call_phase \<Rightarrow> nat" where
  "call_left Arrived = 6"
| "call_left LookingUp = 5"
| "call_left (Applying _) = 4"
| "call_left (CallDeriving _ r) = max 1 (recompute_left r)"
| "call_left (Answered _) = 0"

lemma conclude_left: "call_left (conclude d r) = recompute_left r"
  by (cases r) simp_all

lemma call_turn_left: "call_left (fst (call_turn parse_json new_id raw p ph w)) \<le> call_left ph - 1"
  by (cases ph) (auto simp: record_call_def look_up_def conclude_left recompute_turn_left case_prod_beta
      split: option.split sum.split)

lemma call_over: "call_left ph = 0 \<Longrightarrow> \<exists>a. ph = Answered a"
  by (cases ph) simp_all

text \<open>The row that the next turn updates: an UPDATE waits while another transaction has locked it.\<close>

fun call_updates :: "call_phase \<Rightarrow> uuid set" where
  "call_updates (Applying step) = {st_id step}"
| "call_updates _ = {}"

end
