(* ===== verification/ScanTurns.thy ===== *)
theory ScanTurns
  imports CallTurns
begin

section \<open>The reaper's scan, one statement at a time\<close>

text \<open>
  \<open>run_once\<close>, stopped after each statement that reads the database, each publication and each
  commit. \<open>lock_stale_steps\<close> locks the rows that it returns (\<open>FOR UPDATE\<close>) and leaves out those
  that another scan has locked (\<open>SKIP LOCKED\<close>). The locks last until the transaction ends: the first
  \<open>_fail\<close> commits, and with that the rows that are still to come are no longer locked.
\<close>

datatype scan_phase =
    Selecting
  | InFlight "pipeline_step list" int timestamp "uuid list"
  | InFlightFailed uuid recompute "pipeline_step list" int timestamp
  | SelectingOverdue int timestamp
  | Overdue "pipeline_step list" int "uuid list"
  | OverdueFailed uuid recompute "pipeline_step list" int
  | Scanned "pyexn + int"

definition select_for_update :: "uuid set \<Rightarrow> step_status list \<Rightarrow> timestamp \<Rightarrow> world \<Rightarrow> pipeline_step list" where
  "select_for_update locked statuses cutoff w =
     filter (\<lambda>r. st_id r \<notin> locked) (lock_stale_steps statuses cutoff w)"

text \<open>The first transaction of \<open>_fail\<close>.\<close>

definition mark_failed :: "pipeline_step \<Rightarrow> string \<Rightarrow> world \<Rightarrow> world" where
  "mark_failed step reason w =
     (let step' = step\<lparr>st_status := ERROR, st_error_text := Some reason, st_finished_at := Some (clock w)\<rparr>
      in commit (emit_event (st_document_id step) (step_event (st_name step) ERROR) (flush_step step step' w)))"

fun scan_turn :: "settings \<Rightarrow> uuid set \<Rightarrow> scan_phase \<Rightarrow> world \<Rightarrow> scan_phase \<times> world" where
  "scan_turn cfg locked Selecting w =
     (let now = clock w;
          stale = select_for_update locked [QUEUED, RUNNING] (now - microseconds (step_timeout_seconds cfg)) w
      in (InFlight stale 0 now (map st_id stale), w))"
| "scan_turn cfg locked (InFlight [] acted now own) w = (SelectingOverdue acted now, commit w)"
| "scan_turn cfg locked (InFlight (step # rest) acted now own) w =
     (if st_attempts step \<ge> step_max_attempts cfg then
        (InFlightFailed (st_document_id step) ReadSteps rest (acted + 1) now,
         mark_failed step ''exhausted retries (reaped)'' w)
      else if st_status step = QUEUED then
        (case publish_step (st_document_id step) (st_name step) w of
           (Inl e, w') \<Rightarrow> (Scanned (Inl e), w')
         | (Inr _, w') \<Rightarrow> (InFlight rest (acted + 1) now own, w'))
      else (InFlight rest acted now own, w))"
| "scan_turn cfg locked (InFlightFailed d r rest acted now) w =
     (case recompute_turn d r w of (r', w') \<Rightarrow>
        (case r' of Derived _ \<Rightarrow> InFlight rest acted now [] | _ \<Rightarrow> InFlightFailed d r' rest acted now, w'))"
| "scan_turn cfg locked (SelectingOverdue acted now) w =
     (let stuck = select_for_update locked [AWAITING_CALLBACK] (now - microseconds (callback_sla_seconds cfg)) w
      in (Overdue stuck acted (map st_id stuck), w))"
| "scan_turn cfg locked (Overdue [] acted own) w = (Scanned (Inr acted), w)"
| "scan_turn cfg locked (Overdue (step # rest) acted own) w =
     (OverdueFailed (st_document_id step) ReadSteps rest (acted + 1), mark_failed step ''partner callback timeout'' w)"
| "scan_turn cfg locked (OverdueFailed d r rest acted) w =
     (case recompute_turn d r w of (r', w') \<Rightarrow>
        (case r' of Derived _ \<Rightarrow> Overdue rest acted [] | _ \<Rightarrow> OverdueFailed d r' rest acted, w'))"
| "scan_turn cfg locked (Scanned r) w = (Scanned r, w)"

text \<open>The rows that a scan has locked, and the row that its next turn updates.\<close>

fun scan_locks :: "scan_phase \<Rightarrow> uuid set" where
  "scan_locks (InFlight _ _ _ own) = set own"
| "scan_locks (Overdue _ _ own) = set own"
| "scan_locks _ = {}"

fun scan_updates :: "settings \<Rightarrow> scan_phase \<Rightarrow> uuid set" where
  "scan_updates cfg (InFlight (step # rest) acted now own) =
     (if st_attempts step \<ge> step_max_attempts cfg then {st_id step} else {})"
| "scan_updates cfg (Overdue (step # rest) acted own) = {st_id step}"
| "scan_updates cfg _ = {}"

subsection \<open>A scan alone\<close>

fun scan_turns :: "settings \<Rightarrow> nat \<Rightarrow> scan_phase \<times> world \<Rightarrow> scan_phase \<times> world" where
  "scan_turns cfg 0 c = c"
| "scan_turns cfg (Suc n) c = scan_turns cfg n (scan_turn cfg {} (fst c) (snd c))"

lemma scan_turns_add: "scan_turns cfg (m + n) c = scan_turns cfg n (scan_turns cfg m c)"
  by (induction m arbitrary: c) simp_all

lemma scan_turns_over [simp]: "scan_turns cfg n (Scanned r, w) = (Scanned r, w)"
  by (induction n) simp_all

lemma scan_turns_finished:
  assumes "scan_turns cfg m c = (Scanned r, w)" "m \<le> n"
  shows "scan_turns cfg n c = (Scanned r, w)"
  using scan_turns_add [of cfg m "n - m" c] assms by simp

lemma reaper_fail_eq: "reaper_fail step reason w = snd (recompute_document_status (st_document_id step) (mark_failed step reason w))"
  by (simp add: reaper_fail_def mark_failed_def Let_def)

lemma scan_turns_failed:
  "scan_turns cfg 3 (InFlightFailed d ReadSteps rest acted now, w) =
    (InFlight rest acted now [], snd (recompute_document_status d w))"
  "scan_turns cfg 3 (OverdueFailed d ReadSteps rest acted, w) =
    (Overdue rest acted [], snd (recompute_document_status d w))"
  by (simp_all add: numeral_3_eq_3 recompute_document_status_def Let_def record_status_def split: option.split)

lemma scan_turns_overdue:
  "\<exists>n \<le> 4 * length steps + 1. scan_turns cfg n (Overdue steps acted own, w) =
    (case reap_callbacks steps acted w of (acted', w') \<Rightarrow> (Scanned (Inr acted'), w'))"
proof (induction steps arbitrary: acted own w)
  case Nil
  show ?case by (intro exI [of _ 1]) simp
next
  case (Cons step rest)
  let ?w = "reaper_fail step ''partner callback timeout'' w"
  from Cons [of "acted + 1" "[]" ?w] obtain n where n: "n \<le> 4 * length rest + 1"
    "scan_turns cfg n (Overdue rest (acted + 1) [], ?w) =
      (case reap_callbacks rest (acted + 1) ?w of (acted', w') \<Rightarrow> (Scanned (Inr acted'), w'))" by blast
  have "scan_turns cfg (Suc (3 + n)) (Overdue (step # rest) acted own, w) =
      scan_turns cfg n (Overdue rest (acted + 1) [], ?w)"
    by (simp only: scan_turns.simps(2) scan_turn.simps fst_conv snd_conv scan_turns_add scan_turns_failed reaper_fail_eq)
  with n show ?case by (intro exI [of _ "Suc (3 + n)"]) simp
qed

lemma scan_turns_in_flight:
  "\<exists>n \<le> 4 * length steps + 1. scan_turns cfg n (InFlight steps acted now own, w) =
    (case reap_in_flight cfg steps acted w of
       (Inl e, w') \<Rightarrow> (Scanned (Inl e), w') | (Inr acted', w') \<Rightarrow> (SelectingOverdue acted' now, commit w'))"
proof (induction steps arbitrary: acted own w)
  case Nil
  show ?case by (intro exI [of _ 1]) simp
next
  case (Cons step rest)
  note IH = this
  consider (failed) "st_attempts step \<ge> step_max_attempts cfg"
    | (queued) "\<not> st_attempts step \<ge> step_max_attempts cfg" "st_status step = QUEUED"
    | (left) "\<not> st_attempts step \<ge> step_max_attempts cfg" "st_status step \<noteq> QUEUED" by blast
  then show ?case
  proof cases
    case failed
    let ?w = "reaper_fail step ''exhausted retries (reaped)'' w"
    from IH [of "acted + 1" "[]" ?w] obtain n where n: "n \<le> 4 * length rest + 1"
      "scan_turns cfg n (InFlight rest (acted + 1) now [], ?w) =
        (case reap_in_flight cfg rest (acted + 1) ?w of
          (Inl e, w') \<Rightarrow> (Scanned (Inl e), w') | (Inr acted', w') \<Rightarrow> (SelectingOverdue acted' now, commit w'))" by blast
    have "scan_turns cfg (Suc (3 + n)) (InFlight (step # rest) acted now own, w) =
        scan_turns cfg n (InFlight rest (acted + 1) now [], ?w)"
      using failed by (simp only: scan_turns.simps(2) scan_turn.simps fst_conv snd_conv scan_turns_add scan_turns_failed reaper_fail_eq if_True)
    with n failed show ?thesis by (intro exI [of _ "Suc (3 + n)"]) simp
  next
    case queued
    obtain r w1 where pub: "publish_step (st_document_id step) (st_name step) w = (r, w1)" by force
    show ?thesis
    proof (cases r)
      case (Inl e)
      with queued pub show ?thesis by (intro exI [of _ 1]) simp
    next
      case (Inr u)
      from IH [of "acted + 1" own w1] obtain n where "n \<le> 4 * length rest + 1"
        "scan_turns cfg n (InFlight rest (acted + 1) now own, w1) =
          (case reap_in_flight cfg rest (acted + 1) w1 of
            (Inl e, w') \<Rightarrow> (Scanned (Inl e), w') | (Inr acted', w') \<Rightarrow> (SelectingOverdue acted' now, commit w'))" by blast
      with queued pub Inr show ?thesis by (intro exI [of _ "Suc n"]) simp
    qed
  next
    case left
    from IH [of acted own w] obtain n where "n \<le> 4 * length rest + 1"
      "scan_turns cfg n (InFlight rest acted now own, w) =
        (case reap_in_flight cfg rest acted w of
          (Inl e, w') \<Rightarrow> (Scanned (Inl e), w') | (Inr acted', w') \<Rightarrow> (SelectingOverdue acted' now, commit w'))" by blast
    with left show ?thesis by (intro exI [of _ "Suc n"]) simp
  qed
qed

text \<open>Without interference, and when no other scan holds a lock, the turns are \<open>run_once\<close>. Each
  row takes at most four, in either of the two loops.\<close>

theorem scan_turns_are_run_once:
  "\<exists>n. scan_turns cfg n (Selecting, w) = (case run_once cfg w of (r, w') \<Rightarrow> (Scanned r, w'))"
proof -
  define stale where "stale = lock_stale_steps [QUEUED, RUNNING] (clock w - microseconds (step_timeout_seconds cfg)) w"
  obtain r w1 where loop: "reap_in_flight cfg stale 0 w = (r, w1)" by force
  obtain m where m: "scan_turns cfg m (InFlight stale 0 (clock w) (map st_id stale), w) =
    (case r of Inl e \<Rightarrow> (Scanned (Inl e), w1) | Inr acted' \<Rightarrow> (SelectingOverdue acted' (clock w), commit w1))"
    using scan_turns_in_flight [of stale cfg 0 "clock w" "map st_id stale" w] loop by auto
  have first: "scan_turns cfg (Suc m) (Selecting, w) =
    (case r of Inl e \<Rightarrow> (Scanned (Inl e), w1) | Inr acted' \<Rightarrow> (SelectingOverdue acted' (clock w), commit w1))"
    unfolding m [symmetric] by (simp add: select_for_update_def stale_def Let_def)
  show ?thesis
  proof (cases r)
    case (Inl e)
    with first loop show ?thesis
      by (intro exI [of _ "Suc m"]) (simp add: run_once_def stale_def [symmetric] Let_def)
  next
    case (Inr acted)
    define stuck where "stuck = lock_stale_steps [AWAITING_CALLBACK] (clock w - microseconds (callback_sla_seconds cfg)) (commit w1)"
    obtain n where n: "scan_turns cfg n (Overdue stuck acted (map st_id stuck), commit w1) =
        (case reap_callbacks stuck acted (commit w1) of (acted', w') \<Rightarrow> (Scanned (Inr acted'), w'))"
      using scan_turns_overdue by blast
    have "scan_turns cfg (Suc m + Suc n) (Selecting, w) = scan_turns cfg n (Overdue stuck acted (map st_id stuck), commit w1)"
      unfolding scan_turns_add first using Inr by (simp add: select_for_update_def stuck_def Let_def)
    with n Inr loop show ?thesis
      by (intro exI [of _ "Suc m + Suc n"]) (simp add: run_once_def stale_def [symmetric] stuck_def [symmetric] Let_def case_prod_beta)
  qed
qed

subsection \<open>Every scan ends\<close>

text \<open>How many turns are left at most, when the table never has more than \<open>N\<close> rows.\<close>

fun scan_left :: "nat \<Rightarrow> scan_phase \<Rightarrow> nat" where
  "scan_left N Selecting = 8 * N + 4"
| "scan_left N (InFlight rest _ _ _) = 4 * length rest + 4 * N + 3"
| "scan_left N (InFlightFailed _ r rest _ _) = max 1 (recompute_left r) + 4 * length rest + 4 * N + 3"
| "scan_left N (SelectingOverdue _ _) = 4 * N + 2"
| "scan_left N (Overdue rest _ _) = 4 * length rest + 1"
| "scan_left N (OverdueFailed _ r rest _) = max 1 (recompute_left r) + 4 * length rest + 1"
| "scan_left N (Scanned _) = 0"

lemma length_select_for_update: "length (select_for_update locked sts cutoff w) \<le> length (pipeline_steps (working w))"
  unfolding select_for_update_def lock_stale_steps_def using le_trans [OF length_filter_le length_filter_le] .

lemma scan_turn_left:
  assumes "length (pipeline_steps (working w)) \<le> N"
  shows "scan_left N (fst (scan_turn cfg locked ph w)) \<le> scan_left N ph - 1"
proof (cases ph)
  case Selecting
  show ?thesis
    using Selecting assms length_select_for_update [of locked _ _ w, THEN le_trans] by (simp add: Let_def)
next
  case (SelectingOverdue acted now)
  then show ?thesis
    using assms length_select_for_update [of locked _ _ w, THEN le_trans] by (simp add: Let_def)
next
  case (InFlight rest acted now own)
  then show ?thesis by (cases rest) (auto split: sum.split prod.split)
next
  case (Overdue rest acted own)
  then show ?thesis by (cases rest) auto
next
  case (InFlightFailed d r rest acted now)
  with recompute_turn_left [of d r w] show ?thesis by (cases r) (auto split: recompute.split prod.split)
next
  case (OverdueFailed d r rest acted)
  with recompute_turn_left [of d r w] show ?thesis by (cases r) (auto split: recompute.split prod.split)
qed simp

lemma scan_over: "scan_left N ph = 0 \<Longrightarrow> \<exists>r. ph = Scanned r"
  by (cases ph) simp_all

end
