(* ===== verification/DocumentStatus.thy ===== *)
theory DocumentStatus
  imports RefineEntry
begin

section \<open>The document status follows the steps\<close>

text \<open>
  A document's status is stored, not computed: \<open>recompute_document_status\<close> runs in a second
  transaction after the one that changes a step. Every operation that runs to its end leaves
  the stored status equal to the one derived from the steps, for every document.
\<close>

lemma map_of_document_statuses:
  assumes "schema_ok db"
  shows "map_of (document_statuses d db) s = status_of d s db"
  by (simp add: document_statuses_def map_of_map_key [OF distinct_steps_of [OF assms]] find_steps_of
      status_of_def)

lemma mem_document_statuses:
  assumes "schema_ok db"
  shows "(s, st) \<in> set (document_statuses d db) \<longleftrightarrow> status_of d s db = Some st"
proof -
  have "distinct (map fst (document_statuses d db))"
    using distinct_steps_of [OF assms] by (simp add: document_statuses_def comp_def)
  from map_of_eq_Some_iff [OF this] map_of_document_statuses [OF assms] show ?thesis by metis
qed

text \<open>The status as a function of the four step states.\<close>

lemma derive_status:
  assumes "schema_ok db"
  shows "derive_document_status (document_statuses d db) =
    (if \<exists>s. status_of d s db = Some ERROR then FAILED
     else if status_of d EXTERNAL_CALL db = Some DONE then READY else PROCESSING)"
proof -
  have "(\<exists>st \<in> set (map snd (document_statuses d db)). st = ERROR) \<longleftrightarrow> (\<exists>s. status_of d s db = Some ERROR)"
    by (force simp: mem_document_statuses [OF assms, symmetric])
  then show ?thesis
    by (simp add: derive_document_status_def map_of_document_statuses [OF assms])
qed

lemma in_sync_same: "same_document e db db' \<Longrightarrow> in_sync e db' = in_sync e db"
  by (simp add: same_document_def in_sync_def document_statuses_def split: option.split)

text \<open>A transition that neither fails the step nor completes the partner's call does not
  change the derived status.\<close>

definition quiet :: "pipeline_step \<Rightarrow> bool" where
  "quiet r \<longleftrightarrow> st_status r \<noteq> ERROR \<and> (st_name r = EXTERNAL_CALL \<longrightarrow> st_status r \<noteq> DONE)"

lemma in_sync_put_step:
  assumes ok: "schema_ok db" and nv: "new_version db r r'" and quiet: "quiet r" "quiet r'"
  shows "in_sync e (put_step r' db) = in_sync e db"
proof -
  have r: "find_step (st_document_id r) (st_name r) db = Some r"
    using nv find_step_iff [OF ok] by (simp add: new_version_def)
  have key: "step_key r' = (st_document_id r, st_name r)" "st_name r' = st_name r"
    using nv by (simp_all add: new_version_def step_key_def)
  note post = status_of_put_step [OF ok nv, unfolded key(1)]
  have err: "status_of e s (put_step r' db) = Some ERROR \<longleftrightarrow> status_of e s db = Some ERROR" for s
  proof (cases "e = st_document_id r \<and> s = st_name r")
    case True
    with quiet r show ?thesis by (simp add: post) (simp add: status_of_def quiet_def)
  next
    case False
    then show ?thesis by (auto simp: post)
  qed
  moreover have "status_of e EXTERNAL_CALL (put_step r' db) = Some DONE \<longleftrightarrow> status_of e EXTERNAL_CALL db = Some DONE"
  proof (cases "e = st_document_id r \<and> EXTERNAL_CALL = st_name r")
    case True
    with quiet r key(2) show ?thesis by (simp add: post) (simp add: status_of_def quiet_def)
  next
    case False
    then show ?thesis by (auto simp: post)
  qed
  ultimately show ?thesis
    by (simp add: in_sync_def derive_status [OF ok] derive_status [OF schema_ok_put_step [OF ok nv]] find_document_def
        split: option.split)
qed

lemma in_sync_move:
  assumes "pipeline_ok cfg db" "step_move cfg db r r' evs" "r \<in> set (pipeline_steps db)" "quiet r'"
  shows "in_sync e (put_step r' db) = in_sync e db"
proof -
  have "quiet r" using step_move_final [OF assms(2)] by (simp add: quiet_def)
  from in_sync_put_step [OF pipeline_okD(1) [OF assms(1)] pipeline_ok_step(2) [OF assms(1,3,2)] this assms(4)]
  show ?thesis .
qed

subsection \<open>The transitioner\<close>

lemma claim_step_in_sync:
  assumes "clean w" "pipeline_ok cfg (committed w)" "find_step d s (committed w) = Some r"
  shows "in_sync e (committed (snd (claim_step d s w))) = in_sync e (committed w)"
proof (cases "st_status r = PENDING")
  case True
  have "new_version (committed w) r (r\<lparr>st_status := QUEUED, st_updated_at := clock w\<rparr>)"
    using assms(3) find_step_iff [OF pipeline_okD(1) [OF assms(2)]] by (auto simp: new_version_def step_key_def)
  from in_sync_put_step [OF pipeline_okD(1) [OF assms(2)] this] True show ?thesis
    by (simp add: claim_step_db(2) [OF assms] quiet_def)
qed (simp add: claim_step_db(2) [OF assms])

lemma trigger_ready_in_sync:
  assumes "clean w" "pipeline_ok cfg (committed w)" and att: "1 \<le> step_max_attempts cfg"
    and "\<forall>s \<in> set ss. \<forall>p \<in> parents PIPELINE s. status_of d p (committed w) = Some DONE"
    and "\<forall>s \<in> set ss. find_step d s (committed w) \<noteq> None"
  shows "in_sync e (committed (snd (trigger_ready d ss w))) = in_sync e (committed w)"
  using assms
proof (induction ss arbitrary: w)
  case (Cons s ss)
  from Cons.prems(5) obtain r where r: "find_step d s (committed w) = Some r" by auto
  have key: "st_document_id r = d" "st_name r = s"
    using r find_step_iff [OF pipeline_okD(1) [OF Cons.prems(2)]] by auto
  with Cons.prems(4) have par: "parents_done (committed w) r" by (simp add: parents_done_def)
  note same = claim_step_in_sync [OF Cons.prems(1,2) r, of e]
  have rest: "in_sync e (committed (snd (trigger_ready d ss w'))) = in_sync e (committed w')"
    if ref: "refines cfg {d} w w'" for w'
  proof (rule Cons.IH [OF refines_clean [OF ref] refines_ok [OF ref Cons.prems(2,3)] att])
    show "\<forall>s \<in> set ss. \<forall>p \<in> parents PIPELINE s. status_of d p (committed w') = Some DONE"
      using refines_parents_done [OF ref Cons.prems(2,3)] Cons.prems(4) by (meson list.set_intros(2))
    show "\<forall>s \<in> set ss. find_step d s (committed w') \<noteq> None"
      using refines_find_step [OF ref Cons.prems(2,3)] Cons.prems(5) by simp
  qed
  show ?case
  proof (cases "fst (claim_step d s w)")
    case True
    from rest [OF refines_claim_publish [OF Cons.prems(1,2,3) r par True]] same True show ?thesis
      by (simp add: case_prod_beta split: sum.split)
  next
    case False
    with rest [OF claim_step_db(3) [OF Cons.prems(1,2) r par]] same show ?thesis
      by (simp add: case_prod_beta)
  qed
qed simp


lemma trigger_successors_in_sync:
  assumes clean: "clean w" and ok: "pipeline_ok cfg (committed w)" and att: "1 \<le> step_max_attempts cfg"
    and r: "r \<in> set (pipeline_steps (committed w))" "st_document_id r = d"
  shows "in_sync e (committed (snd (trigger_successors PIPELINE d w))) = in_sync e (committed w)"
proof -
  have work: "working w = committed w" using clean by (simp add: clean_def)
  note sch = pipeline_okD(1) [OF ok, folded work]
  show ?thesis
    unfolding trigger_successors_def
  proof (rule trigger_ready_in_sync [OF clean ok att])
    show "\<forall>s \<in> set (ready_successors PIPELINE (done_steps (step_status_map d w))).
        \<forall>p \<in> parents PIPELINE s. status_of d p (committed w) = Some DONE"
      using done_steps_iff [OF sch] work by (metis pipeline.ready_iff subsetD)
    show "\<forall>s \<in> set (ready_successors PIPELINE (done_steps (step_status_map d w))). find_step d s (committed w) \<noteq> None"
      using row_of_document [OF ok r(1)] r(2) by simp
  qed
qed

subsection \<open>The worker\<close>

lemma on_failure_in_sync:
  assumes "clean w" and ok: "pipeline_ok cfg (committed w)" and att: "1 \<le> step_max_attempts cfg"
    and r: "r \<in> set (pipeline_steps (committed w))" "loaded_from r row" "st_document_id r = d" "st_status r = RUNNING"
    and sync: "in_sync d (committed w)"
  shows "in_sync d (committed (snd (on_failure cfg d row e w)))"
proof (cases "st_attempts r + 1 \<ge> step_max_attempts cfg")
  case True
  from on_failure_exhausted [OF assms(1,2) r True, of e] obtain w1
    where w1: "refines cfg {d} w w1" "on_failure cfg d row e w = (ACK, snd (recompute_document_status d w1))" by blast
  from recompute_in_sync [OF refines_clean [OF w1(1)] refines_ok [OF w1(1) ok att], of d d] w1(2)
  show ?thesis by simp
next
  case False
  then have "st_attempts r + 1 < step_max_attempts cfg" by simp
  from on_failure_retry [OF assms(1,2) r this, of e] obtain r' w1 where
    "step_move cfg (committed w) r r' []" "loaded_from r' (row\<lparr>st_attempts := st_attempts row + 1, st_status := QUEUED\<rparr>)"
    "committed w1 = put_step r' (committed w)" "on_failure cfg d row e w = (RETRY, w1)" by blast
  with in_sync_move [OF ok this(1) r(1), of d] loaded_fromD(4) [OF this(2)] sync
  show ?thesis by (simp add: quiet_def)
qed

lemma handle_in_sync:
  assumes clean: "clean w" and ok: "pipeline_ok cfg (committed w)" and att: "1 \<le> step_max_attempts cfg"
    and msg: "deliverable p (committed w)" and fresh: "fresh_job dr (payload_step p) (committed w)"
    and sync: "in_sync (payload_document_id p) (committed w)"
  shows "in_sync (payload_document_id p) (committed (snd (handle cfg dr (payload_step p) p w)))"
proof (cases "runnable_row (payload_step p) (payload_document_id p) w")
  case None
  with sync show ?thesis by (simp add: handle_def)
next
  case (Some r)
  let ?d = "payload_document_id p" and ?s = "payload_step p"
  obtain row1 w1 r1 where mr: "mark_running ?s ?d r w = (row1, w1)"
    and mv: "step_move cfg (committed w) r r1 [step_event ?s RUNNING]" "committed w1 = put_step r1 (committed w)"
    and r1: "clean w1" "pipeline_ok cfg (committed w1)" "r1 \<in> set (pipeline_steps (committed w1))" "loaded_from r1 row1"
    "st_document_id r1 = ?d" "st_name r1 = ?s" "st_status r1 = RUNNING" "fresh_job dr (payload_step p) (committed w1)"
    by (rule handle_started [OF clean ok att msg fresh Some])
  have sync1: "in_sync ?d (committed w1)"
    using in_sync_move [OF ok mv(1) runnable_rowD(3) [OF clean ok Some]] sync r1(7) mv(2) by (simp add: quiet_def)
  show ?thesis
  proof (cases "run_step dr ?s (AList.update ?s row1 (load_steps ?d w))")
    case (Inl e)
    with on_failure_in_sync [OF r1(1,2) att r1(3,4,5,7) sync1] Some mr
    show ?thesis by (simp add: handle_def Let_def case_prod_beta)
  next
    case (Inr out)
    obtain row2 r2 w2 ev where so: "save_output ?s ?d row1 out w1 = (row2, w2)"
      and mv2: "step_move cfg (committed w1) r1 r2 [ev]" "loaded_from r2 row2" "committed w2 = put_step r2 (committed w1)"
      and r2: "clean w2" "pipeline_ok cfg (committed w2)" "r2 \<in> set (pipeline_steps (committed w2))" "st_document_id r2 = ?d"
        "st_name r2 = ?s" "st_status r2 = (if ?s = EXTERNAL_CALL then AWAITING_CALLBACK else DONE)"
      by (rule handle_saved [OF r1(1,2) att r1(3-7) Inr r1(8)])
    have sync2: "in_sync ?d (committed w2)"
      using in_sync_move [OF r1(2) mv2(1) r1(3)] sync1 r2(5,6) mv2(3) by (simp add: quiet_def)
    have status: "st_status row2 = st_status r2" by (rule loaded_fromD(4) [OF mv2(2)])
    note ref3 = refines_trigger_successors [OF r2(1,2) att r2(3,4)]
    have sync3: "in_sync ?d (committed (snd (trigger_successors PIPELINE ?d w2)))"
      using trigger_successors_in_sync [OF r2(1,2) att r2(3,4)] sync2 by simp
    show ?thesis
      using sync2 sync3 recompute_in_sync [OF refines_clean [OF ref3] refines_ok [OF ref3 r2(2) att], of ?d ?d]
        Some mr Inr so by (auto simp: handle_def Let_def case_prod_beta split: sum.split)
  qed
qed

lemma callback_in_sync:
  assumes "clean w" "pipeline_ok cfg (committed w)" "1 \<le> step_max_attempts cfg" "delivery_guard parse_body dr body w"
    and "e \<in> delivery_documents parse_body body" "in_sync e (committed w)"
  shows "in_sync e (committed (snd (callback cfg parse_body dr body w)))"
proof -
  from assms(5) obtain p where p: "parse_body body = Some p" "e = payload_document_id p"
    by (auto simp: delivery_documents_def split: option.splits)
  with assms(4) have "deliverable p (committed w)" "fresh_job dr (payload_step p) (committed w)" by (simp_all add: delivery_guard_def)
  note ref = refines_handle [OF assms(1-3) this] and sync = handle_in_sync [OF assms(1-3) this]
  have eq: "snd (handle_in_session cfg dr p w) = snd (handle cfg dr (payload_step p) p w)"
    by (rule handle_in_session_refines [OF assms(1) ref])
  with session_scope_refines [where body = "handle_in_session cfg dr p", OF assms(1)] ref sync assms(6) p
  show ?thesis by (simp add: callback_def case_prod_beta)
qed

subsection \<open>The other operations\<close>

lemma refines_in_sync:
  assumes "refines cfg D w w'" "e \<notin> D"
  shows "in_sync e (committed w') = in_sync e (committed w)"
  by (rule in_sync_same [OF refines_same [OF assms]])

lemma reap_callbacks_in_sync:
  assumes "clean w" "pipeline_ok cfg (committed w)" and att: "1 \<le> step_max_attempts cfg"
    and "\<forall>q \<in> set rows. q \<in> set (pipeline_steps (committed w)) \<and> st_status q = AWAITING_CALLBACK"
    and "distinct rows" and "in_sync e (committed w)"
  shows "in_sync e (committed (snd (reap_callbacks rows acted w)))"
  using assms
proof (induction rows arbitrary: acted w)
  case (Cons q rows)
  have q: "q \<in> set (pipeline_steps (committed w))" "st_status q \<in> {QUEUED, RUNNING, AWAITING_CALLBACK}"
    using Cons.prems(4) by simp_all
  let ?w = "reaper_fail q ''partner callback timeout'' w"
  note fail = reaper_fail_db [OF Cons.prems(1,2) att q, where reason = "''partner callback timeout''"]
  have rest: "\<forall>p \<in> set rows. p \<in> set (pipeline_steps (committed ?w)) \<and> st_status p = AWAITING_CALLBACK"
    using fail(2) Cons.prems(4,5) by (metis distinct.simps(2) list.set_intros(2))
  have "in_sync e (committed ?w)"
    using fail(3) refines_in_sync [OF fail(1), of e] Cons.prems(6) by (cases "e = st_document_id q") simp_all
  from Cons.IH [OF refines_clean [OF fail(1)] refines_ok [OF fail(1) Cons.prems(2) att] att rest _ this] Cons.prems(5)
  show ?case by simp
qed simp

lemma iteration_in_sync:
  assumes clean: "clean w" and ok: "pipeline_ok cfg (committed w)" and att: "1 \<le> step_max_attempts cfg"
    and sync: "in_sync e (committed w)"
  shows "in_sync e (committed (iteration cfg w))"
proof -
  define stale where "stale = lock_stale_steps [QUEUED, RUNNING] (clock w - microseconds (step_timeout_seconds cfg)) w"
  obtain res w1 where loop: "reap_in_flight cfg stale 0 w = (res, w1)" by force
  have "\<forall>q \<in> set stale. q \<in> set (pipeline_steps (committed w)) \<and> st_status q \<in> {QUEUED, RUNNING}"
    using clean by (auto simp: stale_def lock_stale_steps_def clean_def)
  from refines_reap_in_flight [OF clean ok att this, of 0] loop
  have ref1: "refines cfg {} w w1" and same: "committed w1 = committed w" by simp_all
  define stuck where "stuck = lock_stale_steps [AWAITING_CALLBACK]
    (clock w - microseconds (callback_sla_seconds cfg)) (commit w1)"
  have w1: "clean (commit w1)" "committed (commit w1) = committed w"
    using refines_clean [OF ref1] same by (simp_all add: clean_def)
  have "\<forall>q \<in> set stuck. q \<in> set (pipeline_steps (committed (commit w1))) \<and> st_status q = AWAITING_CALLBACK"
    by (auto simp: stuck_def lock_stale_steps_def)
  moreover have "distinct stuck"
    using schema_okD(2) [OF pipeline_okD(1) [OF ok]] w1(2)
    by (simp add: stuck_def lock_stale_steps_def distinct_map)
  ultimately have "in_sync e (committed (snd (reap_callbacks stuck acted (commit w1))))" for acted
    using reap_callbacks_in_sync [OF w1(1) _ att, of stuck e] ok sync w1(2) by simp
  with sync same have "in_sync e (committed (snd (run_once cfg w)))"
    using loop by (auto simp: run_once_def stale_def stuck_def Let_def case_prod_beta split: sum.split)
  with refines_run_once [OF clean ok att] session_scope_refines [where body = "run_once cfg", OF clean]
  show ?thesis by (simp add: iteration_def)
qed

lemma webhook_in_sync:
  assumes clean: "clean w" and ok: "pipeline_ok cfg (committed w)" and att: "1 \<le> step_max_attempts cfg"
    and sync: "in_sync e (committed w)"
  shows "in_sync e (committed (snd (apply_partner_result parse_json new_id raw p w)))"
proof (cases "parse_json raw")
  case None
  with sync show ?thesis by (simp add: apply_partner_result_def)
next
  case (Some body)
  let ?w1 = "record_webhook new_id (wp_job_id p) body w"
  note rec = record_webhook_db [OF clean ok, of new_id "wp_job_id p" body]
  note clean1 = refines_clean [OF rec(1)] and ok1 = refines_ok [OF rec(1) ok att]
  have work1: "working ?w1 = committed ?w1" using clean1 by (simp add: clean_def)
  have sync1: "in_sync e (committed ?w1)" using refines_in_sync [OF rec(1), of e] sync by simp
  show ?thesis
  proof (cases "\<exists>step. get_step_by_job_id (wp_job_id p) ?w1 = Inr (Some step) \<and> st_status step \<notin> {DONE, ERROR}")
    case False
    then have "snd (apply_partner_result parse_json new_id raw p w) = ?w1"
      using Some by (auto simp: apply_partner_result_def Let_def split: sum.split option.split)
    with sync1 show ?thesis by simp
  next
    case True
    then obtain step where step: "get_step_by_job_id (wp_job_id p) ?w1 = Inr (Some step)"
      "st_status step \<notin> {DONE, ERROR}" by blast
    note row = get_step_by_job_id_row [OF ok1 [folded work1] step(1), unfolded work1]
    have "st_status step = AWAITING_CALLBACK" using row(4) step(2) by auto
    from partner_commit_db [OF clean1 ok1 row(1,3) this] have
      ref: "refines cfg {st_document_id step} ?w1 (partner_commit p step ?w1)" by blast
    have "in_sync e (committed (snd (recompute_document_status (st_document_id step) (partner_commit p step ?w1))))"
      unfolding recompute_in_sync [OF refines_clean [OF ref] refines_ok [OF ref ok1 att]]
      using refines_in_sync [OF ref, of e] sync1 by auto
    then show ?thesis
      unfolding apply_partner_result_found [where parse_json = parse_json, OF Some step]
      by (simp add: Let_def case_prod_beta)
  qed
qed

lemma upload_in_sync:
  assumes clean: "clean w" and ok: "pipeline_ok cfg (committed w)" and guard: "upload_guard cfg d ids user w"
  shows "in_sync d (committed (snd (upload_document cfg abspath d ids user filename data w)))"
proof -
  from guard have fresh: "fresh_ids d ids (committed w)" and user: "user \<in> set (app_users (committed w))"
    by (simp_all add: upload_guard_def)
  obtain name where db: "committed (snd (upload_document cfg abspath d ids user filename data w)) =
      uploaded cfg abspath d ids user name (clock w) (committed w)"
    using upload_document_db(2) [OF assms] by blast
  let ?db = "uploaded cfg abspath d ids user name (clock w) (committed w)"
  have status: "status_of d s ?db = Some (if s = OCR then QUEUED else PENDING)" for s
    using find_step_add_document [OF pipeline_okD(1) [OF ok] fresh]
    by (simp add: uploaded_def status_of_def new_step_def)
  have sch: "schema_ok ?db"
    unfolding uploaded_def
    by (rule schema_ok_add_document [OF pipeline_okD(1) [OF ok] user fresh]) (simp_all add: new_document_def)
  have "find_document d (committed w) = None"
    using fresh by (auto simp: find_document_def find_None_iff fresh_ids_def)
  then have "\<exists>q. find_document d ?db = Some q \<and> doc_status q = PROCESSING"
    by (simp add: uploaded_def add_document_def find_document_def find_append new_document_def)
  then show ?thesis
    unfolding db in_sync_def derive_status [OF sch] using status by auto
qed


subsection \<open>The contract, extended\<close>

locale synced_operation = pipeline_operation +
  assumes sync: "clean w \<Longrightarrow> pipeline_ok cfg (committed w) \<Longrightarrow> guard w \<Longrightarrow> e \<in> docs w \<Longrightarrow>
    in_sync e (committed w) \<Longrightarrow> in_sync e (committed (run w))"
begin

lemma keeps_sync:
  assumes "clean w" "pipeline_ok cfg (committed w)" "guard w" "in_sync e (committed w)"
  shows "in_sync e (committed (run w))"
proof (cases "e \<in> docs w")
  case True
  with sync assms show ?thesis by blast
next
  case False
  with in_sync_same [OF frame [OF assms(1-3)]] assms(4) show ?thesis by simp
qed

end

interpretation worker_sync: synced_operation cfg
    "\<lambda>w. 1 \<le> step_max_attempts cfg \<and> delivery_guard parse_body dr body w"
    "\<lambda>w. delivery_documents parse_body body"
    "\<lambda>w. snd (callback cfg parse_body dr body w)"
  for cfg parse_body dr body
  by unfold_locales (auto intro: callback_in_sync)

interpretation reaper_sync: synced_operation cfg "\<lambda>w. 1 \<le> step_max_attempts cfg"
    "reaper_documents cfg" "iteration cfg" for cfg
  by unfold_locales (auto intro: iteration_in_sync)

lemma partner_webhook_in_sync:
  assumes "clean w" "pipeline_ok cfg (committed w)" "1 \<le> step_max_attempts cfg" "in_sync e (committed w)"
  shows "in_sync e (committed (snd (partner_webhook cfg hmac_sha256 parse_json parse_datetime new_id raw signature w)))"
proof -
  have "session_scope (apply_partner_result parse_json new_id raw p) w = apply_partner_result parse_json new_id raw p w" for p
    by (rule session_scope_refines [where body = "apply_partner_result parse_json new_id raw p", OF assms(1)
        refines_apply_partner_result [where p = p, OF assms(1-3)]])
  with webhook_in_sync [OF assms] assms(4) show ?thesis
    by (simp add: partner_webhook_def case_prod_beta split: sum.split option.split bool.split)
qed

interpretation webhook_sync: synced_operation cfg "\<lambda>w. 1 \<le> step_max_attempts cfg"
    "\<lambda>w. webhook_documents parse_json parse_datetime raw (committed w)"
    "\<lambda>w. snd (partner_webhook cfg hmac_sha256 parse_json parse_datetime new_id raw signature w)"
  for cfg hmac_sha256 parse_json parse_datetime new_id raw signature
  by unfold_locales (auto intro: partner_webhook_in_sync)

interpretation upload_sync: synced_operation cfg "upload_guard cfg d ids user" "\<lambda>w. {d}"
    "\<lambda>w. snd (upload_document cfg abspath d ids user filename data w)"
  for cfg d ids user abspath filename data
  by unfold_locales (auto intro: upload_in_sync)

end
