(* ===== verification/SystemRuns.thy ===== *)
theory SystemRuns
  imports DocumentStatus "HOL-Library.Multiset"
begin

section \<open>The whole system: operations, redeliveries, crashes\<close>

text \<open>
  Any sequence of operations of the four processes (API, worker, reaper, the partner calling
  back), one at a time, with the messages that the broker holds. A message leaves the broker
  only when a worker acknowledges it (or when the broker drops it to the dead-letter queue);
  a worker that dies leaves its message there. An operation may die after any number of its
  visible effects (\<open>crash\<close>): the commits it had made stay, the rest is lost. The broker may
  refuse any publication (the \<open>faults\<close> of the world), and the clock is arbitrary.
\<close>

record deployment =
  env_settings :: settings
  env_abspath :: "string \<Rightarrow> string"
  env_hmac :: "string \<Rightarrow> string \<Rightarrow> string"
  env_parse_json :: "string \<Rightarrow> json option"
  env_parse_datetime :: "json \<Rightarrow> timestamp option"
  env_parse_body :: "string \<Rightarrow> payload option"

datatype operation =
    Deliver draws string
  | Scan
  | PartnerCall uuid string "string option"
  | Upload uuid "step_name \<Rightarrow> uuid" app_user "string option" string

fun run_operation :: "deployment \<Rightarrow> operation \<Rightarrow> world \<Rightarrow> world" where
  "run_operation env (Deliver dr body) w = snd (callback (env_settings env) (env_parse_body env) dr body w)"
| "run_operation env Scan w = iteration (env_settings env) w"
| "run_operation env (PartnerCall new_id raw signature) w =
     snd (partner_webhook (env_settings env) (env_hmac env) (env_parse_json env) (env_parse_datetime env)
       new_id raw signature w)"
| "run_operation env (Upload d ids user filename data) w =
     snd (upload_document (env_settings env) (env_abspath env) d ids user filename data w)"

text \<open>The message that the operation takes off the broker when it ends.\<close>

fun acknowledged :: "deployment \<Rightarrow> operation \<Rightarrow> world \<Rightarrow> payload multiset" where
  "acknowledged env (Deliver dr body) w =
     (case env_parse_body env body of
        None \<Rightarrow> {#}
      | Some p \<Rightarrow> if fst (callback (env_settings env) (env_parse_body env) dr body w) = BasicAck then {#p#} else {#})"
| "acknowledged env _ w = {#}"

text \<open>What the environment guarantees: a delivered message is one that the broker holds (or
  one that does not parse), the partner's job identifiers and the drawn primary keys are new,
  and the uploader is a user.\<close>

fun enabled :: "deployment \<Rightarrow> operation \<Rightarrow> world \<Rightarrow> payload multiset \<Rightarrow> bool" where
  "enabled env (Deliver dr body) w M =
     (case env_parse_body env body of None \<Rightarrow> True
      | Some p \<Rightarrow> p \<in># M \<and> fresh_job dr (payload_step p) (committed w))"
| "enabled env Scan w M = True"
| "enabled env (PartnerCall new_id raw signature) w M = True"
| "enabled env (Upload d ids user filename data) w M =
     (user \<in> set (app_users (committed w)) \<and> fresh_ids d ids (committed w))"

definition new_effects :: "world \<Rightarrow> world \<Rightarrow> effect list" where
  "new_effects w w' = drop (length (trace w)) (trace w')"

text \<open>The world after a process died when the first effects of its operation were visible.\<close>

definition crashed :: "world \<Rightarrow> effect list \<Rightarrow> (string \<times> string) list \<Rightarrow> world" where
  "crashed w es files = w\<lparr>committed := final_db (committed w) es, working := final_db (committed w) es,
     pending := [], trace := trace w @ es, disk := files\<rparr>"

inductive system_step :: "deployment \<Rightarrow> world \<times> payload multiset \<Rightarrow> world \<times> payload multiset \<Rightarrow> bool"
  for env where
  complete: "w = v\<lparr>clock := now, faults := fs\<rparr> \<Longrightarrow> enabled env op w M \<Longrightarrow> w' = run_operation env op w \<Longrightarrow>
    system_step env (v, M) (w', M - acknowledged env op w + mset (sent_of (new_effects w w')))"
| crash: "w = v\<lparr>clock := now, faults := fs\<rparr> \<Longrightarrow> enabled env op w M \<Longrightarrow>
    es = take n (new_effects w (run_operation env op w)) \<Longrightarrow>
    files = disk (run_operation env op w) \<or> es = [] \<and> files = disk w \<Longrightarrow>
    system_step env (v, M) (crashed w es files, M + mset (sent_of es))"
| dead_letter: "p \<in># M \<Longrightarrow> system_step env (v, M) (v, M - {#p#})"

definition initial :: "world \<times> payload multiset \<Rightarrow> bool" where
  "initial s \<longleftrightarrow> (case s of (w, M) \<Rightarrow> clean w \<and> schema_ok (committed w) \<and> documents (committed w) = [] \<and>
     trace w = [] \<and> M = {#})"

text \<open>The invariant of the system.\<close>

definition system_ok :: "deployment \<Rightarrow> world \<times> payload multiset \<Rightarrow> bool" where
  "system_ok env s \<longleftrightarrow> (case s of (w, M) \<Rightarrow> clean w \<and> pipeline_ok (env_settings env) (committed w) \<and>
     (\<forall>p \<in> set_mset M. deliverable p (committed w)))"

subsection \<open>Prefixes of an operation\<close>

lemma deliverable_path:
  assumes "effect_path cfg db es" "pipeline_ok cfg db" "1 \<le> step_max_attempts cfg" "deliverable p db"
  shows "deliverable p (final_db db es)"
proof -
  from assms(4) obtain st where "status_of (payload_document_id p) (payload_step p) db = Some st" "st \<noteq> PENDING"
    by (auto simp: deliverable_def status_of_def)
  from effect_path_left_pending [OF assms(1-3) this] show ?thesis
    by (auto simp: deliverable_def status_of_def)
qed

lemma effect_path_sent:
  assumes "effect_path cfg db es" "pipeline_ok cfg db" "1 \<le> step_max_attempts cfg" "p \<in> set (sent_of es)"
  shows "deliverable p (final_db db es)"
  using assms
proof (induction cfg db es rule: effect_path.induct)
  case (2 cfg db q es)
  then show ?case using deliverable_path [of cfg db es p] by auto
next
  case (3 cfg db db' ns es)
  then show ?case using pipeline_ok_tx [of cfg db db' ns] by simp
qed simp

lemma effect_path_take: "effect_path cfg db es \<Longrightarrow> effect_path cfg db (take n es)"
  using effect_path_append [of cfg db "take n es" "drop n es"] by (simp del: effect_path_append)

text \<open>Each operation is a \<open>synced_operation\<close> of its interpretation.\<close>

fun touched :: "deployment \<Rightarrow> operation \<Rightarrow> world \<Rightarrow> uuid set" where
  "touched env (Deliver dr body) w = delivery_documents (env_parse_body env) body"
| "touched env Scan w = reaper_documents (env_settings env) w"
| "touched env (PartnerCall new_id raw signature) w =
     webhook_documents (env_parse_json env) (env_parse_datetime env) raw (committed w)"
| "touched env (Upload d ids user filename data) w = {d}"

lemma run_operation_refines:
  assumes "clean w" "pipeline_ok (env_settings env) (committed w)" "1 \<le> step_max_attempts (env_settings env)"
    and "enabled env op w M" "\<forall>p \<in> set_mset M. deliverable p (committed w)"
  shows "refines (env_settings env) (touched env op w) w (run_operation env op w)"
proof (cases op)
  case (Deliver dr body)
  with assms(4,5) have "delivery_guard (env_parse_body env) dr body w"
    by (auto simp: delivery_guard_def split: option.splits)
  with Deliver assms show ?thesis by (simp add: worker.refines)
next
  case Scan
  with assms show ?thesis by (simp add: reaper.refines)
next
  case (PartnerCall new_id raw signature)
  with assms show ?thesis by (simp add: webhook.refines)
next
  case (Upload d ids user filename data)
  with assms show ?thesis by (simp add: upload.refines upload_guard_def)
qed

lemma run_operation_in_sync:
  assumes "clean w" "pipeline_ok (env_settings env) (committed w)" "1 \<le> step_max_attempts (env_settings env)"
    and "enabled env op w M" "\<forall>p \<in> set_mset M. deliverable p (committed w)" "in_sync e (committed w)"
  shows "in_sync e (committed (run_operation env op w))"
proof (cases op)
  case (Deliver dr body)
  with assms(4,5) have "delivery_guard (env_parse_body env) dr body w"
    by (auto simp: delivery_guard_def split: option.splits)
  with Deliver assms show ?thesis by (simp add: worker_sync.keeps_sync)
next
  case Scan
  with assms show ?thesis by (simp add: reaper_sync.keeps_sync)
next
  case (PartnerCall new_id raw signature)
  with assms show ?thesis by (simp add: webhook_sync.keeps_sync)
next
  case (Upload d ids user filename data)
  with assms show ?thesis by (simp add: upload_sync.keeps_sync upload_guard_def)
qed

text \<open>A step of the system extends the trace by a path of transactions and keeps the invariant.\<close>

lemma system_step_path:
  assumes "system_step env (v, M) (v', M')" and att: "1 \<le> step_max_attempts (env_settings env)"
    and inv: "system_ok env (v, M)"
  shows "\<exists>es. trace v' = trace v @ es \<and> effect_path (env_settings env) (committed v) es \<and>
      final_db (committed v) es = committed v' \<and> clean v' \<and>
      set_mset M' \<subseteq> set_mset M \<union> set (sent_of es)"
  using assms(1)
proof (cases rule: system_step.cases)
  case (complete w now fs op)
  then have w: "clean w" "pipeline_ok (env_settings env) (committed w)" "\<forall>p \<in> set_mset M. deliverable p (committed w)"
    "trace w = trace v" "committed w = committed v"
    using inv by (simp_all add: system_ok_def clean_def)
  from refinesE [OF run_operation_refines [OF w(1,2) att complete(3) w(3)]] obtain es where
    es: "trace v' = trace w @ es" "effect_path (env_settings env) (committed w) es" "final_db (committed w) es = committed v'"
    using complete by metis
  have "clean v'" using refines_clean [OF run_operation_refines [OF w(1,2) att complete(3) w(3)]] complete by simp
  moreover have "set_mset M' \<subseteq> set_mset M \<union> set (sent_of es)"
    using complete(1) es(1) by (auto simp: new_effects_def dest: in_diffD)
  ultimately show ?thesis using es w by auto
next
  case (crash w now fs op es n files)
  then have w: "clean w" "pipeline_ok (env_settings env) (committed w)" "\<forall>p \<in> set_mset M. deliverable p (committed w)"
    "trace w = trace v" "committed w = committed v"
    using inv by (simp_all add: system_ok_def clean_def)
  from refinesE [OF run_operation_refines [OF w(1,2) att crash(4) w(3)]] obtain fs where
    fs: "trace (run_operation env op w) = trace w @ fs" "effect_path (env_settings env) (committed w) fs" by metis
  then have "es = take n fs" using crash by (simp add: new_effects_def)
  with effect_path_take [OF fs(2), of n] crash w show ?thesis
    by (intro exI [of _ es]) (auto simp: crashed_def clean_def)
next
  case (dead_letter p)
  then show ?thesis using inv by (intro exI [of _ "[]"]) (auto simp: system_ok_def dest: in_diffD)
qed

lemma system_step_ok:
  assumes "system_step env s s'" "1 \<le> step_max_attempts (env_settings env)" "system_ok env s"
  shows "system_ok env s'"
proof -
  obtain v M where s: "s = (v, M)" by force
  obtain v' M' where s': "s' = (v', M')" by force
  have inv: "pipeline_ok (env_settings env) (committed v)" "\<forall>p \<in> set_mset M. deliverable p (committed v)"
    using assms(3) by (simp_all add: system_ok_def s)
  from system_step_path [OF assms [unfolded s s']] obtain es where
    es: "effect_path (env_settings env) (committed v) es" "final_db (committed v) es = committed v'" "clean v'"
      "set_mset M' \<subseteq> set_mset M \<union> set (sent_of es)" by blast
  have "pipeline_ok (env_settings env) (committed v')"
    using effect_path_ok [OF es(1) inv(1) assms(2)] es(2) by simp
  moreover have "\<forall>p \<in> set_mset M'. deliverable p (committed v')"
    using deliverable_path [OF es(1) inv(1) assms(2)] effect_path_sent [OF es(1) inv(1) assms(2)] inv(2) es(2,4)
    by (metis UnE subsetD)
  ultimately show ?thesis using es(3) by (simp add: system_ok_def s')
qed


subsection \<open>Reachable states\<close>

lemma initial_ok: "initial s \<Longrightarrow> system_ok env s"
proof -
  assume init: "initial s"
  obtain w M where s: "s = (w, M)" by force
  have none: "pipeline_steps (committed w) = []"
    using init schema_okD(6) [of "committed w"] by (cases "pipeline_steps (committed w)") (auto simp: s initial_def)
  with init show ?thesis
    by (simp add: s initial_def system_ok_def pipeline_ok_def in_order_def four_steps_def jobs_unique_def)
qed

lemma system_steps_ok:
  assumes "(system_step env)\<^sup>*\<^sup>* s s'" "1 \<le> step_max_attempts (env_settings env)" "system_ok env s"
  shows "system_ok env s'"
  using assms by (induction rule: rtranclp_induct) (auto intro: system_step_ok)

text \<open>The whole run is one path of transactions.\<close>

lemma system_steps_path:
  assumes "(system_step env)\<^sup>*\<^sup>* s s'" "1 \<le> step_max_attempts (env_settings env)" "system_ok env s"
  shows "\<exists>es. trace (fst s') = trace (fst s) @ es \<and> effect_path (env_settings env) (committed (fst s)) es \<and>
      final_db (committed (fst s)) es = committed (fst s')"
  using assms(1)
proof (induction rule: rtranclp_induct)
  case base
  show ?case by (rule exI [of _ "[]"]) simp
next
  case (step t u)
  from step.IH obtain es where es: "trace (fst t) = trace (fst s) @ es"
    "effect_path (env_settings env) (committed (fst s)) es" "final_db (committed (fst s)) es = committed (fst t)" by blast
  obtain v M v' M' where tu: "t = (v, M)" "u = (v', M')" by (cases t; cases u)
  have "system_ok env (v, M)" using system_steps_ok [OF step.hyps(1) assms(2,3)] by (simp add: tu)
  from system_step_path [OF step.hyps(2) [unfolded tu] assms(2) this] obtain fs where
    "trace v' = trace v @ fs" "effect_path (env_settings env) (committed v) fs" "final_db (committed v) fs = committed v'"
    by blast
  with es show ?case by (intro exI [of _ "es @ fs"]) (simp add: tu)
qed

subsection \<open>Runs without a crash\<close>

inductive smooth_step :: "deployment \<Rightarrow> world \<times> payload multiset \<Rightarrow> world \<times> payload multiset \<Rightarrow> bool"
  for env where
  complete: "w = v\<lparr>clock := now, faults := fs\<rparr> \<Longrightarrow> enabled env op w M \<Longrightarrow> w' = run_operation env op w \<Longrightarrow>
    smooth_step env (v, M) (w', M - acknowledged env op w + mset (sent_of (new_effects w w')))"
| dead_letter: "p \<in># M \<Longrightarrow> smooth_step env (v, M) (v, M - {#p#})"

lemma smooth_step_system_step: "smooth_step env s s' \<Longrightarrow> system_step env s s'"
  by (induction rule: smooth_step.induct) (auto intro: system_step.complete system_step.dead_letter)

lemma smooth_step_in_sync:
  assumes "smooth_step env s s'" "1 \<le> step_max_attempts (env_settings env)" "system_ok env s"
    and "in_sync e (committed (fst s))"
  shows "in_sync e (committed (fst s'))"
  using assms
proof (induction rule: smooth_step.induct)
  case (complete w v now fs op M w')
  then have "clean w" "pipeline_ok (env_settings env) (committed w)" "\<forall>p \<in> set_mset M. deliverable p (committed w)"
    "in_sync e (committed w)"
    by (simp_all add: system_ok_def clean_def)
  with run_operation_in_sync [of w env op M e] complete show ?case by simp
qed simp

lemma smooth_steps_in_sync:
  assumes "(smooth_step env)\<^sup>*\<^sup>* s s'" "1 \<le> step_max_attempts (env_settings env)" "system_ok env s"
    and "\<forall>e. in_sync e (committed (fst s))"
  shows "system_ok env s' \<and> (\<forall>e. in_sync e (committed (fst s')))"
  using assms
proof (induction rule: rtranclp_induct)
  case (step t u)
  then have "system_ok env t" "\<forall>e. in_sync e (committed (fst t))" by simp_all
  with step.hyps(2) assms(2) show ?case
    by (auto intro: smooth_step_in_sync system_step_ok [OF smooth_step_system_step])
qed simp

subsection \<open>Frames through the system\<close>

text \<open>A step of the system that touches none of the document's rows leaves them as they are.\<close>

lemma same_document_path:
  assumes "refines cfg D w w'" "e \<notin> D" "es = take n (new_effects w w')"
  shows "same_document e (committed w) (final_db (committed w) es)"
proof -
  from refinesE [OF assms(1)] obtain fs where fs: "trace w' = trace w @ fs"
    "\<And>db'. db' \<in> set (committed_of fs) \<Longrightarrow> same_document e (committed w) db'" using assms(2) by metis
  have "set (committed_of (take n fs)) \<subseteq> set (committed_of fs)"
    by (meson in_set_takeD mem_committed_of subsetI)
  with fs final_db_cases [of "committed w" es] assms(3) show ?thesis
    by (auto simp: new_effects_def)
qed

text \<open>A document whose first step is done and whose other steps were never triggered.\<close>

definition stranded :: "uuid \<Rightarrow> database \<Rightarrow> bool" where
  "stranded d db \<longleftrightarrow> (\<forall>s. status_of d s db = Some (if s = OCR then DONE else PENDING))"

lemma stranded_same: "same_document d db db' \<Longrightarrow> stranded d db' = stranded d db"
proof -
  assume same: "same_document d db db'"
  have "status_of d s db' = status_of d s db" for s
    using same find_steps_of [of s d db] find_steps_of [of s d db'] by (simp add: same_document_def status_of_def)
  then show ?thesis by (simp add: stranded_def)
qed

lemma stranded_untouched:
  assumes "clean w" "pipeline_ok (env_settings env) (committed w)"
    and "enabled env op w M" "\<forall>p \<in> set_mset M. deliverable p (committed w)" "stranded d (committed w)"
    and "\<And>dr body. op = Deliver dr body \<Longrightarrow> d \<notin> touched env op w"
  shows "d \<notin> touched env op w"
proof (cases op)
  case (Deliver dr body)
  with assms(6) show ?thesis .
next
  case Scan
  have work: "working w = committed w" using assms(1) by (simp add: clean_def)
  have "st_status r \<noteq> AWAITING_CALLBACK" if "r \<in> set (pipeline_steps (committed w))" "st_document_id r = d" for r
    using status_of_row [OF pipeline_okD(1) [OF assms(2)] that(1)] that(2) assms(5)
    by (auto simp: stranded_def split: if_splits)
  then show ?thesis by (auto simp: Scan reaper_documents_def lock_stale_steps_def work)
next
  case (PartnerCall new_id raw signature)
  have "st_external_job_id r = None" if "r \<in> set (pipeline_steps (committed w))" "st_document_id r = d" for r
    using status_of_row [OF pipeline_okD(1) [OF assms(2)] that(1)] that(2) assms(5) pipeline_okD(5) [OF assms(2) that(1)]
    by (auto simp: stranded_def step_row_ok_def split: if_splits)
  then show ?thesis
    by (auto simp: PartnerCall webhook_documents_def job_documents_def split: option.splits)
next
  case (Upload e ids user filename data)
  have "find_step d OCR (committed w) \<noteq> None" using assms(5) by (auto simp: stranded_def status_of_def)
  then obtain r where "r \<in> set (pipeline_steps (committed w))" "st_document_id r = d"
    using find_step_iff [OF pipeline_okD(1) [OF assms(2)]] by blast
  with schema_okD(6) [OF pipeline_okD(1) [OF assms(2)]] assms(3) Upload show ?thesis
    by (auto simp: fresh_ids_def)
qed

text \<open>A delivery for a stranded document is for its finished first step, and does nothing.\<close>

lemma stranded_delivery:
  assumes "clean w" "pipeline_ok (env_settings env) (committed w)" "stranded d (committed w)"
    and "\<forall>p \<in> set_mset M. deliverable p (committed w)" "enabled env (Deliver dr body) w M"
    and "d \<in> touched env (Deliver dr body) w"
  shows "run_operation env (Deliver dr body) w = w"
proof -
  from assms(6) obtain p where p: "env_parse_body env body = Some p" "d = payload_document_id p"
    by (auto simp: delivery_documents_def split: option.splits)
  with assms(4,5) have "deliverable p (committed w)" by simp
  with assms(3) p(2) have ocr: "payload_step p = OCR"
    by (auto simp: deliverable_def stranded_def status_of_def split: if_splits)
  from assms(3) obtain r where r: "find_step d OCR (committed w) = Some r" "st_status r = DONE"
    by (auto simp: stranded_def status_of_def split: if_splits dest: spec [of _ OCR])
  then have "runnable_row OCR d w = None"
    using map_of_load_steps [OF assms(1,2), of d OCR] by (simp add: runnable_row_def TERMINAL_FOR_RUN_def)
  with p ocr assms(1) show ?thesis
    by (simp add: callback_def session_scope_def handle_in_session_def handle_def case_prod_beta)
qed

lemma system_step_stranded:
  assumes "system_step env (v, M) (v', M')" "1 \<le> step_max_attempts (env_settings env)" "system_ok env (v, M)"
    and "stranded d (committed v)"
  shows "stranded d (committed v')"
proof -
  have inert: "stranded d (final_db (committed w) (take n (new_effects w (run_operation env op w)))) \<and>
      stranded d (committed (run_operation env op w))"
    if w: "w = v\<lparr>clock := now, faults := fs\<rparr>" "enabled env op w M" for w now fs op n
  proof -
    have inv: "clean w" "pipeline_ok (env_settings env) (committed w)" "\<forall>p \<in> set_mset M. deliverable p (committed w)"
      "stranded d (committed w)"
      using assms(3,4) w(1) by (simp_all add: system_ok_def clean_def)
    note ref = run_operation_refines [OF inv(1,2) assms(2) w(2) inv(3)]
    show ?thesis
    proof (cases "d \<in> touched env op w")
      case False
      from stranded_same [OF same_document_path [OF ref False refl]] stranded_same [OF refines_same [OF ref False]] inv(4)
      show ?thesis by simp
    next
      case True
      then obtain dr body where op: "op = Deliver dr body"
        using stranded_untouched [OF inv(1,2) w(2) inv(3,4)] by blast
      have "run_operation env op w = w"
        using stranded_delivery [OF inv(1,2,4,3)] w(2) True unfolding op by blast
      with inv(4) show ?thesis by (simp add: new_effects_def)
    qed
  qed
  from assms(1) show ?thesis
  proof (cases rule: system_step.cases)
    case (complete w now fs op)
    with inert show ?thesis by blast
  next
    case (crash w now fs op es n files)
    with inert [of w now fs op n] show ?thesis by (simp add: crashed_def)
  next
    case (dead_letter p)
    with assms(4) show ?thesis by simp
  qed
qed

end
