(* ===== verification/Progress.thy ===== *)
theory Progress
  imports SystemRuns
begin

section \<open>What a delivery achieves\<close>

text \<open>
  The functional behaviour of a delivered message, on the statuses of the four steps: the
  exact effect of a run that succeeds (the step finishes, its ready successors are queued and
  their messages sent), of one that fails, and of one that has nothing to do.
\<close>

subsection \<open>A step fails only by itself\<close>

lemma row_exists:
  assumes "pipeline_ok cfg db" "find_step d t db \<noteq> None"
  shows "find_step d s db \<noteq> None"
proof -
  from assms(2) obtain r where "r \<in> set (pipeline_steps db)" "st_document_id r = d"
    using find_step_iff [OF pipeline_okD(1) [OF assms(1)]] by blast
  with row_of_document [OF assms(1)] show ?thesis by blast
qed

lemma done_row:
  assumes "pipeline_ok cfg db" "status_of d s db = Some DONE"
  obtains r j where "find_step d s db = Some r" "st_status r = DONE" "st_result r = Some j" "result_shape s j"
    and "st_document_id r = d"
proof -
  from assms(2) obtain r where r: "find_step d s db = Some r" "st_status r = DONE"
    by (auto simp: status_of_def)
  then have "r \<in> set (pipeline_steps db)" "st_document_id r = d" "st_name r = s"
    using find_step_iff [OF pipeline_okD(1) [OF assms(1)]] by auto
  with pipeline_okD(5) [OF assms(1) this(1)] r show ?thesis
    by (auto simp: step_row_ok_def intro: that)
qed

lemma loaded_update:
  assumes "clean w" "pipeline_ok cfg (committed w)"
  shows "map_of (AList.update s row1 (load_steps d w)) t = (if t = s then Some row1 else find_step d t (committed w))"
  using map_of_load_steps [OF assms] by (simp add: update_conv')

text \<open>The inputs of a step whose predecessors are done can always be shaped.\<close>

lemma transform_input_ok:
  assumes "clean w" "pipeline_ok cfg (committed w)" "find_step d s (committed w) \<noteq> None"
    and "\<forall>p \<in> parents PIPELINE s. status_of d p (committed w) = Some DONE"
  shows "\<exists>inp. transform_input s (AList.update s row1 (load_steps d w)) = Inr inp \<and>
    (case s of OCR \<Rightarrow> inp = NoInput | EXTERNAL_CALL \<Rightarrow> (\<exists>t m c. inp = CallInput (uuid_str d) t m c)
     | _ \<Rightarrow> (\<exists>t. inp = TextInput t))"
proof -
  note look = loaded_update [OF assms(1,2), of s row1 d]
  have words: "\<exists>r t. find_step d OCR (committed w) = Some r \<and> st_document_id r = d \<and> result_item r ''text'' = Inr (JString t)"
    if "status_of d OCR (committed w) = Some DONE"
    by (rule done_row [OF assms(2) that]) (auto simp: result_item_def)
  have chunks: "\<exists>r c. find_step d CHUNKING (committed w) = Some r \<and> result_item r ''chunks'' = Inr c"
    if "status_of d CHUNKING (committed w) = Some DONE"
    by (rule done_row [OF assms(2) that]) (auto simp: result_item_def)
  have meta: "\<exists>r. find_step d METADATA (committed w) = Some r"
    using row_exists [OF assms(2,3), of METADATA] by auto
  show ?thesis
  proof (cases s)
    case EXTERNAL_CALL
    have chunk_done: "status_of d CHUNKING (committed w) = Some DONE"
      using assms(4) EXTERNAL_CALL by (simp add: enum_simps)
    with chunks obtain rc c where rc: "find_step d CHUNKING (committed w) = Some rc" "result_item rc ''chunks'' = Inr c"
      by blast
    from chunk_done have "parents_done (committed w) rc"
      using pipeline_okD(6) [OF assms(2)] find_step_iff [OF pipeline_okD(1) [OF assms(2)]] rc(1)
      by (auto simp: status_of_def)
    then have "status_of d OCR (committed w) = Some DONE"
      using find_step_iff [OF pipeline_okD(1) [OF assms(2)]] rc(1) by (auto simp: parents_done_def enum_simps)
    from words [OF this] rc meta show ?thesis
      by (auto simp: EXTERNAL_CALL loaded_row_def look [unfolded EXTERNAL_CALL])
  next
    case METADATA
    with words assms(4) show ?thesis by (auto simp: loaded_row_def look [unfolded METADATA] enum_simps)
  next
    case CHUNKING
    with words assms(4) show ?thesis by (auto simp: loaded_row_def look [unfolded CHUNKING] enum_simps)
  qed simp
qed

lemma run_step_fails_iff:
  assumes "clean w" "pipeline_ok cfg (committed w)" "find_step d s (committed w) \<noteq> None"
    and "\<forall>p \<in> parents PIPELINE s. status_of d p (committed w) = Some DONE"
  shows "(\<exists>e. run_step dr s (AList.update s row1 (load_steps d w)) = Inl e) \<longleftrightarrow> step_fails dr"
proof -
  from transform_input_ok [OF assms, of row1] obtain inp where
    inp: "transform_input s (AList.update s row1 (load_steps d w)) = Inr inp"
      "case s of OCR \<Rightarrow> inp = NoInput | EXTERNAL_CALL \<Rightarrow> (\<exists>t m c. inp = CallInput (uuid_str d) t m c)
     | _ \<Rightarrow> (\<exists>t. inp = TextInput t)" by blast
  then show ?thesis
    by (cases s) (auto simp: run_step_def load_input_def ocr_def metadata_def chunking_def external_call_def
        split: if_splits)
qed

subsection \<open>Triggering\<close>

lemma publish_step_up:
  assumes "faults w = []"
  shows "publish_step d s w = (Inr (), w\<lparr>trace := trace w @ [Published \<lparr>payload_document_id = d, payload_step = s\<rparr>]\<rparr>)"
  using assms by (cases w) (simp add: publish_step_def)

lemma claim_step_faults [simp]: "faults (snd (claim_step d s w)) = faults w"
  by (simp add: claim_step_def case_prod_beta)

lemma claim_step_clock [simp]: "clock (snd (claim_step d s w)) = clock w"
  by (simp add: claim_step_def case_prod_beta)

lemma claim_step_trace: "sent_of (trace (snd (claim_step d s w))) = sent_of (trace w)"
  by (simp add: claim_step_def case_prod_beta)

text \<open>A claim turns the row from PENDING to QUEUED, and touches no other row.\<close>

definition queued_at :: "timestamp \<Rightarrow> pipeline_step \<Rightarrow> pipeline_step" where
  "queued_at now r = r\<lparr>st_status := QUEUED, st_updated_at := now\<rparr>"

lemma claim_step_row:
  assumes "clean w" "pipeline_ok cfg (committed w)" "find_step d s (committed w) = Some r"
  shows "find_step e t (committed (snd (claim_step d s w))) =
    (if e = d \<and> t = s \<and> st_status r = PENDING then Some (queued_at (clock w) r) else find_step e t (committed w))"
proof -
  have key: "r \<in> set (pipeline_steps (committed w))" "st_document_id r = d" "st_name r = s"
    using assms(3) find_step_iff [OF pipeline_okD(1) [OF assms(2)]] by auto
  let ?r' = "r\<lparr>st_status := QUEUED, st_updated_at := clock w\<rparr>"
  have nv: "new_version (committed w) r ?r'" using key(1) by (simp add: new_version_def step_key_def)
  have "step_key ?r' = (d, s)" using key by (simp add: step_key_def)
  then show ?thesis
    by (simp add: claim_step_db(2) [OF assms] find_step_put_step [OF pipeline_okD(1) [OF assms(2)] nv] queued_at_def)
qed

lemma claim_step_status:
  assumes "clean w" "pipeline_ok cfg (committed w)" "find_step d s (committed w) = Some r"
  shows "status_of e t (committed (snd (claim_step d s w))) =
    (if e = d \<and> t = s \<and> st_status r = PENDING then Some QUEUED else status_of e t (committed w))"
  by (simp add: status_of_def claim_step_row [OF assms] queued_at_def)

lemma trigger_ready_up:
  assumes "clean w" "pipeline_ok cfg (committed w)" and att: "1 \<le> step_max_attempts cfg"
    and "\<forall>s \<in> set ss. \<forall>p \<in> parents PIPELINE s. status_of d p (committed w) = Some DONE"
    and "\<forall>s \<in> set ss. find_step d s (committed w) \<noteq> None" and "faults w = []" "distinct ss"
  shows "fst (trigger_ready d ss w) = Inr () \<and> faults (snd (trigger_ready d ss w)) = [] \<and>
    (\<forall>e t. status_of e t (committed (snd (trigger_ready d ss w))) =
      (if e = d \<and> t \<in> set ss \<and> status_of d t (committed w) = Some PENDING then Some QUEUED
       else status_of e t (committed w))) \<and>
    (\<forall>e t. find_step e t (committed (snd (trigger_ready d ss w))) =
      (if e = d \<and> t \<in> set ss \<and> status_of d t (committed w) = Some PENDING
       then map_option (queued_at (clock w)) (find_step d t (committed w)) else find_step e t (committed w))) \<and>
    sent_of (trace (snd (trigger_ready d ss w))) = sent_of (trace w) @
      map (\<lambda>s. \<lparr>payload_document_id = d, payload_step = s\<rparr>)
        (filter (\<lambda>s. status_of d s (committed w) = Some PENDING) ss)"
  using assms
proof (induction ss arbitrary: w)
  case (Cons s ss)
  from Cons.prems(5) obtain r where r: "find_step d s (committed w) = Some r" by auto
  have key: "st_document_id r = d" "st_name r = s"
    using r find_step_iff [OF pipeline_okD(1) [OF Cons.prems(2)]] by auto
  with Cons.prems(4) have par: "parents_done (committed w) r" by (simp add: parents_done_def)
  note status = claim_step_status [OF Cons.prems(1,2) r] and rows = claim_step_row [OF Cons.prems(1,2) r]
  have pend: "status_of d s (committed w) = Some PENDING \<longleftrightarrow> st_status r = PENDING" using r by (simp add: status_of_def)
  define v where "v = (if fst (claim_step d s w) then snd (publish_step d s (snd (claim_step d s w))) else snd (claim_step d s w))"
  have ref: "refines cfg {d} w v"
    using refines_claim_publish [OF Cons.prems(1,2,3) r par] claim_step_db(3) [OF Cons.prems(1,2) r par] by (simp add: v_def)
  have v: "committed v = committed (snd (claim_step d s w))" "faults v = []" "clock v = clock w"
    "sent_of (trace v) = sent_of (trace w) @
      (if st_status r = PENDING then [\<lparr>payload_document_id = d, payload_step = s\<rparr>] else [])"
    using Cons.prems(6) claim_step_db(1) [OF Cons.prems(1,2) r] claim_step_trace
    by (simp_all add: v_def publish_step_up)
  have "trigger_ready d (s # ss) w = trigger_ready d ss v"
    using Cons.prems(6) by (simp add: v_def case_prod_beta publish_step_up)
  moreover have "\<forall>s \<in> set ss. \<forall>p \<in> parents PIPELINE s. status_of d p (committed v) = Some DONE"
    using refines_parents_done [OF ref Cons.prems(2,3)] Cons.prems(4) by (meson list.set_intros(2))
  moreover have "\<forall>s \<in> set ss. find_step d s (committed v) \<noteq> None"
    using refines_find_step [OF ref Cons.prems(2,3)] Cons.prems(5) by simp
  moreover have "filter (\<lambda>t. status_of d t (committed v) = Some PENDING) ss =
      filter (\<lambda>t. status_of d t (committed w) = Some PENDING) ss"
    using Cons.prems(7) by (intro filter_cong) (auto simp: v(1) status)
  ultimately show ?case
    using Cons.IH [OF refines_clean [OF ref] refines_ok [OF ref Cons.prems(2,3)] att _ _ v(2)] Cons.prems(7) v(1,3,4)
      status rows r pend by auto
qed simp


lemma trigger_successors_up:
  assumes clean: "clean w" and ok: "pipeline_ok cfg (committed w)" and att: "1 \<le> step_max_attempts cfg"
    and here: "find_step d s (committed w) \<noteq> None" and up: "faults w = []"
  defines "ready \<equiv> \<lambda>t. status_of d t (committed w) = Some PENDING \<and>
    (\<forall>p \<in> parents PIPELINE t. status_of d p (committed w) = Some DONE)"
  shows "fst (trigger_successors PIPELINE d w) = Inr ()"
    and "faults (snd (trigger_successors PIPELINE d w)) = []"
    and "status_of e t (committed (snd (trigger_successors PIPELINE d w))) =
      (if e = d \<and> ready t then Some QUEUED else status_of e t (committed w))"
    and "find_step e t (committed (snd (trigger_successors PIPELINE d w))) =
      (if e = d \<and> ready t then map_option (queued_at (clock w)) (find_step d t (committed w)) else find_step e t (committed w))"
    and "\<exists>ts. sent_of (trace (snd (trigger_successors PIPELINE d w))) =
      sent_of (trace w) @ map (\<lambda>s. \<lparr>payload_document_id = d, payload_step = s\<rparr>) ts \<and> distinct ts \<and> set ts = {t. ready t}"
proof -
  have work: "working w = committed w" using clean by (simp add: clean_def)
  note sch = pipeline_okD(1) [OF ok, folded work]
  let ?ss = "ready_successors PIPELINE (done_steps (step_status_map d w))"
  have mem: "t \<in> set ?ss \<longleftrightarrow> status_of d t (committed w) \<noteq> Some DONE \<and>
      (\<forall>p \<in> parents PIPELINE t. status_of d p (committed w) = Some DONE)" for t
    using done_steps_iff [OF sch, of _ d] work by (auto simp: pipeline.ready_iff pipeline_nodes)
  have par: "\<forall>s \<in> set ?ss. \<forall>p \<in> parents PIPELINE s. status_of d p (committed w) = Some DONE" by (simp add: mem)
  have rows: "\<forall>s \<in> set ?ss. find_step d s (committed w) \<noteq> None" using row_exists [OF ok here] by blast
  have dist: "distinct ?ss" by (rule distinct_ready_successors [OF pipeline.dict])
  have ready: "t \<in> set ?ss \<and> status_of d t (committed w) = Some PENDING \<longleftrightarrow> ready t" for t
    by (auto simp: mem ready_def)
  note up = trigger_ready_up [OF clean ok att par rows up dist]
  show "fst (trigger_successors PIPELINE d w) = Inr ()" "faults (snd (trigger_successors PIPELINE d w)) = []"
    using up by (simp_all add: trigger_successors_def)
  show "status_of e t (committed (snd (trigger_successors PIPELINE d w))) =
      (if e = d \<and> ready t then Some QUEUED else status_of e t (committed w))"
    using up ready [of t] by (simp add: trigger_successors_def)
  show "find_step e t (committed (snd (trigger_successors PIPELINE d w))) =
      (if e = d \<and> ready t then map_option (queued_at (clock w)) (find_step d t (committed w)) else find_step e t (committed w))"
    using up ready [of t] by (simp add: trigger_successors_def)
  show "\<exists>ts. sent_of (trace (snd (trigger_successors PIPELINE d w))) =
      sent_of (trace w) @ map (\<lambda>s. \<lparr>payload_document_id = d, payload_step = s\<rparr>) ts \<and> distinct ts \<and> set ts = {t. ready t}"
    using up ready dist
    by (intro exI [of _ "filter (\<lambda>t. status_of d t (committed w) = Some PENDING) ?ss"]) (auto simp: trigger_successors_def)
qed

subsection \<open>A delivery that succeeds\<close>

lemma session_phase_frame [simp]:
  "faults (snd (mark_running s d row w)) = faults w"
  "sent_of (trace (snd (mark_running s d row w))) = sent_of (trace w)"
  "faults (snd (save_output s d row out w)) = faults w"
  "sent_of (trace (snd (save_output s d row out w))) = sent_of (trace w)"
  "faults (snd (recompute_document_status d w)) = faults w"
  "sent_of (trace (snd (recompute_document_status d w))) = sent_of (trace w)"
  "clock (snd (mark_running s d row w)) = clock w"
  "clock (snd (save_output s d row out w)) = clock w"
  by (simp_all add: mark_running_def save_output_defs recompute_document_status_def Let_def split: option.split)

lemma runnable_row_iff:
  assumes "clean w" "pipeline_ok cfg (committed w)"
  shows "runnable_row s d w = Some r \<longleftrightarrow> find_step d s (committed w) = Some r \<and>
    st_status r \<in> {PENDING, QUEUED, RUNNING} \<and>
    (\<exists>q. find_document d (committed w) = Some q \<and> doc_status q \<noteq> FAILED)"
proof
  assume row: "runnable_row s d w = Some r"
  show "find_step d s (committed w) = Some r \<and> st_status r \<in> {PENDING, QUEUED, RUNNING} \<and>
      (\<exists>q. find_document d (committed w) = Some q \<and> doc_status q \<noteq> FAILED)"
    by (intro conjI runnable_rowD [OF assms row])
next
  assume run: "find_step d s (committed w) = Some r \<and> st_status r \<in> {PENDING, QUEUED, RUNNING} \<and>
    (\<exists>q. find_document d (committed w) = Some q \<and> doc_status q \<noteq> FAILED)"
  then have row: "map_of (load_steps d w) s = Some r" using map_of_load_steps [OF assms, of d s] by simp
  from run have row2: "st_status r \<notin> TERMINAL_FOR_RUN"
    by (cases "st_status r") (simp_all add: TERMINAL_FOR_RUN_def)
  from run obtain q where "find_document d (committed w) = Some q" "doc_status q \<noteq> FAILED" by blast
  with row row2 assms(1) show "runnable_row s d w = Some r"
    by (simp add: runnable_row_def get_document_def clean_def)
qed

text \<open>The statuses once the delivered step has succeeded.\<close>

definition after_success ::
  "step_name \<Rightarrow> (step_name \<Rightarrow> step_status option) \<Rightarrow> step_name \<Rightarrow> step_status option" where
  "after_success s old t =
     (let mid = old(s := Some (if s = EXTERNAL_CALL then AWAITING_CALLBACK else DONE)) in
      if s \<noteq> EXTERNAL_CALL \<and> mid t = Some PENDING \<and> (\<forall>p \<in> parents PIPELINE t. mid p = Some DONE)
      then Some QUEUED else mid t)"

lemma status_after_move:
  assumes "pipeline_ok cfg db" "new_version db r r'" "st_document_id r' = d" "st_name r' = s"
  shows "status_of e t (put_step r' db) = (if e = d \<and> t = s then Some (st_status r') else status_of e t db)"
  using assms(3,4) by (simp add: status_of_put_step [OF pipeline_okD(1) [OF assms(1)] assms(2)] step_key_def)

lemma row_after_move:
  assumes "pipeline_ok cfg db" "new_version db r r'" "st_document_id r' = d" "st_name r' = s"
  shows "find_step e t (put_step r' db) = (if e = d \<and> t = s then Some r' else find_step e t db)"
  using assms(3,4) by (simp add: find_step_put_step [OF pipeline_okD(1) [OF assms(1)] assms(2)] step_key_def)

lemma recompute_status_of:
  assumes "clean w" "pipeline_ok cfg (committed w)"
  shows "status_of e t (committed (snd (recompute_document_status d w))) = status_of e t (committed w)"
    and "find_step e t (committed (snd (recompute_document_status d w))) = find_step e t (committed w)"
  by (simp_all add: recompute_document_status_db(2) [OF assms] find_step_def)

lemma handle_success:
  assumes clean: "clean w" and ok: "pipeline_ok cfg (committed w)" and att: "1 \<le> step_max_attempts cfg"
    and msg: "deliverable p (committed w)" and fresh: "fresh_job dr (payload_step p) (committed w)"
    and run: "runnable_row (payload_step p) (payload_document_id p) w = Some r"
    and up: "faults w = []" and good: "\<not> step_fails dr"
  defines "w' \<equiv> snd (handle cfg dr (payload_step p) p w)"
  defines "now_done \<equiv> after_success (payload_step p) (\<lambda>t. status_of (payload_document_id p) t (committed w))"
  shows "fst (handle cfg dr (payload_step p) p w) = Inr ACK" and "faults w' = []"
    and "status_of e t (committed w') =
      (if e = payload_document_id p then now_done t else status_of e t (committed w))"
    and "\<exists>ts. sent_of (trace w') = sent_of (trace w) @
        map (\<lambda>s. \<lparr>payload_document_id = payload_document_id p, payload_step = s\<rparr>) ts \<and> distinct ts \<and>
      set ts = {t. now_done t = Some QUEUED \<and> status_of (payload_document_id p) t (committed w) = Some PENDING}"
    and "(e, t) \<noteq> (payload_document_id p, payload_step p) \<Longrightarrow> find_step e t (committed w') =
      (if e = payload_document_id p \<and> now_done t = Some QUEUED \<and> status_of e t (committed w) = Some PENDING
       then map_option (queued_at (clock w)) (find_step e t (committed w)) else find_step e t (committed w))"
proof -
  let ?d = "payload_document_id p" and ?s = "payload_step p"
  note row = runnable_rowD [OF clean ok run]
  obtain row1 w1 r1 where mr: "mark_running ?s ?d r w = (row1, w1)"
    and mv: "new_version (committed w) r r1" "committed w1 = put_step r1 (committed w)"
    and r1: "clean w1" "pipeline_ok cfg (committed w1)" "r1 \<in> set (pipeline_steps (committed w1))" "loaded_from r1 row1"
    "st_document_id r1 = ?d" "st_name r1 = ?s" "st_status r1 = RUNNING" "fresh_job dr (payload_step p) (committed w1)"
    by (rule handle_started [OF clean ok att msg fresh run])
  have w1: "faults w1 = []" "sent_of (trace w1) = sent_of (trace w)"
    using up session_phase_frame(1,2) [of ?s ?d r w] mr by simp_all
  have "\<forall>q \<in> parents PIPELINE ?s. status_of ?d q (committed w) = Some DONE"
    using pipeline_okD(6) [OF ok row(3)] deliverableD [OF msg row(1)] row(4,5) by (simp add: parents_done_def)
  with run_step_fails_iff [OF clean ok _ this, of dr row1] good row(1) obtain out where
    out: "run_step dr ?s (AList.update ?s row1 (load_steps ?d w)) = Inr out"
    by (cases "run_step dr ?s (AList.update ?s row1 (load_steps ?d w))") auto
  obtain row2 r2 w2 where so: "save_output ?s ?d row1 out w1 = (row2, w2)"
    and mv2: "new_version (committed w1) r1 r2" "loaded_from r2 row2" "committed w2 = put_step r2 (committed w1)"
    and r2: "clean w2" "pipeline_ok cfg (committed w2)" "r2 \<in> set (pipeline_steps (committed w2))" "st_document_id r2 = ?d"
      "st_name r2 = ?s" "st_status r2 = (if ?s = EXTERNAL_CALL then AWAITING_CALLBACK else DONE)"
    by (rule handle_saved [OF r1(1,2) att r1(3-7) out r1(8)])
  have w2: "faults w2 = []" "sent_of (trace w2) = sent_of (trace w)"
    using session_phase_frame(3,4) [of ?s ?d row1 out w1] so w1 by simp_all
  have status1: "status_of e t (committed w1) = (if e = ?d \<and> t = ?s then Some RUNNING else status_of e t (committed w))" for e t
    using status_after_move [OF ok mv(1) r1(5,6)] r1(7) mv(2) by simp
  have status2: "status_of e t (committed w2) =
      (if e = ?d \<and> t = ?s then Some (if ?s = EXTERNAL_CALL then AWAITING_CALLBACK else DONE) else status_of e t (committed w))"
    for e t
    using status_after_move [OF r1(2) mv2(1) r2(4,5), of e t] status1 [of e t] r2(6) mv2(3) by simp
  have rows2: "find_step e t (committed w2) = find_step e t (committed w)" if "(e, t) \<noteq> (?d, ?s)" for e t
    using that row_after_move [OF r1(2) mv2(1) r2(4,5), of e t] row_after_move [OF ok mv(1) r1(5,6), of e t] mv(2) mv2(3) by auto
  have clock: "clock w2 = clock w" using session_phase_frame(7) [of ?s ?d r w] session_phase_frame(8) [of ?s ?d row1 out w1] mr so by simp
  have row2: "st_status row2 = st_status r2" by (rule loaded_fromD(4) [OF mv2(2)])
  have here: "find_step ?d ?s (committed w2) \<noteq> None" using status2 [of ?d ?s] by (auto simp: status_of_def)
  note trig = trigger_successors_up [OF r2(1,2) att here w2(1)]
  note ref = refines_trigger_successors [OF r2(1,2) att r2(3,4)]
  note recomp = recompute_status_of [OF refines_clean [OF ref] refines_ok [OF ref r2(2) att]]
  have pend: "status_of ?d ?s (committed w) \<noteq> Some PENDING"
    using msg by (auto simp: deliverable_def status_of_def)
  have body: "handle cfg dr ?s p w = (if ?s = EXTERNAL_CALL then (Inr ACK, w2)
      else (Inr ACK, snd (recompute_document_status ?d (snd (trigger_successors PIPELINE ?d w2)))))"
    using run mr out so row2 r2(6) trig(1) by (cases "trigger_successors PIPELINE ?d w2") (auto simp: handle_def Let_def)
  show "fst (handle cfg dr ?s p w) = Inr ACK" unfolding body by simp
  show "faults w' = []" unfolding w'_def body using w2 trig(2) by simp
  show "status_of e t (committed w') = (if e = ?d then now_done t else status_of e t (committed w))"
    unfolding w'_def body now_done_def after_success_def using status2 by (simp add: trig(3) recomp Let_def)
  have claimed: "?s \<noteq> EXTERNAL_CALL \<Longrightarrow>
      status_of ?d t (committed w2) = Some PENDING \<and> (\<forall>q \<in> parents PIPELINE t. status_of ?d q (committed w2) = Some DONE) \<longleftrightarrow>
        now_done t = Some QUEUED \<and> status_of ?d t (committed w) = Some PENDING" for t
    using pend unfolding now_done_def after_success_def by (auto simp: status2 Let_def)
  have unclaimed: "?s = EXTERNAL_CALL \<Longrightarrow> \<not> (now_done t = Some QUEUED \<and> status_of ?d t (committed w) = Some PENDING)" for t
    using pend unfolding now_done_def after_success_def by (auto simp: Let_def)
  show "find_step e t (committed w') = (if e = ?d \<and> now_done t = Some QUEUED \<and> status_of e t (committed w) = Some PENDING
       then map_option (queued_at (clock w)) (find_step e t (committed w)) else find_step e t (committed w))"
    if "(e, t) \<noteq> (?d, ?s)"
  proof (cases "?s = EXTERNAL_CALL")
    case True
    then show ?thesis using unclaimed [of t] rows2 [OF that] unfolding w'_def body by auto
  next
    case False
    then show ?thesis using claimed [of t] rows2 [OF that] clock unfolding w'_def body by (auto simp: trig(4) recomp)
  qed
  show "\<exists>ts. sent_of (trace w') = sent_of (trace w) @ map (\<lambda>s. \<lparr>payload_document_id = ?d, payload_step = s\<rparr>) ts \<and> distinct ts \<and>
      set ts = {t. now_done t = Some QUEUED \<and> status_of ?d t (committed w) = Some PENDING}"
  proof (cases "?s = EXTERNAL_CALL")
    case True
    then show ?thesis using unclaimed unfolding w'_def body by (intro exI [of _ "[]"]) (simp add: w2)
  next
    case False
    then show ?thesis using trig(5) claimed unfolding w'_def body by (simp add: w2)
  qed
qed

text \<open>The job identifier is stored with the row.\<close>

lemma handle_success_job:
  assumes clean: "clean w" and ok: "pipeline_ok cfg (committed w)" and att: "1 \<le> step_max_attempts cfg"
    and msg: "deliverable p (committed w)" and fresh: "fresh_job dr (payload_step p) (committed w)"
    and run: "runnable_row (payload_step p) (payload_document_id p) w = Some r"
    and good: "\<not> step_fails dr" and ext: "payload_step p = EXTERNAL_CALL"
  shows "\<exists>r'. find_step (payload_document_id p) EXTERNAL_CALL
      (committed (snd (handle cfg dr (payload_step p) p w))) = Some r' \<and>
    st_external_job_id r' = Some (''j_'' @ take 16 (uuid_hex (job_uuid dr)))"
proof -
  let ?d = "payload_document_id p" and ?s = "payload_step p"
  note row = runnable_rowD [OF clean ok run]
  obtain row1 w1 r1 where mr: "mark_running ?s ?d r w = (row1, w1)"
    and r1: "clean w1" "pipeline_ok cfg (committed w1)" "r1 \<in> set (pipeline_steps (committed w1))" "loaded_from r1 row1"
    "st_document_id r1 = ?d" "st_name r1 = ?s" "st_status r1 = RUNNING" "fresh_job dr (payload_step p) (committed w1)"
    by (rule handle_started [OF clean ok att msg fresh run])
  have "\<forall>q \<in> parents PIPELINE ?s. status_of ?d q (committed w) = Some DONE"
    using pipeline_okD(6) [OF ok row(3)] deliverableD [OF msg row(1)] row(4,5) by (simp add: parents_done_def)
  with run_step_fails_iff [OF clean ok _ this, of dr row1] good row(1) obtain out where
    out: "run_step dr ?s (AList.update ?s row1 (load_steps ?d w)) = Inr out"
    by (cases "run_step dr ?s (AList.update ?s row1 (load_steps ?d w))") auto
  obtain row2 r2 w2 where so: "save_output ?s ?d row1 out w1 = (row2, w2)"
    and mv2: "loaded_from r2 row2"
    and r2: "clean w2" "pipeline_ok cfg (committed w2)" "r2 \<in> set (pipeline_steps (committed w2))" "st_document_id r2 = ?d"
      "st_name r2 = ?s" "st_status r2 = (if ?s = EXTERNAL_CALL then AWAITING_CALLBACK else DONE)"
    by (rule handle_saved [OF r1(1,2) att r1(3-7) out r1(8)])
  have "st_external_job_id row2 = Some (''j_'' @ take 16 (uuid_hex (job_uuid dr)))"
    using so run_step_shape(2) [OF out ext] ext by (auto simp: save_output_defs Let_def)
  moreover have "r2 = row2\<lparr>st_updated_at := st_updated_at r2\<rparr>" by (rule loaded_fromD(1) [OF mv2, symmetric])
  then have "st_external_job_id r2 = st_external_job_id row2"
    by (metis pipeline_step.select_convs(8) pipeline_step.surjective pipeline_step.update_convs(11))
  moreover have "find_step ?d EXTERNAL_CALL (committed w2) = Some r2"
    using find_step_iff [OF pipeline_okD(1) [OF r2(2)]] r2(3-5) ext by simp
  moreover have "snd (handle cfg dr ?s p w) = w2"
    using run mr out so loaded_fromD(4) [OF mv2] r2(6) ext by (simp add: handle_def Let_def)
  ultimately show ?thesis by simp
qed

text \<open>No job identifier appears while the partner has not been called.\<close>

lemma job_unused_kept:
  assumes "pipeline_ok cfg (committed w')" "\<And>e. e \<noteq> d \<Longrightarrow> same_document e (committed w) (committed w')"
    and "status_of d EXTERNAL_CALL (committed w') \<in> {Some PENDING, Some QUEUED}" "job_unused j (committed w)"
  shows "job_unused j (committed w')"
  unfolding job_unused_def
proof
  fix q assume q: "q \<in> set (pipeline_steps (committed w'))"
  show "st_external_job_id q \<noteq> Some j"
  proof (cases "st_document_id q = d")
    case True
    have "status_of d (st_name q) (committed w') = Some (st_status q)"
      using status_of_row [OF pipeline_okD(1) [OF assms(1)] q] True by simp
    moreover have "st_external_job_id q \<noteq> None \<longrightarrow>
        st_name q = EXTERNAL_CALL \<and> st_status q \<in> {AWAITING_CALLBACK, DONE, ERROR}"
      using pipeline_okD(5) [OF assms(1) q] unfolding step_row_ok_def by blast
    ultimately have "st_external_job_id q = None" using assms(3) by auto
    then show ?thesis by simp
  next
    case False
    with assms(2) have "steps_of (st_document_id q) (committed w') = steps_of (st_document_id q) (committed w)"
      by (simp add: same_document_def)
    moreover have "q \<in> set (steps_of (st_document_id q) (committed w'))" using q by (simp add: steps_of_def)
    ultimately have "q \<in> set (pipeline_steps (committed w))" by (simp add: steps_of_def)
    with assms(4) show ?thesis by (simp add: job_unused_def)
  qed
qed

subsection \<open>A delivery that fails, and one that has nothing to do\<close>

lemma handle_failure:
  assumes clean: "clean w" and ok: "pipeline_ok cfg (committed w)" and att: "1 \<le> step_max_attempts cfg"
    and msg: "deliverable p (committed w)"
    and run: "runnable_row (payload_step p) (payload_document_id p) w = Some r"
    and bad: "step_fails dr"
  defines "w' \<equiv> snd (handle cfg dr (payload_step p) p w)"
    and "final_try \<equiv> st_attempts r + 1 \<ge> step_max_attempts cfg"
  shows "fst (handle cfg dr (payload_step p) p w) = Inr (if final_try then ACK else RETRY)"
    and "\<exists>r'. find_step (payload_document_id p) (payload_step p) (committed w') = Some r' \<and>
      st_attempts r' = st_attempts r + 1 \<and> st_status r' = (if final_try then ERROR else QUEUED)"
    and "(e, t) \<noteq> (payload_document_id p, payload_step p) \<Longrightarrow>
      find_step e t (committed w') = find_step e t (committed w)"
    and "sent_of (trace w') = sent_of (trace w)" and "faults w' = faults w"
    and "e \<noteq> payload_document_id p \<Longrightarrow> find_document e (committed w') = find_document e (committed w)"
proof -
  let ?d = "payload_document_id p" and ?s = "payload_step p"
  note row = runnable_rowD [OF clean ok run]
  have st: "st_status r \<in> {QUEUED, RUNNING}" using deliverableD [OF msg row(1)] row(2) by auto
  obtain row1 w1 where mr: "mark_running ?s ?d r w = (row1, w1)" by force
  from mark_running_db [OF clean ok row(3-5) st] mr obtain r1 where
    mv: "step_move cfg (committed w) r r1 [step_event ?s RUNNING]" "loaded_from r1 row1"
      "new_version (committed w) r r1" "committed w1 = put_step r1 (committed w)" "refines cfg {?d} w w1"
    by auto
  have row1: "st_status row1 = RUNNING" "st_attempts row1 = st_attempts r"
    using mr by (auto simp: mark_running_def Let_def)
  have r1: "clean w1" "pipeline_ok cfg (committed w1)" "r1 \<in> set (pipeline_steps (committed w1))"
    "st_document_id r1 = ?d" "st_name r1 = ?s" "st_status r1 = RUNNING" "st_attempts r1 = st_attempts r"
    using refines_clean [OF mv(5)] refines_ok [OF mv(5) ok att] mem_put_step [OF pipeline_okD(1) [OF ok] mv(3)] mv(4)
      step_move_key [OF mv(1)] row(4,5) row1 loaded_fromD(4,7) [OF mv(2)] by simp_all
  have w1: "faults w1 = faults w" "sent_of (trace w1) = sent_of (trace w)"
    using session_phase_frame(1,2) [of ?s ?d r w] mr by simp_all
  have "\<forall>q \<in> parents PIPELINE ?s. status_of ?d q (committed w) = Some DONE"
    using pipeline_okD(6) [OF ok row(3)] deliverableD [OF msg row(1)] row(4,5) by (simp add: parents_done_def)
  with run_step_fails_iff [OF clean ok _ this, of dr row1] bad row(1) obtain x where
    out: "run_step dr ?s (AList.update ?s row1 (load_steps ?d w)) = Inl x" by auto
  have body: "handle cfg dr ?s p w = (Inr (fst (on_failure cfg ?d row1 x w1)), snd (on_failure cfg ?d row1 x w1))"
    using run mr out by (simp add: handle_def Let_def case_prod_beta)
  have frame: "faults (snd (on_failure cfg ?d row1 x w1)) = faults w1"
    "sent_of (trace (snd (on_failure cfg ?d row1 x w1))) = sent_of (trace w1)"
    by (simp_all add: on_failure_def Let_def)
  obtain r2 w2 where w2: "loaded_from r2 (if final_try then row1\<lparr>st_attempts := st_attempts row1 + 1, st_status := ERROR,
      st_error_text := Some (exn_text x), st_finished_at := Some (clock w1)\<rparr>
      else row1\<lparr>st_attempts := st_attempts row1 + 1, st_status := QUEUED\<rparr>)"
    "new_version (committed w1) r1 r2" "committed w2 = put_step r2 (committed w1)" "refines cfg {?d} w1 w2"
    "on_failure cfg ?d row1 x w1 = (if final_try then (ACK, snd (recompute_document_status ?d w2)) else (RETRY, w2))"
    "step_key r2 = step_key r1" "st_document_id r2 = ?d" "st_name r2 = ?s"
  proof (cases final_try)
    case True
    with on_failure_exhausted [OF r1(1,2,3) mv(2) r1(4,6), of x] r1(4,5,7) that show ?thesis
      by (auto simp: final_try_def dest: step_move_key)
  next
    case False
    with on_failure_retry [OF r1(1,2,3) mv(2) r1(4,6), of x] r1(4,5,7) that show ?thesis
      by (auto simp: final_try_def dest: step_move_key)
  qed
  have r2: "st_status r2 = (if final_try then ERROR else QUEUED)" "st_attempts r2 = st_attempts r + 1"
    using loaded_fromD(4,7) [OF w2(1)] row1 by (cases final_try; simp)+
  have ok2: "clean w2" "pipeline_ok cfg (committed w2)"
    using refines_clean [OF w2(4)] refines_ok [OF w2(4) r1(2) att] by simp_all
  have steps: "pipeline_steps (committed w') = pipeline_steps (committed w2)"
    using recompute_document_status_db(2) [OF ok2, of ?d] by (simp add: w'_def body w2(5))
  then have same: "find_step e t (committed w') = find_step e t (committed w2)" for e t by (simp add: find_step_def)
  show "fst (handle cfg dr ?s p w) = Inr (if final_try then ACK else RETRY)" unfolding body w2(5) by simp
  show "\<exists>r'. find_step ?d ?s (committed w') = Some r' \<and>
      st_attempts r' = st_attempts r + 1 \<and> st_status r' = (if final_try then ERROR else QUEUED)"
    unfolding same w2(3) using r2 w2(7,8) by (simp add: find_step_put_step [OF pipeline_okD(1) [OF r1(2)] w2(2)] step_key_def)
  show "find_step e t (committed w') = find_step e t (committed w)" if "(e, t) \<noteq> (?d, ?s)"
    using that row_after_move [OF r1(2) w2(2,7,8), of e t] row_after_move [OF ok mv(3) r1(4,5), of e t] mv(4) w2(3) same by auto
  show "sent_of (trace w') = sent_of (trace w)" "faults w' = faults w"
    using frame w1 by (simp_all add: w'_def body)
  show "find_document e (committed w') = find_document e (committed w)" if "e \<noteq> ?d"
  proof -
    have "same_document e (committed w) (committed w1)" "same_document e (committed w1) (committed w2)"
      "same_document e (committed w2) (committed (snd (recompute_document_status ?d w2)))"
      using that refines_same [OF mv(5)] refines_same [OF w2(4)] refines_same [OF recompute_document_status_db(1) [OF ok2]] by simp_all
    then show ?thesis by (simp add: same_document_def w'_def body w2(5))
  qed
qed

lemma handle_nothing:
  "runnable_row (payload_step p) (payload_document_id p) w = None \<Longrightarrow>
    handle cfg dr (payload_step p) p w = (Inr ACK, w)"
  by (simp add: handle_def)

end
