(* ===== verification/Pathways.thy ===== *)
theory Pathways
  imports Progress
begin

section \<open>Whole pipelines\<close>

text \<open>
  From the upload to the final status, along the deliveries: a document whose four steps
  succeed and whose partner answers ends READY, with all its extracted data; a step that keeps
  failing ends the document FAILED after exactly \<open>step_max_attempts\<close> runs.
\<close>

subsection \<open>The document row\<close>

text \<open>What never changes in a document's row.\<close>

definition document_identity :: "document \<Rightarrow> uuid \<times> uuid \<times> string \<times> string \<times> timestamp" where
  "document_identity q = (doc_org_id q, doc_uploaded_by q, doc_filename q, doc_storage_uri q, doc_created_at q)"

definition kept_document :: "uuid \<Rightarrow> database \<Rightarrow> database \<Rightarrow> bool" where
  "kept_document d db db' \<longleftrightarrow> (\<forall>q. find_document d db = Some q \<longrightarrow>
     (\<exists>q'. find_document d db' = Some q' \<and> document_identity q' = document_identity q))"

lemma tx_step_document: "tx_step cfg db db' ns \<Longrightarrow> kept_document d db db'"
proof (induction rule: tx_step.induct)
  case (move r r' evs)
  then show ?case by (simp add: kept_document_def find_document_def)
next
  case (derive e q st now)
  then show ?case by (simp add: kept_document_def find_document_put_doc_status document_identity_def)
next
  case (upload user e ids filename now uri)
  then show ?case by (simp add: kept_document_def find_document_def add_document_def find_append split: option.split)
qed (simp_all add: kept_document_def)

lemma effect_path_document: "effect_path cfg db es \<Longrightarrow> kept_document d db (final_db db es)"
proof (induction cfg db es rule: effect_path.induct)
  case (3 cfg db db' ns es)
  then have "kept_document d db db'" "kept_document d db' (final_db db' es)"
    using tx_step_document [of cfg db db' ns d] by simp_all
  then show ?case unfolding kept_document_def by (metis final_db.simps(3))
qed (simp_all add: kept_document_def)

lemma refines_document: "refines cfg D w w' \<Longrightarrow> kept_document d (committed w) (committed w')"
  by (metis effect_path_document refinesE)

subsection \<open>One delivery after the other\<close>

text \<open>The document is there, no step has failed, and the statuses are the given ones.\<close>

definition on_track :: "settings \<Rightarrow> uuid \<Rightarrow> (step_name \<Rightarrow> step_status) \<Rightarrow> world \<Rightarrow> bool" where
  "on_track cfg d st w \<longleftrightarrow> clean w \<and> pipeline_ok cfg (committed w) \<and> faults w = [] \<and>
     in_sync d (committed w) \<and> find_document d (committed w) \<noteq> None \<and>
     (\<forall>t. status_of d t (committed w) = Some (st t)) \<and> (\<forall>t. st t \<noteq> ERROR)"

text \<open>The statuses after the step has succeeded.\<close>

definition advance :: "step_name \<Rightarrow> (step_name \<Rightarrow> step_status) \<Rightarrow> step_name \<Rightarrow> step_status" where
  "advance s st t =
     (let mid = st(s := (if s = EXTERNAL_CALL then AWAITING_CALLBACK else DONE)) in
      if s \<noteq> EXTERNAL_CALL \<and> mid t = PENDING \<and> (\<forall>p \<in> parents PIPELINE t. mid p = DONE)
      then QUEUED else mid t)"

lemma after_success_advance: "after_success s (\<lambda>t. Some (st t)) t = Some (advance s st t)"
  by (simp add: after_success_def advance_def Let_def)

lemma advance_no_error: "\<forall>t. st t \<noteq> ERROR \<Longrightarrow> advance s st t \<noteq> ERROR"
  by (auto simp: advance_def Let_def)

lemma on_track_document:
  assumes "on_track cfg d st w"
  shows "\<exists>q. find_document d (committed w) = Some q \<and> doc_status q = (if st EXTERNAL_CALL = DONE then READY else PROCESSING)"
proof -
  have sch: "schema_ok (committed w)" and no: "\<not> (\<exists>s. status_of d s (committed w) = Some ERROR)"
    and sync: "in_sync d (committed w)" and ext: "status_of d EXTERNAL_CALL (committed w) = Some (st EXTERNAL_CALL)"
    and "find_document d (committed w) \<noteq> None"
    using assms pipeline_okD(1) by (auto simp: on_track_def)
  then obtain q where "find_document d (committed w) = Some q" by auto
  with sync no ext show ?thesis by (simp add: in_sync_def derive_status [OF sch])
qed

lemma callback_handle:
  assumes "clean w" "pipeline_ok cfg (committed w)" "1 \<le> step_max_attempts cfg" "parse_body body = Some p"
    and "deliverable p (committed w)" "fresh_job dr (payload_step p) (committed w)"
    and "fst (handle cfg dr (payload_step p) p w) = Inr a"
  shows "callback cfg parse_body dr body w =
    (if a = ACK then BasicAck else BasicNackRequeue, snd (handle cfg dr (payload_step p) p w))"
proof -
  note ref = refines_handle [OF assms(1-3,5,6)]
  have eq: "handle_in_session cfg dr p w = (a, snd (handle cfg dr (payload_step p) p w))"
    using assms(7) by (cases "handle cfg dr (payload_step p) p w") (simp add: handle_in_session_def)
  with session_scope_refines [where body = "handle_in_session cfg dr p", OF assms(1)] ref
  have "session_scope (handle_in_session cfg dr p) w = (a, snd (handle cfg dr (payload_step p) p w))" by simp
  with assms(4) show ?thesis by (simp add: callback_def)
qed

lemma on_track_runnable:
  assumes "on_track cfg d st w" "st s \<in> {QUEUED, RUNNING}"
  shows "\<exists>r. runnable_row s d w = Some r" and "deliverable \<lparr>payload_document_id = d, payload_step = s\<rparr> (committed w)"
proof -
  have ok: "clean w" "pipeline_ok cfg (committed w)" and status: "status_of d s (committed w) = Some (st s)"
    using assms(1) by (simp_all add: on_track_def)
  from status obtain r where r: "find_step d s (committed w) = Some r" "st_status r = st s"
    by (auto simp: status_of_def)
  have ext: "st EXTERNAL_CALL = DONE \<or> st EXTERNAL_CALL \<noteq> DONE" by simp
  from on_track_document [OF assms(1)] have "\<exists>q. find_document d (committed w) = Some q \<and> doc_status q \<noteq> FAILED" by auto
  with r assms(2) runnable_row_iff [OF ok, of s d r] show "\<exists>r. runnable_row s d w = Some r" by auto
  show "deliverable \<lparr>payload_document_id = d, payload_step = s\<rparr> (committed w)"
    using r assms(2) by (auto simp: deliverable_def)
qed

lemma delivery_succeeds:
  assumes track: "on_track cfg d st w" and att: "1 \<le> step_max_attempts cfg"
    and s: "st s \<in> {QUEUED, RUNNING}" and good: "\<not> step_fails dr"
    and body: "parse_body body = Some \<lparr>payload_document_id = d, payload_step = s\<rparr>"
    and fresh: "fresh_job dr s (committed w)"
  defines "w' \<equiv> snd (callback cfg parse_body dr body w)"
  shows "fst (callback cfg parse_body dr body w) = BasicAck" and "on_track cfg d (advance s st) w'"
    and "refines cfg {d} w w'"
    and "s = EXTERNAL_CALL \<Longrightarrow> \<exists>r. find_step d EXTERNAL_CALL (committed w') = Some r \<and>
      st_external_job_id r = Some (''j_'' @ take 16 (uuid_hex (job_uuid dr)))"
    and "st t = PENDING \<Longrightarrow> advance s st t = QUEUED \<Longrightarrow>
      \<lparr>payload_document_id = d, payload_step = t\<rparr> \<in> set (sent_of (trace w'))"
proof -
  let ?p = "\<lparr>payload_document_id = d, payload_step = s\<rparr>"
  have ok: "clean w" "pipeline_ok cfg (committed w)" "faults w = []" "in_sync d (committed w)"
    and status: "status_of d t (committed w) = Some (st t)" for t
    using track by (simp_all add: on_track_def)
  from on_track_runnable [OF track s] obtain r where run: "runnable_row s d w = Some r"
    and msg: "deliverable ?p (committed w)" by blast
  have fresh': "fresh_job dr (payload_step ?p) (committed w)" using fresh by simp
  have run': "runnable_row (payload_step ?p) (payload_document_id ?p) w = Some r" using run by simp
  note ref = refines_handle [OF ok(1,2) att msg fresh']
  note good' = handle_success [OF ok(1,2) att msg fresh' run' ok(3) good]
  note cb = callback_handle [where parse_body = parse_body, OF ok(1,2) att body msg fresh' good'(1)]
  have w': "w' = snd (handle cfg dr s ?p w)" by (simp add: w'_def cb)
  show "fst (callback cfg parse_body dr body w) = BasicAck" by (simp add: cb)
  show ref': "refines cfg {d} w w'" using ref by (simp add: w')
  have "kept_document d (committed w) (committed w')" by (rule refines_document [OF ref'])
  moreover have "find_document d (committed w) \<noteq> None" using track by (simp add: on_track_def)
  moreover have "in_sync d (committed w')"
    using handle_in_sync [OF ok(1,2) att msg fresh'] ok(4) by (simp add: w')
  moreover have "status_of d t (committed w') = Some (advance s st t)" for t
    using good'(3) [of d t] by (simp add: w' status after_success_advance)
  ultimately show "on_track cfg d (advance s st) w'"
    using refines_clean [OF ref'] refines_ok [OF ref' ok(2) att] good'(2) track advance_no_error [of st s]
    by (auto simp: on_track_def kept_document_def w')
  show "\<exists>r. find_step d EXTERNAL_CALL (committed w') = Some r \<and>
      st_external_job_id r = Some (''j_'' @ take 16 (uuid_hex (job_uuid dr)))" if "s = EXTERNAL_CALL"
    using handle_success_job [OF ok(1,2) att msg fresh' run' good] that by (simp add: w')
  show "\<lparr>payload_document_id = d, payload_step = t\<rparr> \<in> set (sent_of (trace w'))"
    if "st t = PENDING" "advance s st t = QUEUED"
    using good'(4) that unfolding w' by (auto simp: status after_success_advance)
qed


subsection \<open>The partner's answer\<close>

lemma get_step_by_job_id_found:
  assumes ok: "pipeline_ok cfg (committed w)" and clean: "clean w"
    and r: "r \<in> set (pipeline_steps (committed w))" "st_external_job_id r = Some j"
  shows "get_step_by_job_id j w = Inr (Some r)"
proof -
  have work: "working w = committed w" using clean by (simp add: clean_def)
  from get_step_by_job_id_total [of cfg w j] ok obtain x where x: "get_step_by_job_id j w = Inr x"
    by (auto simp: work)
  have "x \<noteq> None"
  proof
    assume "x = None"
    with x have "filter (\<lambda>r. st_external_job_id r = Some j) (pipeline_steps (committed w)) = []"
      by (simp add: get_step_by_job_id_def scalar_one_or_none_None work)
    with r show False by (simp add: filter_empty_conv)
  qed
  then obtain q where "x = Some q" by auto
  with x get_step_by_job_id_row [of cfg w j q] ok have "q \<in> set (pipeline_steps (committed w))" "st_external_job_id q = Some j"
    by (simp_all add: work)
  with r pipeline_okD(4) [OF ok] have "q = r" unfolding jobs_unique_def by (metis option.distinct(1))
  with x \<open>x = Some q\<close> show ?thesis by simp
qed

lemma webhook_processed:
  fixes new_id :: uuid
  assumes clean: "clean w" and ok: "pipeline_ok cfg (committed w)" and att: "1 \<le> step_max_attempts cfg"
    and sig: "verify_signature cfg hmac_sha256 raw signature = Inr True"
    and body: "model_validate_json parse_json parse_datetime raw = Some p"
    and r: "find_step d EXTERNAL_CALL (committed w) = Some r" "st_status r = AWAITING_CALLBACK"
      "st_external_job_id r = Some (wp_job_id p)"
  defines "out \<equiv> partner_webhook cfg hmac_sha256 parse_json parse_datetime new_id raw signature w"
  shows "fst out = Answer \<lparr>wr_status = PROCESSED, wr_document_status =
      Some (derive_document_status (document_statuses d (committed (snd out))))\<rparr>"
    and "status_of e t (committed (snd out)) = (if e = d \<and> t = EXTERNAL_CALL
      then Some (if wp_status p = COMPLETED then DONE else ERROR) else status_of e t (committed w))"
    and "in_sync d (committed (snd out))"
    and "wp_status p = COMPLETED \<Longrightarrow> \<exists>r'. find_step d EXTERNAL_CALL (committed (snd out)) = Some r' \<and>
      st_result r' = Some (JObject (wp_result p)) \<and> st_external_job_id r' = Some (wp_job_id p)"
    and "\<exists>r'. find_step d EXTERNAL_CALL (committed (snd out)) = Some r' \<and>
      st_status r' = (if wp_status p = COMPLETED then DONE else ERROR) \<and> st_external_job_id r' = Some (wp_job_id p)"
proof -
  from body obtain js where js: "parse_json raw = Some js"
    by (cases "parse_json raw") (simp_all add: model_validate_json_def)
  let ?w1 = "record_webhook new_id (wp_job_id p) js w"
  note rec = record_webhook_db [OF clean ok, of new_id "wp_job_id p" js]
  note clean1 = refines_clean [OF rec(1)] and ok1 = refines_ok [OF rec(1) ok att]
  have key: "r \<in> set (pipeline_steps (committed w))" "st_document_id r = d" "st_name r = EXTERNAL_CALL"
    using r(1) find_step_iff [OF pipeline_okD(1) [OF ok]] by auto
  have r1: "r \<in> set (pipeline_steps (committed ?w1))" using key(1) rec(2) by auto
  have status1: "status_of e t (committed ?w1) = status_of e t (committed w)" for e t
    using rec(2) by auto
  note found = get_step_by_job_id_found [OF ok1 clean1 r1 r(3)]
  have st: "st_status r \<notin> {DONE, ERROR}" using r(2) by simp
  from partner_commit_db [OF clean1 ok1 r1 key(3) r(2), of p] obtain r' where
    r': "loaded_from r' (partner_row p (clock ?w1) r)" "new_version (committed ?w1) r r'"
      "committed (partner_commit p r ?w1) = put_step r' (committed ?w1)" "refines cfg {d} ?w1 (partner_commit p r ?w1)"
    using key(2) by auto
  note ok2 = refines_clean [OF r'(4)] refines_ok [OF r'(4) ok1 att]
  note recomp = recompute_document_status_db [OF ok2, of d]
  have "session_scope (apply_partner_result parse_json new_id raw p) w = apply_partner_result parse_json new_id raw p w"
    by (rule session_scope_refines [where body = "apply_partner_result parse_json new_id raw p", OF clean
        refines_apply_partner_result [where p = p, OF clean ok att]])
  then have out: "out = (Answer \<lparr>wr_status = PROCESSED, wr_document_status =
      Some (fst (recompute_document_status d (partner_commit p r ?w1)))\<rparr>,
      snd (recompute_document_status d (partner_commit p r ?w1)))"
    unfolding out_def partner_webhook_def sig body
    by (simp add: apply_partner_result_found [where parse_json = parse_json, OF js found st] key(2) case_prod_beta Let_def)
  have stat': "st_status r' = (if wp_status p = COMPLETED then DONE else ERROR)" "st_name r' = EXTERNAL_CALL"
      "st_document_id r' = d"
    using loaded_fromD(4-6) [OF r'(1)] key by (simp_all add: partner_row_def split: if_splits)
  have steps: "pipeline_steps (committed (snd out)) = pipeline_steps (committed (partner_commit p r ?w1))"
    using recomp(2) by (simp add: out)
  then have same: "find_step e t (committed (snd out)) = find_step e t (put_step r' (committed ?w1))" for e t
    by (simp add: find_step_def r'(3))
  show "fst out = Answer \<lparr>wr_status = PROCESSED, wr_document_status =
      Some (derive_document_status (document_statuses d (committed (snd out))))\<rparr>"
    using recomp(3) steps by (simp add: out document_statuses_def steps_of_def)
  show "status_of e t (committed (snd out)) = (if e = d \<and> t = EXTERNAL_CALL
      then Some (if wp_status p = COMPLETED then DONE else ERROR) else status_of e t (committed w))"
    using status_after_move [OF ok1 r'(2) stat'(3,2), of e t] stat'(1) status1 [of e t] same [of e t]
    by (simp add: status_of_def)
  show "in_sync d (committed (snd out))"
    unfolding out snd_conv recompute_in_sync [OF ok2] by simp
  have found': "find_step d EXTERNAL_CALL (committed (snd out)) = Some r'"
    unfolding same find_step_put_step [OF pipeline_okD(1) [OF ok1] r'(2)] using stat' by (simp add: step_key_def)
  have eq: "r' = (partner_row p (clock ?w1) r)\<lparr>st_updated_at := st_updated_at r'\<rparr>"
    by (rule loaded_fromD(1) [OF r'(1), symmetric])
  have "st_external_job_id r' = Some (wp_job_id p)" by (subst eq, simp add: partner_row_def r(3))
  with found' stat'(1) show "\<exists>r'. find_step d EXTERNAL_CALL (committed (snd out)) = Some r' \<and>
      st_status r' = (if wp_status p = COMPLETED then DONE else ERROR) \<and> st_external_job_id r' = Some (wp_job_id p)" by blast
  show "\<exists>r'. find_step d EXTERNAL_CALL (committed (snd out)) = Some r' \<and>
      st_result r' = Some (JObject (wp_result p)) \<and> st_external_job_id r' = Some (wp_job_id p)"
    if "wp_status p = COMPLETED"
  proof (intro exI conjI)
    show "find_step d EXTERNAL_CALL (committed (snd out)) = Some r'" by (rule found')
    show "st_result r' = Some (JObject (wp_result p))" "st_external_job_id r' = Some (wp_job_id p)"
      by (subst eq, simp add: partner_row_def that r(3))+
  qed
qed

text \<open>A callback that has nothing to do: for a finished step, or an unknown job. Only the audit row is new.\<close>

lemma webhook_ignored:
  fixes new_id :: uuid
  assumes clean: "clean w" and ok: "pipeline_ok cfg (committed w)" and att: "1 \<le> step_max_attempts cfg"
    and sig: "verify_signature cfg hmac_sha256 raw signature = Inr True"
    and body: "model_validate_json parse_json parse_datetime raw = Some p"
    and job: "job_unused (wp_job_id p) (committed w) \<or>
      (\<exists>r \<in> set (pipeline_steps (committed w)). st_external_job_id r = Some (wp_job_id p) \<and> st_status r \<in> {DONE, ERROR})"
  defines "out \<equiv> partner_webhook cfg hmac_sha256 parse_json parse_datetime new_id raw signature w"
  shows "fst out = Answer \<lparr>wr_status = (if job_unused (wp_job_id p) (committed w) then ACCEPTED else DUPLICATE_IGNORED), wr_document_status = None\<rparr>"
    and "pipeline_steps (committed (snd out)) = pipeline_steps (committed w)" "documents (committed (snd out)) = documents (committed w)"
    and "length (webhook_events (committed (snd out))) = length (webhook_events (committed w)) + 1"
    and "sent_of (trace (snd out)) = sent_of (trace w)"
proof -
  from body obtain js where js: "parse_json raw = Some js"
    by (cases "parse_json raw") (simp_all add: model_validate_json_def)
  let ?w1 = "record_webhook new_id (wp_job_id p) js w"
  note rec = record_webhook_db [OF clean ok, of new_id "wp_job_id p" js]
  note clean1 = refines_clean [OF rec(1)] and ok1 = refines_ok [OF rec(1) ok att]
  have sent1: "sent_of (trace ?w1) = sent_of (trace w)" by (simp add: record_webhook_def)
  have steps1: "pipeline_steps (committed ?w1) = pipeline_steps (committed w)" "documents (committed ?w1) = documents (committed w)"
    "length (webhook_events (committed ?w1)) = length (webhook_events (committed w)) + 1" "working ?w1 = committed ?w1"
    using clean by (simp_all add: record_webhook_def clean_def)
  have "apply_partner_result parse_json new_id raw p w =
    (Inr \<lparr>wr_status = (if job_unused (wp_job_id p) (committed w) then ACCEPTED else DUPLICATE_IGNORED), wr_document_status = None\<rparr>, ?w1)"
  proof (cases "job_unused (wp_job_id p) (committed w)")
    case True
    then have "filter (\<lambda>r. st_external_job_id r = Some (wp_job_id p)) (pipeline_steps (working ?w1)) = []"
      unfolding steps1(4) steps1(1) by (simp add: job_unused_def filter_empty_conv)
    then have "get_step_by_job_id (wp_job_id p) ?w1 = Inr None" by (simp add: get_step_by_job_id_def)
    with js True show ?thesis by (simp add: apply_partner_result_def Let_def)
  next
    case False
    with job obtain r where r: "r \<in> set (pipeline_steps (committed ?w1))" "st_external_job_id r = Some (wp_job_id p)"
      "st_status r \<in> {DONE, ERROR}" unfolding steps1(1) by blast
    from get_step_by_job_id_found [OF ok1 clean1 r(1,2)] js r(3) False show ?thesis
      by (auto simp: apply_partner_result_def Let_def)
  qed
  then have out: "out = (Answer \<lparr>wr_status = (if job_unused (wp_job_id p) (committed w) then ACCEPTED else DUPLICATE_IGNORED),
      wr_document_status = None\<rparr>, rollback ?w1)"
    unfolding out_def partner_webhook_def sig body using clean by (simp add: session_scope_def)
  show "fst out = Answer \<lparr>wr_status = (if job_unused (wp_job_id p) (committed w) then ACCEPTED else DUPLICATE_IGNORED), wr_document_status = None\<rparr>"
    "pipeline_steps (committed (snd out)) = pipeline_steps (committed w)" "documents (committed (snd out)) = documents (committed w)"
    "length (webhook_events (committed (snd out))) = length (webhook_events (committed w)) + 1"
    "sent_of (trace (snd out)) = sent_of (trace w)"
    using steps1 sent1 by (simp_all add: out rollback_def)
qed

subsection \<open>The whole way\<close>

definition start_statuses :: "step_name \<Rightarrow> step_status" where
  "start_statuses s = (if s = OCR then QUEUED else PENDING)"

lemma advance_OCR: "advance OCR start_statuses = (\<lambda>s. case s of OCR \<Rightarrow> DONE | EXTERNAL_CALL \<Rightarrow> PENDING | _ \<Rightarrow> QUEUED)"
proof
  fix s show "advance OCR start_statuses s = (case s of OCR \<Rightarrow> DONE | EXTERNAL_CALL \<Rightarrow> PENDING | _ \<Rightarrow> QUEUED)"
    by (cases s) (simp_all add: advance_def start_statuses_def Let_def enum_simps)
qed

lemma advance_branches:
  assumes "(a, b) \<in> {(METADATA, CHUNKING), (CHUNKING, METADATA)}"
  shows "advance a (advance OCR start_statuses) = (\<lambda>s. if s = OCR \<or> s = a then DONE else if s = b then QUEUED else PENDING)"
    and "advance b (advance a (advance OCR start_statuses)) = (\<lambda>s. if s = EXTERNAL_CALL then QUEUED else DONE)"
proof -
  show one: "advance a (advance OCR start_statuses) = (\<lambda>s. if s = OCR \<or> s = a then DONE else if s = b then QUEUED else PENDING)"
  proof
    fix s show "advance a (advance OCR start_statuses) s = (if s = OCR \<or> s = a then DONE else if s = b then QUEUED else PENDING)"
      using assms unfolding advance_OCR by (cases s) (auto simp: advance_def Let_def enum_simps)
  qed
  show "advance b (advance a (advance OCR start_statuses)) = (\<lambda>s. if s = EXTERNAL_CALL then QUEUED else DONE)"
  proof
    fix s show "advance b (advance a (advance OCR start_statuses)) s = (if s = EXTERNAL_CALL then QUEUED else DONE)"
      using assms unfolding one by (cases s) (auto simp: advance_def Let_def enum_simps)
  qed
qed

lemma advance_last: "advance EXTERNAL_CALL (\<lambda>s. if s = EXTERNAL_CALL then QUEUED else DONE) =
    (\<lambda>s. if s = EXTERNAL_CALL then AWAITING_CALLBACK else DONE)"
  by (rule ext) (simp add: advance_def Let_def)


text \<open>The five operations of a document that goes well, in either order of the two branches.\<close>

definition four_deliveries ::
  "settings \<Rightarrow> (string \<Rightarrow> payload option) \<Rightarrow> (step_name \<Rightarrow> draws) \<Rightarrow> (step_name \<Rightarrow> string) \<Rightarrow> step_name list \<Rightarrow> world \<Rightarrow> world" where
  "four_deliveries cfg parse_body dr body order w =
     fold (\<lambda>s v. snd (callback cfg parse_body (dr s) (body s) v)) order w"

lemma four_deliveries_track:
  assumes track: "on_track cfg d start_statuses w" and att: "1 \<le> step_max_attempts cfg"
    and good: "\<And>s. \<not> step_fails (dr s)"
    and body: "\<And>s. parse_body (body s) = Some \<lparr>payload_document_id = d, payload_step = s\<rparr>"
    and fresh: "job_unused (''j_'' @ take 16 (uuid_hex (job_uuid (dr EXTERNAL_CALL)))) (committed w)"
    and order: "(a, b) \<in> {(METADATA, CHUNKING), (CHUNKING, METADATA)}"
  defines "w' \<equiv> four_deliveries cfg parse_body dr body [OCR, a, b, EXTERNAL_CALL] w"
  shows "on_track cfg d (\<lambda>s. if s = EXTERNAL_CALL then AWAITING_CALLBACK else DONE) w'"
    and "refines cfg {d} w w'"
    and "\<exists>r. find_step d EXTERNAL_CALL (committed w') = Some r \<and>
      st_external_job_id r = Some (''j_'' @ take 16 (uuid_hex (job_uuid (dr EXTERNAL_CALL))))"
proof -
  let ?st1 = "advance OCR start_statuses" let ?st2 = "advance a ?st1" let ?st3 = "advance b ?st2"
  define w1 where "w1 = snd (callback cfg parse_body (dr OCR) (body OCR) w)"
  define w2 where "w2 = snd (callback cfg parse_body (dr a) (body a) w1)"
  define w3 where "w3 = snd (callback cfg parse_body (dr b) (body b) w2)"
  have w': "w' = snd (callback cfg parse_body (dr EXTERNAL_CALL) (body EXTERNAL_CALL) w3)"
    by (simp add: w'_def four_deliveries_def w1_def w2_def w3_def)
  note st2 = advance_branches(1) [OF order] and st3 = advance_branches(2) [OF order]
  have ab: "a \<noteq> EXTERNAL_CALL" "b \<noteq> EXTERNAL_CALL" "a \<noteq> b" "a \<noteq> OCR" "b \<noteq> OCR" using order by auto
  have "start_statuses OCR \<in> {QUEUED, RUNNING}" by (simp add: start_statuses_def)
  note s1 = delivery_succeeds [where parse_body = parse_body and body = "body OCR" and dr = "dr OCR", OF track att this good body, folded w1_def]
  have 1: "on_track cfg d ?st1 w1" "refines cfg {d} w w1" using s1(2,3) by (simp_all add: fresh_job_def)
  have "?st1 a \<in> {QUEUED, RUNNING}" using ab order by (auto simp: advance_OCR)
  note s2 = delivery_succeeds [where parse_body = parse_body and body = "body a" and dr = "dr a", OF 1(1) att this good body, folded w2_def]
  have 2: "on_track cfg d ?st2 w2" "refines cfg {d} w w2"
    using s2(2,3) ab refines_trans [OF 1(2)] by (simp_all add: fresh_job_def)
  have "?st2 b \<in> {QUEUED, RUNNING}" unfolding st2 using ab by simp
  note s3 = delivery_succeeds [where parse_body = parse_body and body = "body b" and dr = "dr b", OF 2(1) att this good body, folded w3_def]
  have 3: "on_track cfg d ?st3 w3" "refines cfg {d} w w3"
    using s3(2,3) ab refines_trans [OF 2(2)] by (simp_all add: fresh_job_def)
  have "job_unused (''j_'' @ take 16 (uuid_hex (job_uuid (dr EXTERNAL_CALL)))) (committed w3)"
  proof (rule job_unused_kept [OF _ _ _ fresh])
    show "pipeline_ok cfg (committed w3)" using 3(1) by (simp add: on_track_def)
    show "same_document e (committed w) (committed w3)" if "e \<noteq> d" for e
      using refines_same [OF 3(2)] that by simp
    show "status_of d EXTERNAL_CALL (committed w3) \<in> {Some PENDING, Some QUEUED}"
      using 3(1) unfolding st3 by (simp add: on_track_def)
  qed
  then have fresh3: "fresh_job (dr EXTERNAL_CALL) EXTERNAL_CALL (committed w3)" by (simp add: fresh_job_def)
  have "?st3 EXTERNAL_CALL \<in> {QUEUED, RUNNING}" unfolding st3 by simp
  note s4 = delivery_succeeds [where parse_body = parse_body and body = "body EXTERNAL_CALL" and dr = "dr EXTERNAL_CALL", OF 3(1) att this good body fresh3, folded w']
  show "on_track cfg d (\<lambda>s. if s = EXTERNAL_CALL then AWAITING_CALLBACK else DONE) w'"
    using s4(2) unfolding st3 advance_last .
  show "refines cfg {d} w w'" by (rule refines_trans [OF 3(2) s4(3)])
  show "\<exists>r. find_step d EXTERNAL_CALL (committed w') = Some r \<and>
      st_external_job_id r = Some (''j_'' @ take 16 (uuid_hex (job_uuid (dr EXTERNAL_CALL))))"
    using s4(4) by simp
qed

end
