(* ===== verification/Outcomes.thy ===== *)
theory Outcomes
  imports Pathways
begin

section \<open>What a stored document status promises\<close>

text \<open>
  The stored status may lag behind the steps when a process dies between two transactions, but
  it never lies: a READY document has its four results and a FAILED one has a failed step, in
  every state of every run, and neither status is ever left again. The detail of a READY
  document therefore always carries all its data.
\<close>

definition honest :: "database \<Rightarrow> bool" where
  "honest db \<longleftrightarrow> (\<forall>q \<in> set (documents db).
     (doc_status q = READY \<longrightarrow> (\<forall>s. status_of (doc_id q) s db = Some DONE)) \<and>
     (doc_status q = FAILED \<longrightarrow> (\<exists>s. status_of (doc_id q) s db = Some ERROR)))"

text \<open>The partner is only called, and so only answers, when everything else is done.\<close>

lemma external_done_all:
  assumes ok: "pipeline_ok cfg db" and ext: "status_of d EXTERNAL_CALL db = Some DONE"
  shows "status_of d s db = Some DONE"
proof -
  have parents: "\<forall>p \<in> parents PIPELINE s. status_of d p db = Some DONE" if "status_of d s db = Some DONE" for s
  proof -
    from that obtain r where "r \<in> set (pipeline_steps db)" "st_document_id r = d" "st_name r = s" "st_status r = DONE"
      using find_step_iff [OF pipeline_okD(1) [OF ok]] by (auto simp: status_of_def)
    with pipeline_okD(6) [OF ok this(1)] show ?thesis by (simp add: parents_done_def)
  qed
  have mc: "status_of d METADATA db = Some DONE" "status_of d CHUNKING db = Some DONE"
    using parents [OF ext] by (simp_all add: enum_simps)
  have "status_of d OCR db = Some DONE" using parents [OF mc(1)] by (simp add: enum_simps)
  with ext mc show ?thesis by (cases s) simp_all
qed

lemma tx_step_status_final:
  assumes "tx_step cfg db db' ns" "pipeline_ok cfg db" "status_of d s db = Some st" "st \<in> {DONE, ERROR}"
  shows "status_of d s db' = Some st"
proof -
  from assms(3) obtain r where "find_step d s db = Some r" "st_status r = st" by (auto simp: status_of_def)
  with tx_step_final_row [OF assms(1,2) this(1)] assms(4) show ?thesis by (simp add: status_of_def)
qed

lemma tx_step_honest:
  assumes tx: "tx_step cfg db db' ns" and ok: "pipeline_ok cfg db" and hon: "honest db"
  shows "honest db'"
  unfolding honest_def
proof
  note final = tx_step_status_final [OF tx ok]
  have keep: "(doc_status q = READY \<longrightarrow> (\<forall>s. status_of (doc_id q) s db' = Some DONE)) \<and>
      (doc_status q = FAILED \<longrightarrow> (\<exists>s. status_of (doc_id q) s db' = Some ERROR))" if "q \<in> set (documents db)" for q
    using hon that final [of "doc_id q"] unfolding honest_def by blast
  fix q assume q: "q \<in> set (documents db')"
  show "(doc_status q = READY \<longrightarrow> (\<forall>s. status_of (doc_id q) s db' = Some DONE)) \<and>
      (doc_status q = FAILED \<longrightarrow> (\<exists>s. status_of (doc_id q) s db' = Some ERROR))"
    using tx
  proof (cases rule: tx_step.cases)
    case idle
    with keep q show ?thesis by simp
  next
    case (move r r' evs)
    with keep q show ?thesis by simp
  next
    case (derive d q0 st now)
    note sch = pipeline_okD(1) [OF ok]
    from q derive(1) obtain q1 where q1: "q1 \<in> set (documents db)"
      "q = (if doc_id q1 = d then q1\<lparr>doc_status := st, doc_updated_at := now\<rparr> else q1)"
      by (auto simp: put_doc_status_def update_where_def)
    show ?thesis
    proof (cases "doc_id q1 = d")
      case False
      with keep q1 show ?thesis by simp
    next
      case True
      with q1 have "doc_id q = d" "doc_status q = st" by simp_all
      with derive external_done_all [OF ok, of d] show ?thesis
        by (auto simp: derive_status [OF sch] split: if_splits)
    qed
  next
    case (webhook e)
    with keep q show ?thesis by simp
  next
    case (upload user d ids filename now uri)
    with keep q show ?thesis by (auto simp: add_document_def new_document_def)
  qed
qed

lemma effect_path_honest:
  assumes "effect_path cfg db es" "pipeline_ok cfg db" "1 \<le> step_max_attempts cfg" "honest db"
  shows "honest (final_db db es)"
  using assms
proof (induction cfg db es rule: effect_path.induct)
  case (3 cfg db db' ns es)
  then show ?case using tx_step_honest [of cfg db db' ns] pipeline_ok_tx [of cfg db db' ns] by simp
qed simp_all

subsection \<open>Final statuses of documents\<close>

lemma tx_step_document_final:
  assumes tx: "tx_step cfg db db' ns" and ok: "pipeline_ok cfg db" and hon: "honest db"
    and q: "find_document e db = Some q" "doc_status q \<in> {READY, FAILED}"
  shows "find_document e db' = Some q"
  using tx
proof (cases rule: tx_step.cases)
  case (derive d q0 st now)
  show ?thesis
  proof (cases "e = d")
    case True
    then have [simp]: "q0 = q" using derive(3) q(1) by simp
    have mem: "q \<in> set (documents db)" "doc_id q = d" using find_documentD [OF q(1)] True by simp_all
    have "doc_status q = derive_document_status (document_statuses d db)"
      using hon mem q(2) unfolding honest_def derive_status [OF pipeline_okD(1) [OF ok]]
      by (auto split: if_splits)
    with derive(4,5) show ?thesis by simp
  next
    case False
    with q(1) find_documentD [OF q(1)] derive(1) show ?thesis by (simp add: find_document_put_doc_status)
  qed
next
  case (upload user d ids filename now uri)
  with q show ?thesis by (simp add: find_document_def add_document_def find_append)
qed (use q in \<open>simp_all add: find_document_def\<close>)

lemma effect_path_document_final:
  assumes "effect_path cfg db es" "pipeline_ok cfg db" "1 \<le> step_max_attempts cfg" "honest db"
    and "find_document e db = Some q" "doc_status q \<in> {READY, FAILED}"
  shows "find_document e (final_db db es) = Some q"
  using assms
proof (induction cfg db es rule: effect_path.induct)
  case (3 cfg db db' ns es)
  then have tx: "tx_step cfg db db' ns" by simp
  from 3 tx_step_document_final [OF tx 3(3,5,6,7)] tx_step_honest [OF tx 3(3,5)] pipeline_ok_tx [OF tx 3(3,4)]
  show ?case by simp
qed simp_all


subsection \<open>The detail of a document\<close>

lemma map_of_document_steps:
  assumes "schema_ok (working w)"
  shows "map_of (dict_of (map (\<lambda>r. (st_name r, r)) (document_steps d w))) s = find_step d s (working w)"
proof -
  let ?kv = "\<lambda>r. (st_name r, r)"
  have mset: "mset (document_steps d w) = mset (steps_of d (working w))" by (simp add: document_steps_def)
  then have dist: "distinct (map st_name (document_steps d w))"
    using distinct_steps_of [OF assms] by (metis mset_eq_imp_distinct_iff mset_map)
  have "map_of (map ?kv (document_steps d w)) = map_of (map ?kv (steps_of d (working w)))"
    using dist distinct_steps_of [OF assms] mset_eq_setD [OF mset]
    by (intro map_of_inject_set [THEN iffD2]) (simp_all add: comp_def)
  with dist map_of_map_key [OF distinct_steps_of [OF assms], of "\<lambda>r. r" d s] show ?thesis
    by (simp add: dict_of_distinct comp_def find_steps_of option.map_ident)
qed

lemma texts_JString: "texts (map JString cs) = Inr cs"
  by (induction cs) simp_all

lemma extract_data_done:
  assumes "\<And>s. map_of steps s = find_step d s db" "pipeline_ok cfg db" "\<And>s. status_of d s db = Some DONE"
  shows "\<exists>t m cs j pr. extract_data steps = Inr \<lparr>ed_ocr_text = Some t, ed_metadata = Some m, ed_chunks = Some cs,
    ed_external_job_id = Some j, ed_partner_result = Some pr\<rparr>"
proof -
  from done_row [OF assms(2,3), of OCR] obtain ro t where ocr_row: "find_step d OCR db = Some ro"
    "st_result ro = Some (JObject [(''text'', JString t)])" by (metis result_shape.simps(1))
  from done_row [OF assms(2,3), of METADATA] obtain rm m where meta_row: "find_step d METADATA db = Some rm"
    "st_result rm = Some (JObject m)" by (metis result_shape.simps(2))
  from done_row [OF assms(2,3), of CHUNKING] obtain rc cs where chunk_row: "find_step d CHUNKING db = Some rc"
    "st_result rc = Some (JObject [(''chunks'', JArray (map JString cs))])" by (metis result_shape.simps(3))
  from done_row [OF assms(2,3), of EXTERNAL_CALL] obtain re pr where ext_row: "find_step d EXTERNAL_CALL db = Some re"
    "st_result re = Some (JObject pr)" "st_status re = DONE" by (metis result_shape.simps(4))
  have "re \<in> set (pipeline_steps db)" "st_name re = EXTERNAL_CALL"
    using ext_row(1) find_step_iff [OF pipeline_okD(1) [OF assms(2)]] by auto
  with pipeline_okD(5) [OF assms(2) this(1)] ext_row(3) obtain j where "st_external_job_id re = Some j"
    by (auto simp: step_row_ok_def)
  with ocr_row meta_row chunk_row ext_row assms(1) show ?thesis
    by (simp add: extract_data_def step_item_def result_get_def texts_JString)
qed

lemma find_user_exists:
  assumes "schema_ok db" "q \<in> set (documents db)"
  shows "\<exists>u. find_user (doc_uploaded_by q) db = Some u"
proof -
  from schema_okD(7) [OF assms] obtain u where "u \<in> set (app_users db)" "user_id u = doc_uploaded_by q" by auto
  then have "find_user (doc_uploaded_by q) db \<noteq> None" by (auto simp: find_user_def find_None_iff)
  then show ?thesis by simp
qed

lemma get_document_detail_owner:
  assumes clean: "clean w" and ok: "pipeline_ok cfg (committed w)" and hon: "honest (committed w)"
    and q: "find_document d (committed w) = Some q"
  shows "\<exists>detail. get_document_detail (doc_org_id q) d w = Inr (Some detail) \<and> dd_id detail = d \<and>
    dd_status detail = doc_status q \<and> dd_steps detail = map step_out_of (document_steps d w) \<and>
    (doc_status q \<noteq> READY \<longrightarrow> dd_data detail = None) \<and>
    (doc_status q = READY \<longrightarrow> (\<exists>t m cs j pr. dd_data detail = Some \<lparr>ed_ocr_text = Some t, ed_metadata = Some m,
      ed_chunks = Some cs, ed_external_job_id = Some j, ed_partner_result = Some pr\<rparr>))"
proof -
  have work: "working w = committed w" using clean by (simp add: clean_def)
  note sch = pipeline_okD(1) [OF ok]
  have mem: "q \<in> set (documents (committed w))" "doc_id q = d" using find_documentD [OF q] by simp_all
  from find_user_exists [OF sch mem(1)] obtain u where u: "find_user (doc_uploaded_by q) (committed w) = Some u" by blast
  show ?thesis
  proof (cases "doc_status q = READY")
    case True
    then have "status_of d s (committed w) = Some DONE" for s
      using hon mem unfolding honest_def by blast
    from extract_data_done [OF _ ok this, of "dict_of (map (\<lambda>r. (st_name r, r)) (document_steps d w))"]
      map_of_document_steps [of w d] sch
    obtain t m cs j pr where "extract_data (dict_of (map (\<lambda>r. (st_name r, r)) (document_steps d w))) =
        Inr \<lparr>ed_ocr_text = Some t, ed_metadata = Some m, ed_chunks = Some cs, ed_external_job_id = Some j, ed_partner_result = Some pr\<rparr>"
      unfolding work by blast
    with True q u mem show ?thesis
      by (simp add: get_document_detail_def get_document_def work)
  next
    case False
    with q u mem show ?thesis
      by (simp add: get_document_detail_def get_document_def work)
  qed
qed

lemma get_document_detail_other:
  assumes "clean w" "\<And>q. find_document d (committed w) = Some q \<Longrightarrow> doc_org_id q \<noteq> org"
  shows "get_document_detail org d w = Inr None"
  using assms by (auto simp: get_document_detail_def get_document_def clean_def split: option.split)

text \<open>The data shown is what the steps stored.\<close>

lemma get_document_detail_final:
  assumes clean: "clean w" and ok: "pipeline_ok cfg (committed w)" and hon: "honest (committed w)"
    and q: "find_document d (committed w) = Some q"
  shows "\<exists>detail. get_document_detail (doc_org_id q) d w = Inr (Some detail) \<and> dd_filename detail = doc_filename q \<and>
    dd_status detail = doc_status q \<and>
    (doc_status q = READY \<longrightarrow> (\<forall>j kvs. (\<exists>r. find_step d EXTERNAL_CALL (committed w) = Some r \<and>
        st_result r = Some (JObject kvs) \<and> st_external_job_id r = Some j) \<longrightarrow>
      (\<exists>t m cs. dd_data detail = Some \<lparr>ed_ocr_text = Some t, ed_metadata = Some m, ed_chunks = Some cs,
        ed_external_job_id = Some j, ed_partner_result = Some kvs\<rparr>)))"
proof -
  have work: "working w = committed w" using clean by (simp add: clean_def)
  have sch: "schema_ok (working w)" using pipeline_okD(1) [OF ok] by (simp add: work)
  from get_document_detail_owner [OF clean ok hon q] obtain detail where
    det: "get_document_detail (doc_org_id q) d w = Inr (Some detail)" "dd_status detail = doc_status q"
    "doc_status q = READY \<Longrightarrow> \<exists>t m cs j pr. dd_data detail = Some \<lparr>ed_ocr_text = Some t, ed_metadata = Some m,
      ed_chunks = Some cs, ed_external_job_id = Some j, ed_partner_result = Some pr\<rparr>" by blast
  have name: "dd_filename detail = doc_filename q"
    using det(1) q by (auto simp: get_document_detail_def get_document_def work Let_def bind_result_Inr_iff split: if_splits option.splits)
  let ?steps = "dict_of (map (\<lambda>r. (st_name r, r)) (document_steps d w))"
  have data: "dd_data detail = Some e \<Longrightarrow> extract_data ?steps = Inr e" for e
    using det(1) q by (auto simp: get_document_detail_def get_document_def work Let_def bind_result_Inr_iff split: if_splits option.splits)
  have "\<exists>t m cs. dd_data detail = Some \<lparr>ed_ocr_text = Some t, ed_metadata = Some m, ed_chunks = Some cs,
      ed_external_job_id = Some j, ed_partner_result = Some kvs\<rparr>"
    if "doc_status q = READY" "find_step d EXTERNAL_CALL (committed w) = Some r" "st_result r = Some (JObject kvs)"
      "st_external_job_id r = Some j" for j kvs r
  proof -
    from det(3) [OF that(1)] obtain t m cs j' pr where e: "dd_data detail = Some \<lparr>ed_ocr_text = Some t, ed_metadata = Some m,
      ed_chunks = Some cs, ed_external_job_id = Some j', ed_partner_result = Some pr\<rparr>" by blast
    have "step_item ?steps EXTERNAL_CALL = Inr r"
      using map_of_document_steps [OF sch, of d EXTERNAL_CALL] that(2) by (simp add: step_item_def work)
    with data [OF e] that(3,4) have "j' = j" "pr = kvs" by (auto simp: extract_data_def bind_result_Inr_iff)
    with e show ?thesis by blast
  qed
  with det(1,2) name show ?thesis by blast
qed

end
