(* ===== verification/Acknowledgements.thy ===== *)
theory Acknowledgements
  imports Progress
begin

section \<open>What an acknowledgement means\<close>

text \<open>
  A message that the worker acknowledges is gone. Its step is then finished or waits for the
  partner, or its document is FAILED or does not exist.
\<close>

definition settled :: "uuid \<Rightarrow> step_name \<Rightarrow> database \<Rightarrow> bool" where
  "settled d s db \<longleftrightarrow> status_of d s db \<in> {Some AWAITING_CALLBACK, Some DONE, Some ERROR} \<or>
     (\<forall>q. find_document d db = Some q \<longrightarrow> doc_status q = FAILED)"

lemma nothing_settled:
  assumes "clean w" "pipeline_ok cfg (committed w)" "deliverable p (committed w)"
    and "runnable_row (payload_step p) (payload_document_id p) w = None"
  shows "settled (payload_document_id p) (payload_step p) (committed w)"
proof (rule ccontr)
  assume no: "\<not> settled (payload_document_id p) (payload_step p) (committed w)"
  obtain r where r: "find_step (payload_document_id p) (payload_step p) (committed w) = Some r"
    using assms(3) by (auto simp: deliverable_def)
  have "st_status r \<in> {PENDING, QUEUED, RUNNING}"
    using no r by (cases "st_status r") (auto simp: settled_def status_of_def)
  with no r runnable_row_iff [OF assms(1,2), of "payload_step p" "payload_document_id p" r] assms(4)
  show False by (auto simp: settled_def)
qed

lemma handle_success_settled:
  assumes clean: "clean w" and ok: "pipeline_ok cfg (committed w)" and att: "1 \<le> step_max_attempts cfg"
    and msg: "deliverable p (committed w)" and fresh: "fresh_job dr (payload_step p) (committed w)"
    and run: "runnable_row (payload_step p) (payload_document_id p) w = Some r" and good: "\<not> step_fails dr"
  shows "settled (payload_document_id p) (payload_step p) (committed (snd (handle cfg dr (payload_step p) p w)))"
proof -
  let ?d = "payload_document_id p" and ?s = "payload_step p"
  obtain row1 w1 r1 where mr: "mark_running ?s ?d r w = (row1, w1)" and r1: "refines cfg {?d} w w1" "clean w1"
    "pipeline_ok cfg (committed w1)" "r1 \<in> set (pipeline_steps (committed w1))" "loaded_from r1 row1"
    "st_document_id r1 = ?d" "st_name r1 = ?s" "st_status r1 = RUNNING" "fresh_job dr (payload_step p) (committed w1)"
    by (rule handle_started [OF clean ok att msg fresh run])
  note row = runnable_rowD [OF clean ok run]
  have "\<forall>q \<in> parents PIPELINE ?s. status_of ?d q (committed w) = Some DONE"
    using pipeline_okD(6) [OF ok row(3)] deliverableD [OF msg row(1)] row(4,5) by (simp add: parents_done_def)
  with run_step_fails_iff [OF clean ok _ this, of dr row1] good row(1) obtain out where
    out: "run_step dr ?s (AList.update ?s row1 (load_steps ?d w)) = Inr out"
    by (cases "run_step dr ?s (AList.update ?s row1 (load_steps ?d w))") auto
  obtain row2 r2 w2 where so: "save_output ?s ?d row1 out w1 = (row2, w2)" and r2: "refines cfg {?d} w1 w2" "clean w2"
    "pipeline_ok cfg (committed w2)" "r2 \<in> set (pipeline_steps (committed w2))" "st_document_id r2 = ?d" "st_name r2 = ?s"
    "st_status r2 = (if ?s = EXTERNAL_CALL then AWAITING_CALLBACK else DONE)" "loaded_from r2 row2"
    by (rule handle_saved [OF r1(2,3) att r1(4-8) out r1(9)])
  have st2: "st_status row2 = (if ?s = EXTERNAL_CALL then AWAITING_CALLBACK else DONE)"
    using loaded_fromD(4) [OF r2(8)] r2(7) by simp
  have found: "find_step ?d ?s (committed w2) = Some r2" using find_step_iff [OF pipeline_okD(1) [OF r2(3)]] r2(4-6) by simp
  show ?thesis
  proof (cases "?s = EXTERNAL_CALL")
    case True
    then have "snd (handle cfg dr ?s p w) = w2" using run mr out so st2 by (simp add: handle_def Let_def case_prod_beta)
    with found r2(7) True show ?thesis by (simp add: settled_def status_of_def)
  next
    case False
    note ref3 = refines_trigger_successors [OF r2(2,3) att r2(4,5)]
    have "snd (handle cfg dr ?s p w) \<in> {snd (trigger_successors PIPELINE ?d w2),
        snd (recompute_document_status ?d (snd (trigger_successors PIPELINE ?d w2)))}"
      using run mr out so st2 False by (simp add: handle_def Let_def case_prod_beta split: sum.split)
    then have "refines cfg {?d} w2 (snd (handle cfg dr ?s p w))"
      using ref3 refines_trans [OF ref3 recompute_document_status_db(1) [OF refines_clean [OF ref3] refines_ok [OF ref3 r2(3) att]]] by auto
    from refines_final_row [OF this r2(3) att found] r2(7) False
    have "find_step ?d ?s (committed (snd (handle cfg dr ?s p w))) = Some r2" by simp
    with r2(7) False show ?thesis by (simp add: settled_def status_of_def)
  qed
qed

lemma acked_settled:
  assumes clean: "clean w" and ok: "pipeline_ok cfg (committed w)" and att: "1 \<le> step_max_attempts cfg"
    and msg: "deliverable p (committed w)" and fresh: "fresh_job dr (payload_step p) (committed w)"
    and body: "parse_body body = Some p" and ack: "fst (callback cfg parse_body dr body w) = BasicAck"
  shows "settled (payload_document_id p) (payload_step p) (committed (snd (callback cfg parse_body dr body w)))"
proof -
  let ?h = "handle cfg dr (payload_step p) p w"
  note ref = refines_handle [OF clean ok att msg fresh]
  have "callback cfg parse_body dr body w = (case handle_in_session cfg dr p w of (action, w1) \<Rightarrow> (if action = ACK then BasicAck else BasicNackRequeue, w1))"
    using session_scope_refines [where body = "handle_in_session cfg dr p", OF clean] handle_in_session_refines [OF clean ref] body ref
    by (simp add: callback_def)
  with handle_in_session_refines [OF clean ref] have snd: "snd (callback cfg parse_body dr body w) = snd ?h"
    by (simp add: case_prod_beta)
  from ack snd \<open>callback cfg parse_body dr body w = _\<close> have inr: "fst ?h = Inr ACK"
    by (auto simp: handle_in_session_def split: prod.splits sum.splits if_splits)
  have "settled (payload_document_id p) (payload_step p) (committed (snd ?h))"
  proof (cases "runnable_row (payload_step p) (payload_document_id p) w")
    case None
    with nothing_settled [OF clean ok msg None] show ?thesis by (simp add: handle_nothing)
  next
    case (Some r)
    show ?thesis
    proof (cases "step_fails dr")
      case False
      from handle_success_settled [OF clean ok att msg fresh Some False] show ?thesis .
    next
      case True
      note fail = handle_failure [OF clean ok att msg Some True]
      from fail(1) inr have "st_attempts r + 1 \<ge> step_max_attempts cfg" by (simp split: if_splits)
      with fail(2) show ?thesis by (auto simp: settled_def status_of_def)
    qed
  qed
  with snd show ?thesis by simp
qed

end
