(* ===== verification/Cluster.thy ===== *)
theory Cluster
  imports Turns Outcomes Acknowledgements
begin

section \<open>Several workers at a time\<close>

text \<open>
  Any number of workers share the database and the queues. The scheduler chooses what happens
  next: a worker that is free takes a message, a worker takes a turn, one that is through answers
  the broker, one dies and its message returns to the queue. Time passes and the broker goes
  down and comes up at will. The job identifier that a worker draws when it runs the external call
  is new then.
\<close>

record cluster =
  shared :: world
  queue :: "payload multiset"
  busy :: "(payload \<times> phase) list"

datatype choice =
    TakeMessage payload
  | Turn nat draws
  | Reply nat
  | Die nat
  | Environment timestamp "bool list"

definition drop_nth :: "nat \<Rightarrow> 'a list \<Rightarrow> 'a list" where
  "drop_nth i xs = take i xs @ drop (Suc i) xs"

definition turn_of :: "settings \<Rightarrow> nat \<Rightarrow> draws \<Rightarrow> cluster \<Rightarrow> cluster" where
  "turn_of cfg i dr c =
     (case busy c ! i of (p, ph) \<Rightarrow> case turn cfg dr p ph (shared c) of (ph', w') \<Rightarrow>
        c\<lparr>shared := w', queue := queue c + mset (sent_of (new_effects (shared c) w')), busy := (busy c)[i := (p, ph')]\<rparr>)"

text \<open>What \<open>callback\<close> answers: an acknowledged message is gone, any other one is requeued.\<close>

fun returned :: "payload \<Rightarrow> phase \<Rightarrow> payload multiset option" where
  "returned p (Replying ACK) = Some {#}"
| "returned p (Replying RETRY) = Some {#p#}"
| "returned p (Raising e) = Some {#p#}"
| "returned p _ = None"

fun draw_ok :: "draws \<Rightarrow> payload \<times> phase \<Rightarrow> database \<Rightarrow> bool" where
  "draw_ok dr (p, Executing loaded row document) db = fresh_job dr (payload_step p) db"
| "draw_ok dr _ db = True"

fun proceed :: "settings \<Rightarrow> choice \<Rightarrow> cluster \<Rightarrow> cluster option" where
  "proceed cfg (TakeMessage p) c =
     (if p \<in># queue c then Some (c\<lparr>queue := queue c - {#p#}, busy := busy c @ [(p, Received)]\<rparr>) else None)"
| "proceed cfg (Turn i dr) c =
     (if i < length (busy c) \<and> draw_ok dr (busy c ! i) (committed (shared c))
      then Some (turn_of cfg i dr c) else None)"
| "proceed cfg (Reply i) c =
     (if i < length (busy c)
      then map_option (\<lambda>M. c\<lparr>queue := queue c + M, busy := drop_nth i (busy c)\<rparr>)
        (returned (fst (busy c ! i)) (snd (busy c ! i)))
      else None)"
| "proceed cfg (Die i) c =
     (if i < length (busy c)
      then Some (c\<lparr>queue := queue c + {#fst (busy c ! i)#}, busy := drop_nth i (busy c)\<rparr>) else None)"
| "proceed cfg (Environment now outcomes) c = Some (c\<lparr>shared := (shared c)\<lparr>clock := now, faults := outcomes\<rparr>\<rparr>)"

fun schedule :: "settings \<Rightarrow> choice list \<Rightarrow> cluster \<Rightarrow> cluster option" where
  "schedule cfg [] c = Some c"
| "schedule cfg (x # xs) c = (case proceed cfg x c of None \<Rightarrow> None | Some c' \<Rightarrow> schedule cfg xs c')"

subsection \<open>The messages that exist\<close>

text \<open>A worker between its claim and the publication holds the message that it is about to send.\<close>

fun about_to_send :: "payload \<times> phase \<Rightarrow> payload list" where
  "about_to_send (p, Sending t ts document) = [\<lparr>payload_document_id = payload_document_id p, payload_step = t\<rparr>]"
| "about_to_send _ = []"

definition unsent :: "(payload \<times> phase) list \<Rightarrow> payload multiset" where
  "unsent ws = mset (concat (map about_to_send ws))"

definition held :: "cluster \<Rightarrow> payload multiset" where
  "held c = queue c + mset (map fst (busy c)) + unsent (busy c)"

lemma unsent_simps [simp]:
  "unsent [] = {#}" "unsent (x # xs) = mset (about_to_send x) + unsent xs" "unsent (xs @ ys) = unsent xs + unsent ys"
  by (simp_all add: unsent_def)

text \<open>A worker in the list, as the others before and after it.\<close>

lemma busy_split:
  assumes "i < length xs"
  obtains ys zs where "xs = ys @ xs ! i # zs" "\<And>x. xs[i := x] = ys @ x # zs" "drop_nth i xs = ys @ zs"
  using assms by (metis drop_nth_def id_take_nth_drop upd_conv_take_nth_drop)

subsection \<open>What one turn does to the database\<close>

abbreviation key_of :: "payload \<Rightarrow> uuid \<times> step_name" where
  "key_of p \<equiv> (payload_document_id p, payload_step p)"

inductive turn_tx :: "settings \<Rightarrow> payload \<Rightarrow> database \<Rightarrow> database \<Rightarrow> bool" for cfg p db where
  nothing: "turn_tx cfg p db db"
| row: "r \<in> set (pipeline_steps db) \<Longrightarrow> step_move cfg db r r' evs \<Longrightarrow>
    step_key r = key_of p \<and> st_status r \<in> {QUEUED, RUNNING} \<or> st_status r = PENDING \<Longrightarrow>
    turn_tx cfg p db (put_step r' db)"
| status: "st = derive_document_status (document_statuses (payload_document_id p) db) \<Longrightarrow> st \<noteq> PROCESSING \<Longrightarrow>
    turn_tx cfg p db (put_doc_status (payload_document_id p) st now db)"

lemma turn_tx_ok:
  assumes "turn_tx cfg p db db'" "pipeline_ok cfg db"
  shows "pipeline_ok cfg db'"
  using assms by (induction rule: turn_tx.induct) (auto intro: pipeline_ok_step pipeline_ok_doc_status)

text \<open>The rows of other steps stay, unless they were PENDING.\<close>

lemma turn_tx_other_row:
  assumes "turn_tx cfg p db db'" "pipeline_ok cfg db"
    and "find_step d s db = Some q" "(d, s) \<noteq> key_of p" "st_status q \<noteq> PENDING"
  shows "find_step d s db' = Some q"
  using assms
proof (induction rule: turn_tx.induct)
  case (row r r' evs)
  note sch = pipeline_okD(1) [OF row.prems(1)]
  have "step_key r \<noteq> (d, s)"
    using row.hyps(3) row.prems(2-4) status_of_row [OF sch row.hyps(1)] by (auto simp: step_key_def status_of_def)
  then show ?case
    using row.prems(2) step_move_key [OF row.hyps(2)]
    by (simp add: find_step_put_step [OF sch pipeline_ok_step(2) [OF row.prems(1) row.hyps(1,2)]])
qed simp_all

lemma turn_tx_settled_row:
  assumes "turn_tx cfg p db db'" "pipeline_ok cfg db"
    and "find_step d s db = Some q" "st_status q \<in> {AWAITING_CALLBACK, DONE, ERROR}"
  shows "find_step d s db' = Some q"
  using assms
proof (induction rule: turn_tx.induct)
  case (row r r' evs)
  note sch = pipeline_okD(1) [OF row.prems(1)]
  have "step_key r \<noteq> (d, s)"
    using row.hyps(3) row.prems(2-3) status_of_row [OF sch row.hyps(1)] by (auto simp: step_key_def status_of_def)
  then show ?case
    using row.prems(2) step_move_key [OF row.hyps(2)]
    by (simp add: find_step_put_step [OF sch pipeline_ok_step(2) [OF row.prems(1) row.hyps(1,2)]])
qed simp_all

lemma turn_tx_final_status:
  assumes "turn_tx cfg p db db'" "pipeline_ok cfg db"
    and "status_of d s db = Some st" "st \<in> {AWAITING_CALLBACK, DONE, ERROR}"
  shows "status_of d s db' = Some st"
  using turn_tx_settled_row [OF assms(1,2)] assms(3,4) by (auto simp: status_of_def)

lemma turn_tx_left_pending:
  assumes "turn_tx cfg p db db'" "pipeline_ok cfg db"
    and "status_of d s db = Some st" "st \<noteq> PENDING"
  shows "\<exists>st'. status_of d s db' = Some st' \<and> st' \<noteq> PENDING"
  using assms
proof (induction rule: turn_tx.induct)
  case (row r r' evs)
  show ?case by (rule tx_step_left_pending [OF tx_step.move [OF row.hyps(1,2)] row.prems])
qed simp_all

lemma turn_tx_find_step:
  assumes "turn_tx cfg p db db'" "pipeline_ok cfg db" "find_step d s db \<noteq> None"
  shows "find_step d s db' \<noteq> None"
  using assms
proof (induction rule: turn_tx.induct)
  case (row r r' evs)
  show ?case by (rule tx_step_find_step [OF tx_step.move [OF row.hyps(1,2)] row.prems])
qed simp_all

lemma turn_tx_deliverable:
  assumes "turn_tx cfg p db db'" "pipeline_ok cfg db" "deliverable q db"
  shows "deliverable q db'"
  using turn_tx_left_pending [OF assms(1,2)] assms(3) by (fastforce simp: deliverable_def status_of_def)

lemma turn_tx_parents:
  assumes "turn_tx cfg p db db'" "pipeline_ok cfg db" "\<forall>u \<in> parents PIPELINE s. status_of d u db = Some DONE"
  shows "\<forall>u \<in> parents PIPELINE s. status_of d u db' = Some DONE"
  using turn_tx_final_status [OF assms(1,2)] assms(3) by simp

text \<open>A derived status other than PROCESSING is final.\<close>

lemma turn_tx_derived:
  assumes tx: "turn_tx cfg p db db'" and ok: "pipeline_ok cfg db"
    and st: "st = derive_document_status (document_statuses d db)" "st \<noteq> PROCESSING"
  shows "st = derive_document_status (document_statuses d db')"
proof -
  note sch = pipeline_okD(1) [OF ok] and sch' = pipeline_okD(1) [OF turn_tx_ok [OF tx ok]]
  show ?thesis
  proof (cases "\<exists>s. status_of d s db = Some ERROR")
    case True
    with turn_tx_final_status [OF tx ok, of d] have "\<exists>s. status_of d s db' = Some ERROR" by blast
    with True st show ?thesis by (simp add: derive_status [OF sch] derive_status [OF sch'])
  next
    case False
    with st have ext: "status_of d EXTERNAL_CALL db = Some DONE" "st = READY"
      by (auto simp: derive_status [OF sch] split: if_splits)
    have "status_of d s db' = Some DONE" for s
      using turn_tx_final_status [OF tx ok external_done_all [OF ok ext(1)]] by simp
    with ext(2) show ?thesis by (simp add: derive_status [OF sch'])
  qed
qed

lemma honest_cong:
  "(\<And>d s. status_of d s db' = status_of d s db) \<Longrightarrow>
    map (\<lambda>q. (doc_id q, doc_status q)) (documents db') = map (\<lambda>q. (doc_id q, doc_status q)) (documents db) \<Longrightarrow>
    honest db' = honest db"
proof -
  assume same: "\<And>d s. status_of d s db' = status_of d s db"
    and rows: "map (\<lambda>q. (doc_id q, doc_status q)) (documents db') = map (\<lambda>q. (doc_id q, doc_status q)) (documents db)"
  have "honest db \<longleftrightarrow> (\<forall>(d, st) \<in> set (map (\<lambda>q. (doc_id q, doc_status q)) (documents db)).
      (st = READY \<longrightarrow> (\<forall>s. status_of d s db = Some DONE)) \<and> (st = FAILED \<longrightarrow> (\<exists>s. status_of d s db = Some ERROR)))" for db
    by (auto simp: honest_def)
  then show ?thesis by (simp only: rows same)
qed

lemma turn_tx_honest:
  assumes tx: "turn_tx cfg p db db'" and ok: "pipeline_ok cfg db" and hon: "honest db"
  shows "honest db'"
  using tx
proof (cases rule: turn_tx.cases)
  case nothing
  with hon show ?thesis by simp
next
  case (row r r' evs)
  with tx_step_honest [OF tx_step.move [OF row(2,3)] ok hon] show ?thesis by simp
next
  case (status st now)
  let ?d = "payload_document_id p"
  show ?thesis
  proof (cases "\<exists>q. find_document ?d db = Some q \<and> doc_status q \<noteq> st")
    case True
    with tx_step_honest [OF tx_step.derive ok hon] status show ?thesis by blast
  next
    case False
    then have "doc_status q = st" if "q \<in> set (documents db)" "doc_id q = ?d" for q
      using that find_document_iff [OF pipeline_okD(1) [OF ok], of ?d q] by auto
    then have "map (\<lambda>q. (doc_id q, doc_status q)) (documents (put_doc_status ?d st now db)) =
        map (\<lambda>q. (doc_id q, doc_status q)) (documents db)"
      by (auto simp: put_doc_status_def update_where_def)
    with hon status(1) show ?thesis using honest_cong [of db' db] by simp
  qed
qed

end
