(* ===== verification/ClusterInvariant.thy ===== *)
theory ClusterInvariant
  imports Cluster
begin

section \<open>What holds while several workers run\<close>

text \<open>
  \<open>phase_ok\<close> is what a worker may rely on between its turns, \<open>cluster_ok\<close> the invariant of the
  whole: the database invariant, an honest document status, and at most one message, in a queue
  or in a worker's hands, for each step, and only for steps that have left PENDING. A row that a
  worker has loaded is therefore its own, and no other worker changes it.
\<close>

abbreviation current_row :: "database \<Rightarrow> payload \<Rightarrow> pipeline_step option" where
  "current_row db p \<equiv> find_step (payload_document_id p) (payload_step p) db"

definition triggerable :: "database \<Rightarrow> uuid \<Rightarrow> step_name list \<Rightarrow> bool" where
  "triggerable db d ts \<longleftrightarrow> (\<forall>t \<in> set ts. \<forall>u \<in> parents PIPELINE t. status_of d u db = Some DONE)"

fun phase_ok :: "database \<Rightarrow> payload \<Rightarrow> phase \<Rightarrow> bool" where
  "phase_ok db p (Loaded loaded row) \<longleftrightarrow> current_row db p = Some row \<and> st_status row \<in> {QUEUED, RUNNING}"
| "phase_ok db p (Starting loaded row document) \<longleftrightarrow>
     current_row db p = Some row \<and> st_status row \<in> {QUEUED, RUNNING} \<and> doc_status document = PROCESSING"
| "phase_ok db p (Executing loaded row document) \<longleftrightarrow>
     (\<exists>r. current_row db p = Some r \<and> loaded_from r row \<and> st_status r = RUNNING) \<and> doc_status document = PROCESSING"
| "phase_ok db p (Saved document) \<longleftrightarrow>
     status_of (payload_document_id p) (payload_step p) db = Some DONE \<and> doc_status document = PROCESSING"
| "phase_ok db p (Claiming ts document) \<longleftrightarrow>
     status_of (payload_document_id p) (payload_step p) db = Some DONE \<and> doc_status document = PROCESSING \<and>
     triggerable db (payload_document_id p) ts"
| "phase_ok db p (Sending t ts document) \<longleftrightarrow>
     status_of (payload_document_id p) (payload_step p) db = Some DONE \<and> doc_status document = PROCESSING \<and>
     triggerable db (payload_document_id p) ts"
| "phase_ok db p (Deriving document) \<longleftrightarrow>
     status_of (payload_document_id p) (payload_step p) db \<in> {Some DONE, Some ERROR} \<and> doc_status document = PROCESSING"
| "phase_ok db p (Recording new document) \<longleftrightarrow>
     status_of (payload_document_id p) (payload_step p) db \<in> {Some DONE, Some ERROR} \<and> doc_status document = PROCESSING \<and>
     (new \<noteq> PROCESSING \<longrightarrow> new = derive_document_status (document_statuses (payload_document_id p) db))"
| "phase_ok db p (Replying ACK) \<longleftrightarrow> settled (payload_document_id p) (payload_step p) db"
| "phase_ok db p _ \<longleftrightarrow> True"

text \<open>The turns of the other workers do not disturb it.\<close>

lemma turn_tx_triggerable:
  assumes "turn_tx cfg p db db'" "pipeline_ok cfg db" "triggerable db d ts"
  shows "triggerable db' d ts"
  using turn_tx_parents [OF assms(1,2)] assms(3) unfolding triggerable_def by blast

lemma turn_tx_settled:
  assumes tx: "turn_tx cfg p db db'" and ok: "pipeline_ok cfg db" and hon: "honest db" and set: "settled d s db"
  shows "settled d s db'"
proof (cases "status_of d s db \<in> {Some AWAITING_CALLBACK, Some DONE, Some ERROR}")
  case True
  with turn_tx_final_status [OF tx ok, of d s] show ?thesis by (auto simp: settled_def)
next
  case False
  with set have failed: "doc_status q = FAILED" if "find_document d db = Some q" for q
    using that by (simp add: settled_def)
  show ?thesis
    using tx
  proof (cases rule: turn_tx.cases)
    case (status st now)
    have "doc_status q = FAILED" if q: "find_document d db' = Some q" for q
    proof -
      from q status(1) obtain q0 where q0: "find_document d db = Some q0"
        "q = (if doc_id q0 = payload_document_id p then q0\<lparr>doc_status := st, doc_updated_at := now\<rparr> else q0)"
        by (auto simp: find_document_put_doc_status)
      show ?thesis
      proof (cases "d = payload_document_id p")
        case True
        from failed [OF q0(1)] hon find_documentD [OF q0(1)] have "\<exists>s. status_of d s db = Some ERROR"
          unfolding honest_def by blast
        with True status(2) have "st = FAILED" by (simp add: derive_status [OF pipeline_okD(1) [OF ok]])
        with q0 True find_documentD [OF q0(1)] show ?thesis by simp
      next
        case False
        with q0 failed [OF q0(1)] find_documentD [OF q0(1)] show ?thesis by simp
      qed
    qed
    then show ?thesis by (simp add: settled_def)
  qed (use set failed in \<open>auto simp: settled_def find_document_def\<close>)
qed

lemma phase_ok_other:
  assumes tx: "turn_tx cfg p db db'" and ok: "pipeline_ok cfg db" and hon: "honest db"
    and other: "q \<noteq> p" and ph: "phase_ok db q ph"
  shows "phase_ok db' q ph"
proof -
  have key: "key_of q \<noteq> key_of p" using other by (metis payload.equality old.unit.exhaust prod.inject)
  note row = turn_tx_other_row [OF tx ok _ key]
  note keep = turn_tx_final_status [OF tx ok] turn_tx_triggerable [OF tx ok] turn_tx_derived [OF tx ok]
    turn_tx_settled [OF tx ok hon]
  from ph show ?thesis
  proof (cases ph)
    case (Executing loaded r document)
    with ph obtain r' where "current_row db q = Some r'" "loaded_from r' r" "st_status r' = RUNNING" by auto
    with row [of r'] ph Executing show ?thesis by auto
  next
    case (Replying a)
    with ph keep show ?thesis by (cases a) auto
  qed (use row keep in auto)
qed

subsection \<open>A turn is sound\<close>

text \<open>What a turn adds to the messages: the ones for the steps that it has just claimed.\<close>

definition unclaimed :: "database \<Rightarrow> payload \<Rightarrow> bool" where
  "unclaimed db x \<longleftrightarrow> status_of (payload_document_id x) (payload_step x) db = Some PENDING"

definition claimed_in :: "database \<Rightarrow> database \<Rightarrow> payload multiset \<Rightarrow> bool" where
  "claimed_in db db' N \<longleftrightarrow> (\<forall>x. count N x = (if unclaimed db x \<and> \<not> unclaimed db' x then 1 else 0))"

text \<open>A step that a turn finishes is the worker's own, and the worker goes on from there.\<close>

fun outcome :: "phase \<Rightarrow> step_status option" where
  "outcome (Saved document) = Some DONE"
| "outcome (Deriving document) = Some ERROR"
| "outcome _ = None"

definition finishes :: "payload \<Rightarrow> phase \<Rightarrow> database \<Rightarrow> database \<Rightarrow> bool" where
  "finishes p ph db db' \<longleftrightarrow> (\<forall>d u st. st \<in> {DONE, ERROR} \<longrightarrow> status_of d u db' = Some st \<longrightarrow>
     status_of d u db = Some st \<or> d = payload_document_id p \<and> outcome ph = Some st)"

lemma finishes_same: "(\<And>d u. status_of d u db' = status_of d u db) \<Longrightarrow> finishes p ph db db'"
  by (simp add: finishes_def)

lemma finishes_refl [simp]: "finishes p ph db db"
  by (rule finishes_same) simp

definition sound_turn :: "settings \<Rightarrow> payload \<Rightarrow> phase \<Rightarrow> world \<Rightarrow> phase \<Rightarrow> world \<Rightarrow> bool" where
  "sound_turn cfg p ph w ph' w' \<longleftrightarrow> clean w' \<and> turn_tx cfg p (committed w) (committed w') \<and>
     phase_ok (committed w') p ph' \<and> finishes p ph' (committed w) (committed w') \<and> (\<exists>es. trace w' = trace w @ es) \<and>
     (\<exists>N. claimed_in (committed w) (committed w') N \<and>
       (mset (sent_of (new_effects w w')) + mset (about_to_send (p, ph')) = mset (about_to_send (p, ph)) + N \<or>
        N = {#} \<and> faults w \<noteq> [] \<and> sent_of (new_effects w w') = [] \<and> about_to_send (p, ph') = []))"

lemma sound_turn_quiet:
  assumes "clean w'" "turn_tx cfg p (committed w) (committed w')" "phase_ok (committed w') p ph'"
    and "trace w' = trace w @ es" "sent_of es = []" "about_to_send (p, ph') = about_to_send (p, ph)"
    and "\<And>x. unclaimed (committed w) x \<Longrightarrow> unclaimed (committed w') x" "finishes p ph' (committed w) (committed w')"
  shows "sound_turn cfg p ph w ph' w'"
  using assms by (auto simp: sound_turn_def new_effects_def claimed_in_def intro!: exI [of _ "{#}"])

lemma trace_commits:
  "\<exists>db ns. trace (snd (mark_running s d row w)) = trace w @ [Committed db ns]"
  "\<exists>db ns. trace (snd (save_output s d row out w)) = trace w @ [Committed db ns]"
  "\<exists>db ns. trace (snd (claim_step d t w)) = trace w @ [Committed db ns]"
  "\<exists>db ns. trace (snd (record_failure cfg d row e document w)) = trace w @ [Committed db ns]"
  by (simp_all add: mark_running_def save_output_defs claim_step_def claim_pending_step_def record_failure_def
      Let_def case_prod_beta)

lemma sound_reading:
  assumes "clean w" "phase_ok (committed w) p ph'" "about_to_send (p, ph') = about_to_send (p, ph)"
  shows "sound_turn cfg p ph w ph' w"
  using assms turn_tx.nothing by (intro sound_turn_quiet [where es = "[]"]) auto

text \<open>\<open>handle\<close>, up to the reading of the document.\<close>

lemma sound_received:
  assumes clean: "clean w" and ok: "pipeline_ok cfg (committed w)" and msg: "deliverable p (committed w)"
  shows "sound_turn cfg p Received w (check_row (payload_step p) (payload_document_id p) w) w"
proof -
  from msg obtain r where r: "current_row (committed w) p = Some r" "st_status r \<noteq> PENDING"
    by (auto simp: deliverable_def)
  from clean r show ?thesis
    by (intro sound_reading; cases "st_status r")
      (simp_all add: check_row_def map_of_load_steps [OF clean ok] TERMINAL_FOR_RUN_def settled_def status_of_def)
qed

lemma sound_loaded:
  assumes clean: "clean w" and ok: "pipeline_ok cfg (committed w)" and hon: "honest (committed w)"
    and ph: "phase_ok (committed w) p (Loaded loaded row)"
  shows "sound_turn cfg p (Loaded loaded row) w (check_document (payload_document_id p) loaded row w) w"
proof -
  let ?d = "payload_document_id p"
  have doc: "get_document ?d w = find_document ?d (committed w)" using clean by (simp add: get_document_def clean_def)
  have "doc_status q = PROCESSING" if "find_document ?d (committed w) = Some q" "doc_status q \<noteq> FAILED" for q
  proof (rule ccontr)
    assume "doc_status q \<noteq> PROCESSING"
    with that have "doc_status q = READY" by (cases "doc_status q") simp_all
    with hon find_documentD [OF that(1)] have "status_of ?d (payload_step p) (committed w) = Some DONE"
      unfolding honest_def by auto
    with ph show False by (auto simp: status_of_def)
  qed
  with clean ph show ?thesis
    by (intro sound_reading) (auto simp: check_document_def doc settled_def split: option.split)
qed

lemma turn_tx_own:
  assumes ok: "pipeline_ok cfg db" and r: "current_row db p = Some r" "st_status r \<in> {QUEUED, RUNNING}"
    and move: "step_move cfg db r r' evs"
  shows "turn_tx cfg p db (put_step r' db)" and "current_row (put_step r' db) p = Some r'"
    and "unclaimed db x \<Longrightarrow> unclaimed (put_step r' db) x"
    and "(st_status r' \<in> {DONE, ERROR} \<Longrightarrow> outcome ph' = Some (st_status r')) \<Longrightarrow> finishes p ph' db (put_step r' db)"
proof -
  note sch = pipeline_okD(1) [OF ok]
  have mem: "r \<in> set (pipeline_steps db)" "step_key r = key_of p"
    using r(1) find_step_iff [OF sch] by (auto simp: step_key_def)
  show "turn_tx cfg p db (put_step r' db)" using turn_tx.row [OF mem(1) move] mem(2) r(2) by simp
  show "current_row (put_step r' db) p = Some r'"
    using step_move_key [OF move] mem(2) find_step_put_step [OF sch pipeline_ok_step(2) [OF ok mem(1) move]] by simp
  show "finishes p ph' db (put_step r' db)" if "st_status r' \<in> {DONE, ERROR} \<Longrightarrow> outcome ph' = Some (st_status r')"
    using that mem(2) step_move_key [OF move]
    by (auto simp: finishes_def status_of_put_step [OF sch pipeline_ok_step(2) [OF ok mem(1) move]])
  show "unclaimed (put_step r' db) x" if "unclaimed db x"
  proof -
    have "status_of (payload_document_id p) (payload_step p) db \<noteq> Some PENDING" using r by (auto simp: status_of_def)
    then have "key_of x \<noteq> key_of p" using that by (auto simp: unclaimed_def)
    with that mem(2) step_move_key [OF move] show ?thesis
      by (auto simp: unclaimed_def status_of_put_step [OF sch pipeline_ok_step(2) [OF ok mem(1) move]])
  qed
qed

lemma sound_starting:
  assumes clean: "clean w" and ok: "pipeline_ok cfg (committed w)"
    and ph: "phase_ok (committed w) p (Starting loaded row document)"
    and run: "mark_running (payload_step p) (payload_document_id p) row w = (row', w')"
  shows "sound_turn cfg p (Starting loaded row document) w
    (Executing (AList.update (payload_step p) row' loaded) row' document) w'"
proof -
  let ?d = "payload_document_id p" and ?s = "payload_step p"
  from ph have row: "current_row (committed w) p = Some row" "st_status row \<in> {QUEUED, RUNNING}" by simp_all
  then have mem: "row \<in> set (pipeline_steps (committed w))" "st_document_id row = ?d" "st_name row = ?s"
    using find_step_iff [OF pipeline_okD(1) [OF ok]] by auto
  from mark_running_db [OF clean ok mem row(2)] run obtain r' where r': "step_move cfg (committed w) row r' [step_event ?s RUNNING]"
    "loaded_from r' row'" "committed w' = put_step r' (committed w)" "refines cfg {?d} w w'" by auto
  have "st_status row' = RUNNING" using run by (auto simp: mark_running_def Let_def)
  with loaded_fromD(4) [OF r'(2)] turn_tx_own [OF ok row r'(1)] r' ph trace_commits(1) [of ?s ?d row w] run
  show ?thesis
    by (elim exE, intro sound_turn_quiet) (auto intro: refines_clean)
qed


text \<open>The run itself, and its three outcomes.\<close>

lemma record_failure_db:
  assumes clean: "clean w" and ok: "pipeline_ok cfg (committed w)"
    and r: "r \<in> set (pipeline_steps (committed w))" "loaded_from r row" "st_document_id r = d" "st_status r = RUNNING"
    and fail: "record_failure cfg d row e document w = (ph', w')"
  shows "\<exists>r' evs. step_move cfg (committed w) r r' evs \<and> committed w' = put_step r' (committed w) \<and> clean w' \<and>
    (ph' = Deriving document \<and> st_status r' = ERROR \<or> ph' = Replying RETRY \<and> st_status r' = QUEUED)"
proof (cases "st_attempts r + 1 \<ge> step_max_attempts cfg")
  case True
  from on_failure_last [OF clean ok r True, of e] obtain r' w1 where
    "step_move cfg (committed w) r r' [step_event (st_name r) ERROR]" "committed w1 = put_step r' (committed w)" "clean w1"
    "loaded_from r' (row\<lparr>st_attempts := st_attempts row + 1, st_status := ERROR,
      st_error_text := Some (exn_text e), st_finished_at := Some (clock w)\<rparr>)"
    "w1 = commit (emit_event d (step_event (st_name row) ERROR) (flush_step row (row\<lparr>st_attempts := st_attempts row + 1,
      st_status := ERROR, st_error_text := Some (exn_text e), st_finished_at := Some (clock w)\<rparr>) w))"
    using refines_clean by blast
  moreover from this(5) have "ph' = Deriving document" "w' = w1"
    using fail True loaded_fromD(7) [OF r(2)] by (auto simp: record_failure_def Let_def)
  ultimately show ?thesis using loaded_fromD(4) by fastforce
next
  case False
  then have "st_attempts r + 1 < step_max_attempts cfg" by simp
  from on_failure_retry [OF clean ok r this, of e] obtain r' w1 where
    "step_move cfg (committed w) r r' []" "committed w1 = put_step r' (committed w)" "clean w1"
    "loaded_from r' (row\<lparr>st_attempts := st_attempts row + 1, st_status := QUEUED\<rparr>)"
    "on_failure cfg d row e w = (RETRY, w1)"
    using refines_clean by blast
  moreover from this(5) have "ph' = Replying RETRY" "w' = w1"
    using fail False loaded_fromD(7) [OF r(2)] by (auto simp: record_failure_def on_failure_def Let_def)
  ultimately show ?thesis using loaded_fromD(4) by fastforce
qed

lemma sound_executing:
  assumes clean: "clean w" and ok: "pipeline_ok cfg (committed w)" and att: "1 \<le> step_max_attempts cfg"
    and fresh: "fresh_job dr (payload_step p) (committed w)"
    and ph: "phase_ok (committed w) p (Executing loaded row document)"
    and run: "run_and_save cfg dr p loaded row document w = (ph', w')"
  shows "sound_turn cfg p (Executing loaded row document) w ph' w'"
proof -
  let ?d = "payload_document_id p" and ?s = "payload_step p"
  from ph obtain r where r: "current_row (committed w) p = Some r" "loaded_from r row" "st_status r = RUNNING"
    and doc: "doc_status document = PROCESSING" by auto
  then have mem: "r \<in> set (pipeline_steps (committed w))" "st_document_id r = ?d" "st_name r = ?s"
    using find_step_iff [OF pipeline_okD(1) [OF ok]] by auto
  have "\<exists>r' evs. step_move cfg (committed w) r r' evs \<and> committed w' = put_step r' (committed w) \<and> clean w' \<and>
      about_to_send (p, ph') = [] \<and> (current_row (committed w') p = Some r' \<longrightarrow> phase_ok (committed w') p ph') \<and>
      (\<exists>db ns. trace w' = trace w @ [Committed db ns]) \<and>
      (st_status r' \<in> {DONE, ERROR} \<longrightarrow> outcome ph' = Some (st_status r'))"
  proof (cases "run_step dr ?s loaded")
    case (Inl e)
    with run have fail: "record_failure cfg ?d row e document w = (ph', w')" by (simp add: run_and_save_def)
    from record_failure_db [OF clean ok mem(1) r(2) mem(2) r(3) fail] trace_commits(4) [of cfg ?d row e document w] fail doc
    show ?thesis by (auto simp: status_of_def)
  next
    case (Inr out)
    obtain row2 r2 w2 ev where so: "save_output ?s ?d row out w = (row2, w2)"
      and r2: "step_move cfg (committed w) r r2 [ev]" "loaded_from r2 row2"
        "committed w2 = put_step r2 (committed w)" "clean w2" "st_status r2 = (if ?s = EXTERNAL_CALL then AWAITING_CALLBACK else DONE)"
      by (rule handle_saved [OF clean ok att mem(1) r(2) mem(2,3) r(3) Inr fresh])
    then have "ph' = (if ?s = EXTERNAL_CALL then Replying ACK else Saved document)" "w' = w2"
      using run Inr loaded_fromD(4) [OF r2(2)] by (auto simp: run_and_save_def)
    with r2 so trace_commits(2) [of ?s ?d row out w] doc show ?thesis
      by (auto simp: status_of_def settled_def)
  qed
  then obtain r' evs where r': "step_move cfg (committed w) r r' evs" "committed w' = put_step r' (committed w)" "clean w'"
    "about_to_send (p, ph') = []" "current_row (committed w') p = Some r' \<longrightarrow> phase_ok (committed w') p ph'"
    "\<exists>db ns. trace w' = trace w @ [Committed db ns]"
    "st_status r' \<in> {DONE, ERROR} \<longrightarrow> outcome ph' = Some (st_status r')" by blast
  from turn_tx_own [OF ok r(1) _ r'(1)] r(3) r' show ?thesis
    by (elim exE, intro sound_turn_quiet) auto
qed

text \<open>The successors.\<close>

lemma document_rows:
  assumes "pipeline_ok cfg db" "deliverable p db"
  shows "find_step (payload_document_id p) t db \<noteq> None"
proof -
  from assms(2) obtain r where "current_row db p = Some r" by (auto simp: deliverable_def)
  then have "r \<in> set (pipeline_steps db)" "st_document_id r = payload_document_id p"
    using find_step_iff [OF pipeline_okD(1) [OF assms(1)]] by auto
  with row_of_document [OF assms(1) this(1), of t] show ?thesis by simp
qed

lemma sound_saved:
  assumes clean: "clean w" and ok: "pipeline_ok cfg (committed w)" and ph: "phase_ok (committed w) p (Saved document)"
  shows "sound_turn cfg p (Saved document) w
    (Claiming (ready_successors PIPELINE (done_steps (step_status_map (payload_document_id p) w))) document) w"
proof -
  have work: "working w = committed w" using clean by (simp add: clean_def)
  note sch = pipeline_okD(1) [OF ok, folded work]
  have "triggerable (committed w) (payload_document_id p)
      (ready_successors PIPELINE (done_steps (step_status_map (payload_document_id p) w)))"
    unfolding triggerable_def using done_steps_iff [OF sch] work by (metis pipeline.ready_iff subsetD)
  with clean ph show ?thesis by (intro sound_reading) auto
qed

lemma sound_claiming:
  assumes clean: "clean w" and ok: "pipeline_ok cfg (committed w)" and msg: "deliverable p (committed w)"
    and ph: "phase_ok (committed w) p (Claiming (t # ts) document)"
    and run: "claim_step (payload_document_id p) t w = (claimed, w')"
  shows "sound_turn cfg p (Claiming (t # ts) document) w
    (if claimed then Sending t ts document else Claiming ts document) w'"
proof -
  let ?d = "payload_document_id p" and ?q = "\<lparr>payload_document_id = payload_document_id p, payload_step = t\<rparr>"
  from document_rows [OF ok msg, of t] obtain r where r: "find_step ?d t (committed w) = Some r" by auto
  note sch = pipeline_okD(1) [OF ok]
  have mem: "r \<in> set (pipeline_steps (committed w))" "st_document_id r = ?d" "st_name r = t"
    using find_step_iff [OF sch] r by auto
  have par: "parents_done (committed w) r" using ph mem by (simp add: parents_done_def triggerable_def)
  note db = claim_step_db [OF clean ok r]
  have cl: "clean w'" using refines_clean [OF db(3) [OF par]] run by simp
  obtain db' ns where tr: "trace w' = trace w @ [Committed db' ns]" using trace_commits(3) [of ?d t w] run by auto
  show ?thesis
  proof (cases claimed)
    case False
    with db(1,2) run have "committed w' = committed w" by simp
    with False cl ph tr turn_tx.nothing show ?thesis
      by (intro sound_turn_quiet [where es = "[Committed db' ns]"]) (simp_all add: triggerable_def)
  next
    case True
    let ?r' = "r\<lparr>st_status := QUEUED, st_updated_at := clock w\<rparr>"
    have pend: "st_status r = PENDING" and w': "committed w' = put_step ?r' (committed w)" using db(1,2) run True by simp_all
    note move = step_move.claim [OF pend par, of cfg "clock w"]
    have tx: "turn_tx cfg p (committed w) (committed w')"
      unfolding w' using turn_tx.row [OF mem(1) move] pend by simp
    note keep = turn_tx_final_status [OF tx ok] turn_tx_triggerable [OF tx ok]
    have "status_of ?d t (committed w') = Some QUEUED"
      using status_of_put_step [OF sch pipeline_ok_step(2) [OF ok mem(1) move]] mem w' by (simp add: step_key_def)
    moreover have "status_of ?d t (committed w) = Some PENDING" using r pend by (simp add: status_of_def)
    moreover have "unclaimed (committed w') x \<longleftrightarrow> unclaimed (committed w) x" if "x \<noteq> ?q" for x
      using that status_of_put_step [OF sch pipeline_ok_step(2) [OF ok mem(1) move]] mem w'
      by (cases x) (auto simp: step_key_def unclaimed_def)
    ultimately have "claimed_in (committed w) (committed w') {#?q#}" by (auto simp: claimed_in_def unclaimed_def)
    moreover have "finishes p (Sending t ts document) (committed w) (committed w')"
      using status_of_put_step [OF sch pipeline_ok_step(2) [OF ok mem(1) move]] w' by (simp add: finishes_def)
    moreover have "phase_ok (committed w') p (Sending t ts document)"
      using ph keep by (simp add: triggerable_def)
    ultimately show ?thesis
      using True cl tx tr by (auto simp: sound_turn_def new_effects_def intro!: exI [of _ "{#?q#}"])
  qed
qed

lemma sound_sending:
  assumes clean: "clean w" and ph: "phase_ok (committed w) p (Sending t ts document)"
    and run: "publish_step (payload_document_id p) t w = (r, w')"
  shows "sound_turn cfg p (Sending t ts document) w
    (case r of Inl e \<Rightarrow> Raising e | Inr _ \<Rightarrow> Claiming ts document) w'"
proof -
  let ?d = "payload_document_id p" and ?q = "\<lparr>payload_document_id = payload_document_id p, payload_step = t\<rparr>"
  have same: "committed w' = committed w" "clean w'"
    using publish_step_frame [of ?d t w] clean run by (simp_all add: clean_def)
  have nil: "claimed_in (committed w) (committed w') {#}" by (simp add: claimed_in_def same)
  show ?thesis
  proof (cases r)
    case (Inl e)
    with run have "trace w' = trace w" "faults w \<noteq> []"
      by (auto simp: publish_step_def split: list.splits bool.splits)
    with Inl same nil turn_tx.nothing show ?thesis by (auto simp: sound_turn_def new_effects_def)
  next
    case (Inr u)
    with run publish_step_trace [of ?d t w] have "trace w' = trace w @ [Published ?q]" by simp
    with Inr same nil ph turn_tx.nothing show ?thesis
      by (auto simp: sound_turn_def new_effects_def intro!: exI [of _ "{#}"])
  qed
qed

text \<open>The document's status.\<close>

lemma sound_deriving:
  assumes clean: "clean w" and ok: "pipeline_ok cfg (committed w)" and ph: "phase_ok (committed w) p (Deriving document)"
  shows "sound_turn cfg p (Deriving document) w
    (Recording (derive_document_status (step_status_map (payload_document_id p) w)) document) w"
  using assms by (intro sound_reading) (auto simp: step_status_map_clean [OF clean ok])

lemma sound_recording:
  assumes clean: "clean w" and ph: "phase_ok (committed w) p (Recording new document)"
  shows "sound_turn cfg p (Recording new document) w (Replying ACK) (record_status (payload_document_id p) new document w)"
proof (cases "new = PROCESSING")
  case True
  with assms show ?thesis
    by (intro sound_turn_quiet [where es = "[]"]) (auto simp: record_status_def settled_def intro: turn_tx.nothing)
next
  case False
  let ?d = "payload_document_id p"
  let ?w = "record_status ?d new document w"
  have w: "?w = commit (emit_event ?d (doc_status_event new) (flush_document_status ?d new w))"
    using False ph by (simp add: record_status_def)
  have db: "committed ?w = put_doc_status ?d new (clock w) (committed w)"
    using clean unfolding w by (simp add: flush_document_status_def put_doc_status_def clean_def)
  have "clean ?w" unfolding w by (simp add: clean_def)
  moreover have "turn_tx cfg p (committed w) (committed ?w)"
    unfolding db using False ph by (intro turn_tx.status) auto
  moreover have "phase_ok (committed ?w) p (Replying ACK)" using ph unfolding db by (auto simp: settled_def)
  moreover have "unclaimed (committed w) x \<Longrightarrow> unclaimed (committed ?w) x" for x unfolding db by (simp add: unclaimed_def)
  moreover have "finishes p (Replying ACK) (committed w) (committed ?w)" unfolding db by (rule finishes_same) simp
  moreover have "\<exists>db ns. trace ?w = trace w @ [Committed db ns]" unfolding w by simp
  ultimately show ?thesis by (elim exE, intro sound_turn_quiet) auto
qed

theorem turn_sound:
  assumes "clean w" "pipeline_ok cfg (committed w)" "honest (committed w)" "deliverable p (committed w)"
    and "draw_ok dr (p, ph) (committed w)" "phase_ok (committed w) p ph"
    and "turn cfg dr p ph w = (ph', w')" "1 \<le> step_max_attempts cfg"
  shows "sound_turn cfg p ph w ph' w'"
proof (cases ph)
  case Received
  with sound_received [OF assms(1,2,4)] assms(7) show ?thesis by auto
next
  case (Loaded loaded row)
  with sound_loaded [OF assms(1-3)] assms(6,7) show ?thesis by auto
next
  case (Starting loaded row document)
  with sound_starting [OF assms(1,2)] assms(6,7) show ?thesis by (auto simp del: phase_ok.simps split: prod.splits)
next
  case (Executing loaded row document)
  with sound_executing [OF assms(1,2,8)] assms(5-7) show ?thesis by (auto simp del: phase_ok.simps)
next
  case (Saved document)
  with sound_saved [OF assms(1,2)] assms(6,7) show ?thesis by (auto simp del: phase_ok.simps)
next
  case (Claiming ts document)
  show ?thesis
  proof (cases ts)
    case Nil
    with Claiming assms(1,6,7) show ?thesis by (auto intro!: sound_reading)
  next
    case (Cons u us)
    with Claiming sound_claiming [OF assms(1,2,4)] assms(6,7) show ?thesis
      by (auto simp del: phase_ok.simps split: prod.splits)
  qed
next
  case (Sending t ts document)
  with sound_sending [OF assms(1)] assms(6,7) show ?thesis
    by (fastforce simp del: phase_ok.simps split: prod.splits sum.splits)
next
  case (Deriving document)
  with sound_deriving [OF assms(1,2)] assms(6,7) show ?thesis by (auto simp del: phase_ok.simps)
next
  case (Recording new document)
  with sound_recording [OF assms(1)] assms(6,7) show ?thesis by (auto simp del: phase_ok.simps)
next
  case (Replying a)
  with assms(1,6,7) show ?thesis by (auto intro: sound_reading)
next
  case (Raising e)
  with assms(1,6,7) show ?thesis by (auto intro: sound_reading)
qed


subsection \<open>The cluster\<close>

definition cluster_ok :: "settings \<Rightarrow> cluster \<Rightarrow> bool" where
  "cluster_ok cfg c \<longleftrightarrow> clean (shared c) \<and> pipeline_ok cfg (committed (shared c)) \<and> honest (committed (shared c)) \<and>
     (\<forall>x. count (held c) x \<le> 1) \<and> (\<forall>x \<in># held c. deliverable x (committed (shared c))) \<and>
     (\<forall>(p, ph) \<in> set (busy c). phase_ok (committed (shared c)) p ph)"

lemma cluster_okD:
  assumes "cluster_ok cfg c"
  shows "clean (shared c)" "pipeline_ok cfg (committed (shared c))" "honest (committed (shared c))"
    and "count (held c) x \<le> 1" "x \<in># held c \<Longrightarrow> deliverable x (committed (shared c))"
    and "(p, ph) \<in> set (busy c) \<Longrightarrow> phase_ok (committed (shared c)) p ph"
  using assms by (auto simp: cluster_ok_def)

text \<open>The messages sent so far and the ones about to be sent.\<close>

definition issued :: "cluster \<Rightarrow> payload multiset" where
  "issued c = mset (sent_of (trace (shared c))) + unsent (busy c)"

text \<open>A turn, seen from the cluster.\<close>

lemma proceed_turn_at:
  assumes ok: "cluster_ok cfg c" and att: "1 \<le> step_max_attempts cfg" and step: "proceed cfg (Turn i dr) c = Some c'"
  obtains ys p ph zs ph' N where "busy c = ys @ (p, ph) # zs" "busy c' = ys @ (p, ph') # zs"
    and "turn cfg dr p ph (shared c) = (ph', shared c')" "sound_turn cfg p ph (shared c) ph' (shared c')"
    and "claimed_in (committed (shared c)) (committed (shared c')) N"
    and "held c' = held c + N \<and> issued c' = issued c + N \<or>
      N = {#} \<and> faults (shared c) \<noteq> [] \<and> held c = held c' + mset (about_to_send (p, ph)) \<and>
      issued c = issued c' + mset (about_to_send (p, ph))"
    and "busy c ! i = (p, ph)" "queue c' = queue c + mset (sent_of (new_effects (shared c) (shared c')))"
proof -
  from step have i: "i < length (busy c)" and fresh: "draw_ok dr (busy c ! i) (committed (shared c))"
    and c': "c' = turn_of cfg i dr c" by (auto split: if_splits)
  obtain p ph where pi: "busy c ! i = (p, ph)" by force
  obtain ph' w' where run: "turn cfg dr p ph (shared c) = (ph', w')" by force
  obtain ys zs where b: "busy c = ys @ (p, ph) # zs" "(busy c)[i := (p, ph')] = ys @ (p, ph') # zs"
    using busy_split [OF i] pi by metis
  have c'_eq: "shared c' = w'" "busy c' = ys @ (p, ph') # zs" "queue c' = queue c + mset (sent_of (new_effects (shared c) w'))"
    using c' pi run b(2) by (simp_all add: turn_of_def)
  have "p \<in># held c" by (simp add: held_def b(1))
  with cluster_okD [OF ok] b(1) fresh pi run att
  have sound: "sound_turn cfg p ph (shared c) ph' w'" by (intro turn_sound [where dr = dr]) auto
  then obtain es N where es: "trace w' = trace (shared c) @ es" and N: "claimed_in (committed (shared c)) (committed w') N"
    "mset (sent_of (new_effects (shared c) w')) + mset (about_to_send (p, ph')) = mset (about_to_send (p, ph)) + N \<or>
      N = {#} \<and> faults (shared c) \<noteq> [] \<and> sent_of (new_effects (shared c) w') = [] \<and> about_to_send (p, ph') = []"
    by (auto simp: sound_turn_def)
  from N(2) have "held c' = held c + N \<and> issued c' = issued c + N \<or>
      N = {#} \<and> faults (shared c) \<noteq> [] \<and> held c = held c' + mset (about_to_send (p, ph)) \<and>
      issued c = issued c' + mset (about_to_send (p, ph))"
  proof
    assume eq: "mset (sent_of (new_effects (shared c) w')) + mset (about_to_send (p, ph')) = mset (about_to_send (p, ph)) + N"
    have "held c' = queue c + mset (map fst (busy c)) + unsent ys + unsent zs +
        (mset (sent_of (new_effects (shared c) w')) + mset (about_to_send (p, ph')))"
      by (simp add: held_def c'_eq b(1) ac_simps)
    moreover have "issued c' = mset (sent_of (trace (shared c))) + unsent ys + unsent zs +
        (mset (sent_of (new_effects (shared c) w')) + mset (about_to_send (p, ph')))"
      by (simp add: issued_def c'_eq b(1) es new_effects_def ac_simps)
    ultimately show ?thesis unfolding eq by (simp add: held_def issued_def b(1) ac_simps)
  next
    assume "N = {#} \<and> faults (shared c) \<noteq> [] \<and> sent_of (new_effects (shared c) w') = [] \<and> about_to_send (p, ph') = []"
    then show ?thesis by (simp add: held_def issued_def c'_eq b(1) es new_effects_def ac_simps)
  qed
  with that b(1) c'_eq run sound N(1) pi show ?thesis by blast
qed

lemma proceed_turn:
  assumes ok: "cluster_ok cfg c" and att: "1 \<le> step_max_attempts cfg" and step: "proceed cfg (Turn i dr) c = Some c'"
  obtains ys p ph zs ph' N where "busy c = ys @ (p, ph) # zs" "busy c' = ys @ (p, ph') # zs"
    and "turn cfg dr p ph (shared c) = (ph', shared c')" "sound_turn cfg p ph (shared c) ph' (shared c')"
    and "claimed_in (committed (shared c)) (committed (shared c')) N"
    and "held c' = held c + N \<and> issued c' = issued c + N \<or>
      N = {#} \<and> faults (shared c) \<noteq> [] \<and> held c = held c' + mset (about_to_send (p, ph)) \<and>
      issued c = issued c' + mset (about_to_send (p, ph))"
  by (rule proceed_turn_at [OF assms]) blast

text \<open>An answer, or a death.\<close>

lemma proceed_leave:
  assumes "i < length (busy c)" "busy c ! i = (p, ph)" "c' = c\<lparr>queue := queue c + M, busy := drop_nth i (busy c)\<rparr>"
  obtains ys zs where "busy c = ys @ (p, ph) # zs" "busy c' = ys @ zs" "shared c' = shared c"
    and "held c' + {#p#} + mset (about_to_send (p, ph)) = held c + M"
    and "issued c = issued c' + mset (about_to_send (p, ph))"
proof -
  obtain ys zs where b: "busy c = ys @ (p, ph) # zs" "drop_nth i (busy c) = ys @ zs"
    using busy_split [OF assms(1)] assms(2) by metis
  show ?thesis
    by (rule that [of ys zs]) (simp_all add: b(1) b(2) [unfolded b(1)] assms(3) held_def issued_def ac_simps)
qed

lemma cluster_ok_leave:
  assumes ok: "cluster_ok cfg c" and "busy c = ys @ x # zs" "busy c' = ys @ zs" "shared c' = shared c" "held c' \<subseteq># held c"
  shows "cluster_ok cfg c'"
proof -
  have "count (held c') y \<le> 1" for y
    using mset_subset_eq_count [OF assms(5), of y] cluster_okD(4) [OF ok, of y] by simp
  with ok assms show ?thesis by (auto simp: cluster_ok_def dest: mset_subset_eqD)
qed

lemma cluster_ok_turn:
  assumes ok: "cluster_ok cfg c" and att: "1 \<le> step_max_attempts cfg" and step: "proceed cfg (Turn i dr) c = Some c'"
  shows "cluster_ok cfg c'"
proof -
  let ?db = "committed (shared c)" and ?db' = "committed (shared c')"
  obtain ys p ph zs ph' N where b: "busy c = ys @ (p, ph) # zs" "busy c' = ys @ (p, ph') # zs"
    and sound: "sound_turn cfg p ph (shared c) ph' (shared c')" and N: "claimed_in ?db ?db' N"
    and acc: "held c' = held c + N \<and> issued c' = issued c + N \<or>
      N = {#} \<and> faults (shared c) \<noteq> [] \<and> held c = held c' + mset (about_to_send (p, ph)) \<and>
      issued c = issued c' + mset (about_to_send (p, ph))"
    by (rule proceed_turn [OF assms])
  note inv = cluster_okD [OF ok]
  from sound have cl: "clean (shared c')" and tx: "turn_tx cfg p ?db ?db'" and ph': "phase_ok ?db' p ph'"
    by (simp_all add: sound_turn_def)
  have sub: "held c' \<subseteq># held c + N" using acc by auto
  have "count (held c') x \<le> 1" for x
  proof -
    have "count (held c) x = 0" if "unclaimed ?db x"
      using that inv(5) [of x] by (auto simp: unclaimed_def deliverable_def status_of_def count_eq_zero_iff)
    with N inv(4) [of x] mset_subset_eq_count [OF sub, of x] show ?thesis by (auto simp: claimed_in_def split: if_splits)
  qed
  moreover have "deliverable x ?db'" if "x \<in># held c'" for x
  proof (cases "x \<in># held c")
    case True
    with turn_tx_deliverable [OF tx inv(2)] inv(5) show ?thesis by simp
  next
    case False
    with that sub have "x \<in># N" by (metis mset_subset_eqD union_iff)
    with N have x: "unclaimed ?db x" "\<not> unclaimed ?db' x"
      unfolding claimed_in_def by (metis count_greater_zero_iff less_numeral_extra(3))+
    then have "find_step (payload_document_id x) (payload_step x) ?db' \<noteq> None"
      using turn_tx_find_step [OF tx inv(2)] by (auto simp: unclaimed_def status_of_def)
    with x(2) show ?thesis by (auto simp: deliverable_def unclaimed_def status_of_def)
  qed
  moreover have "phase_ok ?db' q qh" if "(q, qh) \<in> set ys \<union> set zs" for q qh
  proof -
    have "q \<noteq> p"
    proof
      assume "q = p"
      with that have "p \<in># mset (map fst ys) + mset (map fst zs)" by force
      then have "count (mset (map fst ys) + mset (map fst zs)) p \<ge> 1" by (simp only: count_greater_eq_one_iff)
      then have "count (mset (map fst (busy c))) p \<ge> 2" by (simp add: b(1))
      with inv(4) [of p] show False by (simp add: held_def)
    qed
    with phase_ok_other [OF tx inv(2,3)] inv(6) that b(1) show ?thesis by auto
  qed
  ultimately show ?thesis
    using cl ph' turn_tx_ok [OF tx inv(2)] turn_tx_honest [OF tx inv(2,3)] by (auto simp: cluster_ok_def b(2))
qed

theorem cluster_ok_proceed:
  assumes ok: "cluster_ok cfg c" and att: "1 \<le> step_max_attempts cfg" and step: "proceed cfg x c = Some c'"
  shows "cluster_ok cfg c'"
proof (cases x)
  case (TakeMessage p)
  with step have "p \<in># queue c" "c' = c\<lparr>queue := queue c - {#p#}, busy := busy c @ [(p, Received)]\<rparr>"
    by (auto split: if_splits)
  with ok show ?thesis by (simp add: cluster_ok_def held_def)
next
  case (Turn i dr)
  with step cluster_ok_turn [OF ok att] show ?thesis by blast
next
  case (Reply i)
  obtain p ph where pi: "busy c ! i = (p, ph)" by force
  from step Reply pi obtain M where i: "i < length (busy c)" and M: "returned p ph = Some M"
    and c': "c' = c\<lparr>queue := queue c + M, busy := drop_nth i (busy c)\<rparr>" by (auto split: if_splits)
  from M have "M \<subseteq># {#p#}" by (auto elim: returned.elims)
  obtain ys zs where b: "busy c = ys @ (p, ph) # zs" "busy c' = ys @ zs" "shared c' = shared c"
    and h: "held c' + {#p#} + mset (about_to_send (p, ph)) = held c + M"
    by (rule proceed_leave [OF i pi c'])
  from h \<open>M \<subseteq># {#p#}\<close> have "held c' \<subseteq># held c"
    by (metis add_le_cancel_right mset_subset_eq_add_left subset_mset.add_left_mono subset_mset.add_le_cancel_right subset_mset.order_trans union_assoc union_commute)
  with cluster_ok_leave [OF ok b] show ?thesis .
next
  case (Die i)
  obtain p ph where pi: "busy c ! i = (p, ph)" by force
  from step Die pi have i: "i < length (busy c)"
    and c': "c' = c\<lparr>queue := queue c + {#p#}, busy := drop_nth i (busy c)\<rparr>" by (auto split: if_splits)
  obtain ys zs where b: "busy c = ys @ (p, ph) # zs" "busy c' = ys @ zs" "shared c' = shared c"
    and h: "held c' + {#p#} + mset (about_to_send (p, ph)) = held c + {#p#}"
    by (rule proceed_leave [OF i pi c'])
  from h have "held c' + mset (about_to_send (p, ph)) = held c" by simp
  then have "held c' \<subseteq># held c" by (metis mset_subset_eq_add_left)
  with cluster_ok_leave [OF ok b] show ?thesis .
next
  case (Environment now outcomes)
  with step have c': "c' = c\<lparr>shared := (shared c)\<lparr>clock := now, faults := outcomes\<rparr>\<rparr>" by simp
  then have "held c' = held c" by (simp add: held_def)
  with ok c' show ?thesis by (simp add: cluster_ok_def clean_def)
qed

end
