(* ===== verification/FanIn.thy ===== *)
theory FanIn
  imports ClusterInvariant
begin

section \<open>The successors are triggered exactly once\<close>

text \<open>
  A schedule is \<open>reliable\<close> when no worker dies and the broker stays up. Then no message is lost,
  every step whose predecessors are done is claimed by somebody, and the document's status
  catches up: whenever something is still to be done, some worker is on its way to do it.
\<close>

fun reliable :: "choice \<Rightarrow> bool" where
  "reliable (Die i) = False"
| "reliable (Environment now outcomes) = (outcomes = [])"
| "reliable _ = True"

subsection \<open>Messages are sent for claims only\<close>

lemma turn_tx_unclaimed:
  assumes "turn_tx cfg p db db'" "pipeline_ok cfg db" "unclaimed db' x"
  shows "unclaimed db x"
  using assms
proof (induction rule: turn_tx.induct)
  case (row r r' evs)
  then show ?case
    using step_move_final [OF row.hyps(2)]
    by (auto simp: unclaimed_def status_of_put_step [OF pipeline_okD(1) [OF row.prems(1)] pipeline_ok_step(2) [OF row.prems(1) row.hyps(1,2)]]
        split: if_splits)
qed (simp_all add: unclaimed_def)

lemma turn_faults:
  assumes "faults w = []" "turn cfg dr p ph w = (ph', w')"
  shows "faults w' = []"
proof -
  have "faults (snd (turn cfg dr p ph w)) = []"
    using assms(1)
    by (induction cfg dr p ph w rule: turn.induct)
      (auto simp: mark_running_def save_output_defs run_and_save_def record_failure_def record_status_def claim_step_def
        claim_pending_step_def publish_step_def Let_def split: sum.split prod.split)
  then show ?thesis using assms(2) by simp
qed

lemma about_to_send_returned: "returned p ph = Some M \<Longrightarrow> about_to_send (p, ph) = []"
  by (auto elim: returned.elims)

text \<open>In any schedule a message is issued only for a step that is claimed in it.\<close>

lemma issued_proceed:
  assumes ok: "cluster_ok cfg c" and att: "1 \<le> step_max_attempts cfg" and step: "proceed cfg y c = Some c'"
  shows "count (issued c') x \<le> count (issued c) x +
      (if unclaimed (committed (shared c)) x \<and> \<not> unclaimed (committed (shared c')) x then 1 else 0)"
    and "unclaimed (committed (shared c')) x \<Longrightarrow> unclaimed (committed (shared c)) x"
    and "reliable y \<Longrightarrow> faults (shared c) = [] \<Longrightarrow> faults (shared c') = [] \<and> count (issued c') x = count (issued c) x +
      (if unclaimed (committed (shared c)) x \<and> \<not> unclaimed (committed (shared c')) x then 1 else 0)"
proof -
  have "count (issued c') x \<le> count (issued c) x +
      (if unclaimed (committed (shared c)) x \<and> \<not> unclaimed (committed (shared c')) x then 1 else 0) \<and>
    (unclaimed (committed (shared c')) x \<longrightarrow> unclaimed (committed (shared c)) x) \<and>
    (reliable y \<longrightarrow> faults (shared c) = [] \<longrightarrow> faults (shared c') = [] \<and> count (issued c') x = count (issued c) x +
      (if unclaimed (committed (shared c)) x \<and> \<not> unclaimed (committed (shared c')) x then 1 else 0))"
  proof (cases y)
    case (Turn i dr)
    obtain ys p ph zs ph' N where run: "turn cfg dr p ph (shared c) = (ph', shared c')"
      and sound: "sound_turn cfg p ph (shared c) ph' (shared c')"
      and N: "claimed_in (committed (shared c)) (committed (shared c')) N"
      and acc: "held c' = held c + N \<and> issued c' = issued c + N \<or>
        N = {#} \<and> faults (shared c) \<noteq> [] \<and> held c = held c' + mset (about_to_send (p, ph)) \<and>
        issued c = issued c' + mset (about_to_send (p, ph))"
      by (rule proceed_turn [OF ok att step [unfolded Turn]])
    from sound have tx: "turn_tx cfg p (committed (shared c)) (committed (shared c'))" by (simp add: sound_turn_def)
    from N have "count N x = (if unclaimed (committed (shared c)) x \<and> \<not> unclaimed (committed (shared c')) x then 1 else 0)"
      by (simp add: claimed_in_def)
    with acc turn_tx_unclaimed [OF tx cluster_okD(2) [OF ok]] turn_faults [OF _ run] show ?thesis by auto
  next
    case (Reply i)
    obtain p ph where pi: "busy c ! i = (p, ph)" by force
    from step Reply pi obtain M where i: "i < length (busy c)" and M: "returned p ph = Some M"
      and c': "c' = c\<lparr>queue := queue c + M, busy := drop_nth i (busy c)\<rparr>" by (auto split: if_splits)
    obtain ys zs where "shared c' = shared c" "issued c = issued c' + mset (about_to_send (p, ph))"
      by (rule proceed_leave [OF i pi c'])
    with about_to_send_returned [OF M] show ?thesis by simp
  next
    case (Die i)
    obtain p ph where pi: "busy c ! i = (p, ph)" by force
    from step Die pi have i: "i < length (busy c)"
      and c': "c' = c\<lparr>queue := queue c + {#p#}, busy := drop_nth i (busy c)\<rparr>" by (auto split: if_splits)
    obtain ys zs where "shared c' = shared c" "issued c = issued c' + mset (about_to_send (p, ph))"
      by (rule proceed_leave [OF i pi c'])
    with Die show ?thesis by simp
  qed (use step in \<open>auto simp: issued_def split: if_splits\<close>)
  then show "count (issued c') x \<le> count (issued c) x +
      (if unclaimed (committed (shared c)) x \<and> \<not> unclaimed (committed (shared c')) x then 1 else 0)"
    and "unclaimed (committed (shared c')) x \<Longrightarrow> unclaimed (committed (shared c)) x"
    and "reliable y \<Longrightarrow> faults (shared c) = [] \<Longrightarrow> faults (shared c') = [] \<and> count (issued c') x = count (issued c) x +
      (if unclaimed (committed (shared c)) x \<and> \<not> unclaimed (committed (shared c')) x then 1 else 0)"
    by blast+
qed

subsection \<open>Somebody will do it\<close>

text \<open>A worker that will claim the step \<open>t\<close> of its document, or look whether it is ready.\<close>

fun will_claim :: "step_name \<Rightarrow> phase \<Rightarrow> bool" where
  "will_claim t (Saved document) = True"
| "will_claim t (Claiming ts document) = (t \<in> set ts)"
| "will_claim t (Sending u ts document) = (t \<in> set ts)"
| "will_claim t _ = False"

text \<open>A worker that will bring the document's status up to date.\<close>

fun will_record :: "phase \<Rightarrow> bool" where
  "will_record (Saved document) = True"
| "will_record (Claiming ts document) = True"
| "will_record (Sending t ts document) = True"
| "will_record (Deriving document) = True"
| "will_record (Recording new document) = (new \<noteq> PROCESSING)"
| "will_record _ = False"

definition attended :: "uuid \<Rightarrow> (phase \<Rightarrow> bool) \<Rightarrow> cluster \<Rightarrow> bool" where
  "attended d P c \<longleftrightarrow> (\<exists>(p, ph) \<in> set (busy c). payload_document_id p = d \<and> P ph)"

abbreviation ready_in :: "database \<Rightarrow> payload \<Rightarrow> bool" where
  "ready_in db x \<equiv> triggerable db (payload_document_id x) [payload_step x]"

definition claim_covered :: "payload \<Rightarrow> cluster \<Rightarrow> bool" where
  "claim_covered x c \<longleftrightarrow> (unclaimed (committed (shared c)) x \<longrightarrow> ready_in (committed (shared c)) x \<longrightarrow>
     attended (payload_document_id x) (will_claim (payload_step x)) c)"

definition status_covered :: "uuid \<Rightarrow> cluster \<Rightarrow> bool" where
  "status_covered d c \<longleftrightarrow> in_sync d (committed (shared c)) \<or> attended d will_record c"

definition message_covered :: "payload \<Rightarrow> cluster \<Rightarrow> bool" where
  "message_covered x c \<longleftrightarrow> unclaimed (committed (shared c)) x \<or> x \<in># held c \<or>
     settled (payload_document_id x) (payload_step x) (committed (shared c))"

text \<open>A turn hands the duty on, or has done it.\<close>

lemma turn_claims:
  assumes "clean w" "pipeline_ok cfg (committed w)" "deliverable p (committed w)" "phase_ok (committed w) p ph"
    and "faults w = []" "turn cfg dr p ph w = (ph', w')" "will_claim t ph"
    and "unclaimed (committed w') x" "unclaimed (committed w) x" "x = \<lparr>payload_document_id = payload_document_id p, payload_step = t\<rparr>"
    and "ready_in (committed w) x"
  shows "will_claim t ph'"
proof (cases ph)
  case (Saved document)
  have work: "working w = committed w" using assms(1) by (simp add: clean_def)
  note sch = pipeline_okD(1) [OF assms(2), folded work]
  have "t \<in> set (ready_successors PIPELINE (done_steps (step_status_map (payload_document_id p) w)))"
    using assms(9-11) unfolding pipeline.ready_iff pipeline_nodes
    by (cases t) (auto simp: done_steps_iff [OF sch] work unclaimed_def triggerable_def all_step_names_def)
  with Saved assms(6) show ?thesis by auto
next
  case (Claiming ts document)
  from assms(7) Claiming obtain u us where ts: "ts = u # us" by (cases ts) auto
  obtain claimed w1 where run: "claim_step (payload_document_id p) u w = (claimed, w1)" by force
  with Claiming ts assms(6) have ph': "ph' = (if claimed then Sending u us document else Claiming us document)" "w1 = w'"
    by auto
  from document_rows [OF assms(2,3), of u] obtain r where r: "find_step (payload_document_id p) u (committed w) = Some r" by auto
  note db = claim_step_db [OF assms(1,2) r]
  have "t \<noteq> u"
  proof
    assume "t = u"
    with assms(9,10) r have pend: "st_status r = PENDING" by (simp add: unclaimed_def status_of_def)
    note sch = pipeline_okD(1) [OF assms(2)]
    have mem: "r \<in> set (pipeline_steps (committed w))" "step_key r = (payload_document_id p, u)"
      using find_step_iff [OF sch] r by (auto simp: step_key_def)
    have "new_version (committed w) r (r\<lparr>st_status := QUEUED, st_updated_at := clock w\<rparr>)"
      using mem by (simp add: new_version_def step_key_def)
    from db(2) pend run ph'(2) status_of_put_step [OF sch this] mem assms(8,10) \<open>t = u\<close> show False
      by (simp add: unclaimed_def step_key_def)
  qed
  with assms(7) Claiming ts ph' show ?thesis by simp
next
  case (Sending u ts document)
  with assms(5-7) show ?thesis by (auto simp: publish_step_def split: prod.splits)
qed (use assms(7) in auto)


lemma honest_derived:
  assumes "pipeline_ok cfg db" "honest db" "\<not> in_sync d db"
  shows "derive_document_status (document_statuses d db) \<noteq> PROCESSING"
proof
  assume der: "derive_document_status (document_statuses d db) = PROCESSING"
  from assms(3) obtain q where q: "find_document d db = Some q" "doc_status q \<noteq> derive_document_status (document_statuses d db)"
    by (auto simp: in_sync_def split: option.splits)
  have none: "\<nexists>s. status_of d s db = Some ERROR" "status_of d EXTERNAL_CALL db \<noteq> Some DONE"
    using der by (auto simp: derive_status [OF pipeline_okD(1) [OF assms(1)]] split: if_splits)
  from q der have "doc_status q = READY \<or> doc_status q = FAILED" by (cases "doc_status q") simp_all
  with assms(2) find_documentD [OF q(1)] none show False unfolding honest_def by auto
qed

lemma in_sync_recorded:
  assumes "pipeline_ok cfg db"
  shows "in_sync e (put_doc_status d (derive_document_status (document_statuses d db)) now db) \<longleftrightarrow> e = d \<or> in_sync e db"
  using find_documentD [of e db] by (auto simp: in_sync_def find_document_put_doc_status split: option.splits)

text \<open>A document gets out of step only when one of its steps ends.\<close>

lemma turn_tx_in_sync:
  assumes tx: "turn_tx cfg p db db'" and ok: "pipeline_ok cfg db" and sync: "in_sync d db"
    and same: "\<And>u st. st \<in> {DONE, ERROR} \<Longrightarrow> status_of d u db' = Some st \<Longrightarrow> status_of d u db = Some st"
  shows "in_sync d db'"
  using tx
proof (cases rule: turn_tx.cases)
  case (row r r' evs)
  note sch = pipeline_okD(1) [OF ok] and sch' = pipeline_okD(1) [OF turn_tx_ok [OF tx ok]]
  have iff: "status_of d u db' = Some st \<longleftrightarrow> status_of d u db = Some st" if "st \<in> {DONE, ERROR}" for u st
    using that same [OF that] turn_tx_final_status [OF tx ok] by blast
  have "derive_document_status (document_statuses d db') = derive_document_status (document_statuses d db)"
    by (simp add: derive_status [OF sch] derive_status [OF sch'] iff)
  moreover have "find_document d db' = find_document d db" unfolding row(1) by (simp add: find_document_def)
  ultimately show ?thesis using sync by (auto simp: in_sync_def split: option.splits)
next
  case (status st now)
  with sync in_sync_recorded [OF ok] show ?thesis by simp
qed (use sync in simp)

lemma turn_records:
  assumes "clean w" "pipeline_ok cfg (committed w)" "honest (committed w)" "phase_ok (committed w) p ph"
    and "faults w = []" "turn cfg dr p ph w = (ph', w')" "will_record ph" "\<not> in_sync (payload_document_id p) (committed w)"
  shows "will_record ph' \<or> in_sync (payload_document_id p) (committed w')"
proof (cases ph)
  case (Claiming ts document)
  with assms(6) show ?thesis by (cases ts) (auto split: prod.splits)
next
  case (Sending t ts document)
  with assms(5,6) show ?thesis by (auto simp: publish_step_def split: prod.splits)
next
  case (Deriving document)
  with assms(6) honest_derived [OF assms(2,3,8)] show ?thesis
    by (auto simp: step_status_map_clean [OF assms(1,2)])
next
  case (Recording new document)
  have "committed (record_status (payload_document_id p) new document w) = put_doc_status (payload_document_id p) new (clock w) (committed w)"
    using assms(1,4,7) Recording
    by (simp add: record_status_def flush_document_status_def put_doc_status_def clean_def)
  with Recording assms(4,6,7) in_sync_recorded [OF assms(2)] show ?thesis by auto
qed (use assms in auto)

lemma attended_split: "busy c = ys @ x # zs \<Longrightarrow> attended d P c \<longleftrightarrow> (\<exists>(p, ph) \<in> insert x (set ys \<union> set zs). payload_document_id p = d \<and> P ph)"
  by (simp add: attended_def)

lemma covered_turn:
  assumes ok: "cluster_ok cfg c" and att: "1 \<le> step_max_attempts cfg" and step: "proceed cfg (Turn i dr) c = Some c'"
    and up: "faults (shared c) = []"
  shows "claim_covered x c \<Longrightarrow> claim_covered x c'" and "status_covered d c \<Longrightarrow> status_covered d c'"
    and "message_covered x c \<Longrightarrow> message_covered x c'"
proof -
  let ?db = "committed (shared c)" and ?db' = "committed (shared c')"
  obtain ys p ph zs ph' N where b: "busy c = ys @ (p, ph) # zs" "busy c' = ys @ (p, ph') # zs"
    and run: "turn cfg dr p ph (shared c) = (ph', shared c')"
    and sound: "sound_turn cfg p ph (shared c) ph' (shared c')" and N: "claimed_in ?db ?db' N"
    and acc: "held c' = held c + N \<and> issued c' = issued c + N \<or>
      N = {#} \<and> faults (shared c) \<noteq> [] \<and> held c = held c' + mset (about_to_send (p, ph)) \<and>
      issued c = issued c' + mset (about_to_send (p, ph))"
    by (rule proceed_turn [OF ok att step])
  note inv = cluster_okD [OF ok]
  have tx: "turn_tx cfg p ?db ?db'" and fin: "finishes p ph' ?db ?db'" using sound by (simp_all add: sound_turn_def)
  have msg: "deliverable p ?db" using inv(5) [of p] b(1) by (simp add: held_def)
  have ph: "phase_ok ?db p ph" using inv(6) [of p ph] b(1) by simp
  note split = attended_split [OF b(1)] attended_split [OF b(2)]
  show "claim_covered x c'" if cov: "claim_covered x c"
    unfolding claim_covered_def
  proof (intro impI)
    let ?t = "payload_step x" and ?d = "payload_document_id x"
    assume x: "unclaimed ?db' x" "ready_in ?db' x"
    have old: "unclaimed ?db x" by (rule turn_tx_unclaimed [OF tx inv(2) x(1)])
    show "attended ?d (will_claim ?t) c'"
    proof (cases "ready_in ?db x")
      case True
      with cov old have "attended ?d (will_claim ?t) c" by (simp add: claim_covered_def)
      then consider "payload_document_id p = ?d" "will_claim ?t ph" |
          "\<exists>(q, qh) \<in> set ys \<union> set zs. payload_document_id q = ?d \<and> will_claim ?t qh"
        unfolding split by auto
      then show ?thesis
      proof cases
        case 1
        then have "x = \<lparr>payload_document_id = payload_document_id p, payload_step = ?t\<rparr>" by simp
        from turn_claims [OF inv(1,2) msg ph up run 1(2) x(1) old this True] 1(1) show ?thesis unfolding split by auto
      qed (unfold split, auto)
    next
      case False
      then obtain u where "status_of ?d u ?db \<noteq> Some DONE" "u \<in> parents PIPELINE ?t" by (auto simp: triggerable_def)
      moreover from this(2) x(2) have "status_of ?d u ?db' = Some DONE" by (auto simp: triggerable_def)
      ultimately have "?d = payload_document_id p" "outcome ph' = Some DONE" using fin by (auto simp: finishes_def)
      then show ?thesis unfolding split by (auto elim: outcome.elims)
    qed
  qed
  show "status_covered d c'" if cov: "status_covered d c"
  proof (rule ccontr)
    assume no: "\<not> status_covered d c'"
    then have out: "\<not> in_sync d ?db'" "\<not> attended d will_record c'" by (simp_all add: status_covered_def)
    show False
    proof (cases "in_sync d ?db")
      case True
      from turn_tx_in_sync [OF tx inv(2) True] out(1) obtain u st where
        "st \<in> {DONE, ERROR}" "status_of d u ?db' = Some st" "status_of d u ?db \<noteq> Some st" by blast
      with fin have "d = payload_document_id p" "outcome ph' = Some st" by (auto simp: finishes_def)
      with out(2) show False unfolding split by (auto elim: outcome.elims)
    next
      case False
      with cov have "attended d will_record c" by (simp add: status_covered_def)
      with out(2) have "payload_document_id p = d" "will_record ph" "\<not> will_record ph'" unfolding split by auto
      with turn_records [OF inv(1-3) ph up run] False out(1) show False by blast
    qed
  qed
  show "message_covered x c'" if cov: "message_covered x c"
  proof -
    have "held c' = held c + N" using acc up by simp
    moreover have "x \<in># N" if "unclaimed ?db x" "\<not> unclaimed ?db' x"
      using N that unfolding claimed_in_def by (metis count_greater_zero_iff zero_less_one)
    ultimately show ?thesis
      using cov turn_tx_settled [OF tx inv(2,3)] unfolding message_covered_def by auto
  qed
qed

lemma covered_proceed:
  assumes ok: "cluster_ok cfg c" and att: "1 \<le> step_max_attempts cfg" and step: "proceed cfg y c = Some c'"
    and rel: "reliable y" "faults (shared c) = []"
  shows "claim_covered x c \<Longrightarrow> claim_covered x c'" and "status_covered d c \<Longrightarrow> status_covered d c'"
    and "message_covered x c \<Longrightarrow> message_covered x c'"
proof -
  have "(claim_covered x c \<longrightarrow> claim_covered x c') \<and> (status_covered d c \<longrightarrow> status_covered d c') \<and>
      (message_covered x c \<longrightarrow> message_covered x c')"
  proof (cases y)
    case (Turn i dr)
    with covered_turn [OF ok att _ rel(2)] step show ?thesis by blast
  next
    case (Reply i)
    obtain p ph where pi: "busy c ! i = (p, ph)" by force
    from step Reply pi obtain M where i: "i < length (busy c)" and M: "returned p ph = Some M"
      and c': "c' = c\<lparr>queue := queue c + M, busy := drop_nth i (busy c)\<rparr>" by (auto split: if_splits)
    obtain ys zs where b: "busy c = ys @ (p, ph) # zs" "busy c' = ys @ zs" "shared c' = shared c"
      and h: "held c' + {#p#} + mset (about_to_send (p, ph)) = held c + M"
      by (rule proceed_leave [OF i pi c'])
    have idle: "\<not> will_claim t ph" "\<not> will_record ph" for t using M by (auto elim: returned.elims)
    have h': "held c' + {#p#} = held c + M" using h about_to_send_returned [OF M] by simp
    have "x \<in># held c' \<or> settled (payload_document_id x) (payload_step x) (committed (shared c))" if "x \<in># held c"
    proof (cases "M = {#}")
      case True
      with M have "ph = Replying ACK" by (auto elim: returned.elims)
      with cluster_okD(6) [OF ok, of p ph] b(1) have "settled (payload_document_id p) (payload_step p) (committed (shared c))" by simp
      moreover from h' True have "held c = add_mset p (held c')" by simp
      with that have "x = p \<or> x \<in># held c'" by simp
      ultimately show ?thesis by auto
    next
      case False
      with M have "M = {#p#}" by (auto elim: returned.elims)
      with h' that show ?thesis by simp
    qed
    moreover have "attended e P c \<Longrightarrow> attended e P c'" if "\<not> P ph" for e P
      using that by (auto simp: attended_def b(1,2))
    ultimately show ?thesis
      unfolding claim_covered_def status_covered_def message_covered_def b(3) using idle by blast
  next
    case (TakeMessage p)
    with step have c': "p \<in># queue c" "c' = c\<lparr>queue := queue c - {#p#}, busy := busy c @ [(p, Received)]\<rparr>"
      by (auto split: if_splits)
    then have "held c' = held c" by (simp add: held_def)
    with c' show ?thesis by (auto simp: claim_covered_def status_covered_def message_covered_def attended_def)
  next
    case (Environment now outcomes)
    with step have c': "c' = c\<lparr>shared := (shared c)\<lparr>clock := now, faults := outcomes\<rparr>\<rparr>" by simp
    then have "held c' = held c" by (simp add: held_def)
    with c' show ?thesis by (simp add: claim_covered_def status_covered_def message_covered_def attended_def)
  qed (use rel in simp)
  then show "claim_covered x c \<Longrightarrow> claim_covered x c'" and "status_covered d c \<Longrightarrow> status_covered d c'"
    and "message_covered x c \<Longrightarrow> message_covered x c'" by blast+
qed

end
