(* ===== verification/Cursors.thy ===== *)
theory Cursors
  imports PyText Config
begin

section \<open>Page cursors (\<open>app/pagination.py\<close>)\<close>

text \<open>
  A cursor is URL-safe base64 over \<open>created_at.isoformat() + "|" + str(id)\<close>. Encoding and
  decoding base64 (CPython's decoder, which skips foreign characters and stops at the
  padding), UTF-8, and \<open>uuid.UUID\<close> are written out; the text form of a date
  (\<open>datetime.isoformat\<close> and \<open>fromisoformat\<close>) is the pair of arguments \<open>isoformat\<close> and
  \<open>fromisoformat\<close>, and \<open>decimal\<close> gives the value of the decimal digits outside ASCII. Decoded
  text is a list of code points, since a cursor can decode to any of them. A decoded date keeps
  its UTC offset, which the database sees too.
\<close>

subsection \<open>Base64\<close>

definition b64_alphabet :: string where
  "b64_alphabet = ''ABCDEFGHIJKLMNOPQRSTUVWXYZabcdefghijklmnopqrstuvwxyz0123456789+/''"

definition b64_char :: "nat \<Rightarrow> char" where
  "b64_char n = b64_alphabet ! n"

definition b64_value :: "char \<Rightarrow> nat option" where
  "b64_value c = (let n = of_char c :: nat in
     if 65 \<le> n \<and> n \<le> 90 then Some (n - 65)
     else if 97 \<le> n \<and> n \<le> 122 then Some (n - 71)
     else if 48 \<le> n \<and> n \<le> 57 then Some (n + 4)
     else if n = 43 then Some 62 else if n = 47 then Some 63 else None)"

fun b64encode :: "nat list \<Rightarrow> string" where
  "b64encode [] = []"
| "b64encode [a] = [b64_char (a div 4), b64_char ((a mod 4) * 16), CHR ''='', CHR ''='']"
| "b64encode [a, b] = [b64_char (a div 4), b64_char ((a mod 4) * 16 + b div 16), b64_char ((b mod 16) * 4), CHR ''='']"
| "b64encode (a # b # c # bs) =
     [b64_char (a div 4), b64_char ((a mod 4) * 16 + b div 16), b64_char ((b mod 16) * 4 + c div 64), b64_char (c mod 64)]
     @ b64encode bs"

text \<open>\<open>binascii.a2b_base64\<close> without strict mode: the position in the group of four, the bits
  left over, and the number of padding characters seen.\<close>

definition b64_error :: pyexn where
  "b64_error = Exn ''Error'' ''Incorrect padding''"

fun a2b_base64 :: "nat \<Rightarrow> nat \<Rightarrow> nat \<Rightarrow> string \<Rightarrow> pyexn + nat list" where
  "a2b_base64 quad left pads [] = (if quad = 0 then Inr [] else Inl b64_error)"
| "a2b_base64 quad left pads (c # cs) =
     (if c = CHR ''='' then
        if quad \<ge> 2 then (if quad + (pads + 1) \<ge> 4 then Inr [] else a2b_base64 quad left (pads + 1) cs)
        else a2b_base64 quad left pads cs
      else case b64_value c of
        None \<Rightarrow> a2b_base64 quad left pads cs
      | Some v \<Rightarrow>
          if quad = 0 then a2b_base64 1 v 0 cs
          else if quad = 1 then bind_result (a2b_base64 2 (v mod 16) 0 cs) (\<lambda>bs. Inr ((left * 4 + v div 16) # bs))
          else if quad = 2 then bind_result (a2b_base64 3 (v mod 4) 0 cs) (\<lambda>bs. Inr ((left * 16 + v div 4) # bs))
          else bind_result (a2b_base64 0 0 0 cs) (\<lambda>bs. Inr ((left * 64 + v) # bs)))"

definition url_safe :: "char \<Rightarrow> char" where
  "url_safe c = (if c = CHR ''+'' then CHR ''-'' else if c = CHR ''/'' then CHR ''_'' else c)"

definition url_plain :: "char \<Rightarrow> char" where
  "url_plain c = (if c = CHR ''-'' then CHR ''+'' else if c = CHR ''_'' then CHR ''/'' else c)"

definition urlsafe_b64encode :: "nat list \<Rightarrow> string" where
  "urlsafe_b64encode bs = map url_safe (b64encode bs)"

definition urlsafe_b64decode :: "string \<Rightarrow> pyexn + nat list" where
  "urlsafe_b64decode s = a2b_base64 0 0 0 (map url_plain s)"

lemma b64_alphabet_values:
  "map b64_value b64_alphabet = map Some [0..<64]"
  "filter (\<lambda>c. c = CHR ''='') b64_alphabet = []"
  "map (\<lambda>c. url_plain (url_safe c)) b64_alphabet = b64_alphabet"
  by code_simp+

lemma b64_table:
  assumes "n < 64"
  shows "b64_value (b64_char n) = Some n" "b64_char n \<noteq> CHR ''=''" "url_plain (url_safe (b64_char n)) = b64_char n"
proof -
  have len: "length b64_alphabet = 64" by (simp add: b64_alphabet_def)
  have "map b64_value b64_alphabet ! n = map Some [0..<64] ! n" by (simp only: b64_alphabet_values)
  with assms len show "b64_value (b64_char n) = Some n" by (simp add: b64_char_def)
  have "b64_char n \<in> set b64_alphabet" using assms len by (simp add: b64_char_def)
  then show "b64_char n \<noteq> CHR ''=''" using b64_alphabet_values(2) by (auto simp: filter_empty_conv)
  have "map (\<lambda>c. url_plain (url_safe c)) b64_alphabet ! n = b64_alphabet ! n" by (simp only: b64_alphabet_values)
  with assms len show "url_plain (url_safe (b64_char n)) = b64_char n" by (simp add: b64_char_def)
qed

lemma sextets:
  fixes a b c :: nat
  shows "a < 256 \<Longrightarrow> a div 4 < 64" "a mod 4 * 16 < 64" "b < 256 \<Longrightarrow> a mod 4 * 16 + b div 16 < 64"
    "b mod 16 * 4 < 64" "c < 256 \<Longrightarrow> b mod 16 * 4 + c div 64 < 64" "c mod 64 < 64"
proof -
  have "a mod 4 \<le> 3" "b mod 16 \<le> 15" using mod_less_divisor [of 4 a] mod_less_divisor [of 16 b] by linarith+
  moreover have "b < 256 \<Longrightarrow> b div 16 \<le> 15" "c < 256 \<Longrightarrow> c div 64 \<le> 3" by auto
  ultimately show "a mod 4 * 16 < 64" "b < 256 \<Longrightarrow> a mod 4 * 16 + b div 16 < 64"
    "b mod 16 * 4 < 64" "c < 256 \<Longrightarrow> b mod 16 * 4 + c div 64 < 64" by linarith+
  show "a < 256 \<Longrightarrow> a div 4 < 64" "c mod 64 < 64" by auto
qed

lemma url_pad: "url_plain (url_safe (CHR ''='')) = CHR ''=''"
  by (simp add: url_plain_def url_safe_def)

lemma url_plain_b64encode:
  "\<forall>b \<in> set bs. b < 256 \<Longrightarrow> map (\<lambda>c. url_plain (url_safe c)) (b64encode bs) = b64encode bs"
proof (induction bs rule: b64encode.induct)
  case (4 a b c bs)
  then show ?case by (simp add: b64_table sextets)
qed (simp_all add: b64_table sextets url_pad)

lemma a2b_b64encode: "\<forall>b \<in> set bs. b < 256 \<Longrightarrow> a2b_base64 0 0 pads (b64encode bs) = Inr bs"
proof (induction bs arbitrary: pads rule: b64encode.induct)
  case (2 a)
  then show ?case by (simp add: b64_table sextets)
next
  case (3 a b)
  then have "b div 16 < 16" by auto
  then have b: "b div 16 div 16 = 0 \<and> b div 16 mod 16 * 16 + b mod 16 = b" by simp
  from 3 show ?case by (simp add: b64_table sextets) (rule b)
next
  case (4 a b c bs)
  then have "a < 256" "b < 256" "c < 256" and IH: "a2b_base64 0 0 0 (b64encode bs) = Inr bs" by simp_all
  note small = sextets(1) [OF this(1)] sextets(3) [OF this(2)] sextets(5) [OF this(3)]
  have "b div 16 < 16" "c div 64 < 4" using \<open>b < 256\<close> \<open>c < 256\<close> by auto
  then show ?case using small IH by (simp add: b64_table)
qed simp

lemma urlsafe_b64decode_encode: "\<forall>b \<in> set bs. b < 256 \<Longrightarrow> urlsafe_b64decode (urlsafe_b64encode bs) = Inr bs"
  using url_plain_b64encode [of bs]
  by (simp add: urlsafe_b64decode_def urlsafe_b64encode_def a2b_b64encode comp_def)

interpretation b64_codec: text_codec urlsafe_b64encode
    "\<lambda>s. case urlsafe_b64decode s of Inr bs \<Rightarrow> Some bs | Inl _ \<Rightarrow> None" "\<lambda>bs. \<forall>b \<in> set bs. b < 256"
  by unfold_locales (simp add: urlsafe_b64decode_encode)


subsection \<open>UTF-8\<close>

text \<open>\<open>bytes.decode()\<close>: the code points, or \<open>None\<close> for the \<open>UnicodeDecodeError\<close> of an ill-formed
  sequence (overlong forms, surrogates and values above 10FFFF included).\<close>

definition continuation :: "nat \<Rightarrow> bool" where
  "continuation b \<longleftrightarrow> 128 \<le> b \<and> b < 192"

fun utf8_decode :: "nat list \<Rightarrow> nat list option" where
  "utf8_decode [] = Some []"
| "utf8_decode (a # bs) =
     (if a < 128 then map_option ((#) a) (utf8_decode bs)
      else if 194 \<le> a \<and> a < 224 then
        (case bs of b # cs \<Rightarrow>
             if continuation b then map_option ((#) ((a - 192) * 64 + (b - 128))) (utf8_decode cs) else None
         | [] \<Rightarrow> None)
      else if 224 \<le> a \<and> a < 240 then
        (case bs of b # c # ds \<Rightarrow>
             (let n = (a - 224) * 4096 + (b - 128) * 64 + (c - 128) in
              if continuation b \<and> continuation c \<and> 2048 \<le> n \<and> \<not> (55296 \<le> n \<and> n < 57344)
              then map_option ((#) n) (utf8_decode ds) else None)
         | _ \<Rightarrow> None)
      else if 240 \<le> a \<and> a < 245 then
        (case bs of b # c # d # es \<Rightarrow>
             (let n = (a - 240) * 262144 + (b - 128) * 4096 + (c - 128) * 64 + (d - 128) in
              if continuation b \<and> continuation c \<and> continuation d \<and> 65536 \<le> n \<and> n < 1114112
              then map_option ((#) n) (utf8_decode es) else None)
         | _ \<Rightarrow> None)
      else None)"

abbreviation codes :: "string \<Rightarrow> nat list" where
  "codes s \<equiv> map of_char s"

lemma utf8_decode_encode: "utf8_decode (codes (utf8_encode s)) = Some (codes s)"
proof (induction s)
  case (Cons c s)
  let ?n = "of_char c :: nat"
  have n: "?n < 256" by (rule of_char_less)
  have "utf8_encode (c # s) =
      (if ?n < 128 then [c] else [char_of (192 + ?n div 64), char_of (128 + ?n mod 64)]) @ utf8_encode s"
    by (simp add: utf8_encode_def Let_def)
  moreover have "continuation (128 + ?n mod 64)" by (simp add: continuation_def)
  moreover have "?n div 64 \<le> 3" "\<not> ?n < 128 \<Longrightarrow> 2 \<le> ?n div 64"
  proof -
    from n have "?n \<le> 255" by linarith
    from div_le_mono [OF this, of 64] show "?n div 64 \<le> 3" by simp
    show "2 \<le> ?n div 64" if "\<not> ?n < 128"
      using div_le_mono [of 128 ?n 64] that by simp
  qed
  ultimately show ?case using Cons.IH by simp
qed (simp add: utf8_encode_def)

subsection \<open>\<open>uuid.UUID(text)\<close>\<close>

text \<open>\<open>int(text, 16)\<close>: surrounding blanks, a sign (a minus cannot occur here), an optional
  prefix, and digits with single underscores between them.\<close>

definition int_blank :: "nat \<Rightarrow> bool" where
  "int_blank n \<longleftrightarrow> (9 \<le> n \<and> n \<le> 13) \<or> n \<in> {32, 133, 160, 5760, 8232, 8233, 8239, 8287, 12288} \<or>
     (8192 \<le> n \<and> n \<le> 8202)"

definition hex_value :: "(nat \<Rightarrow> nat option) \<Rightarrow> nat \<Rightarrow> nat option" where
  "hex_value decimal n =
     (if 48 \<le> n \<and> n \<le> 57 then Some (n - 48)
      else if 65 \<le> n \<and> n \<le> 70 then Some (n - 55)
      else if 97 \<le> n \<and> n \<le> 102 then Some (n - 87)
      else if 128 \<le> n then decimal n else None)"

fun hex_digits :: "(nat \<Rightarrow> nat option) \<Rightarrow> nat \<Rightarrow> bool \<Rightarrow> nat list \<Rightarrow> nat option" where
  "hex_digits decimal acc after_digit [] = (if after_digit then Some acc else None)"
| "hex_digits decimal acc after_digit (c # cs) =
     (case hex_value decimal c of
        Some d \<Rightarrow> hex_digits decimal (16 * acc + d) True cs
      | None \<Rightarrow> if c = 95 \<and> after_digit then hex_digits decimal acc False cs else None)"

definition int16 :: "(nat \<Rightarrow> nat option) \<Rightarrow> nat list \<Rightarrow> nat option" where
  "int16 decimal text =
     (let s = strip_chars int_blank text;
          t = (if take 1 s = [43] then drop 1 s else s);
          d = (if take 2 t \<in> {[48, 120], [48, 88]} then (if take 1 (drop 2 t) = [95] then drop 3 t else drop 2 t) else t)
      in hex_digits decimal 0 False d)"

definition uuid_of_text :: "(nat \<Rightarrow> nat option) \<Rightarrow> nat list \<Rightarrow> uuid option" where
  "uuid_of_text decimal text =
     (let h = filter (\<lambda>c. c \<noteq> 45) (strip_chars (\<lambda>c. c = 123 \<or> c = 125)
           (replace_all (codes ''uuid:'') [] (replace_all (codes ''urn:'') [] text)))
      in if length h \<noteq> 32 then None else map_option of_nat (int16 decimal h))"

lemma replace_all_none: "old \<noteq> [] \<Longrightarrow> hd old \<notin> set s \<Longrightarrow> replace_all old new s = s"
proof (induction s)
  case (Cons c s)
  from Cons.prems have "\<not> prefix old (c # s)" by (cases old) auto
  with Cons show ?case by (subst replace_all.simps) simp
qed (simp add: replace_all.simps)

lemma digit_char_hex:
  assumes "d < 16"
  shows "hex_value decimal (of_char (digit_char d)) = Some d"
    and "(of_char (digit_char d) :: nat) \<in> {48..57} \<union> {97..102}"
proof -
  have "\<forall>d \<in> set [0..<16]. (of_char (digit_char d) :: nat) = (if d < 10 then 48 + d else 87 + d)" by code_simp
  then have "(of_char (digit_char d) :: nat) = (if d < 10 then 48 + d else 87 + d)" using assms by simp
  with assms show "hex_value decimal (of_char (digit_char d)) = Some d"
    and "(of_char (digit_char d) :: nat) \<in> {48..57} \<union> {97..102}" by (simp_all add: hex_value_def)
qed

definition nibble :: "uuid \<Rightarrow> nat \<Rightarrow> nat" where
  "nibble u i = unat (take_bit 4 (drop_bit (4 * i) u))"

lemma nibble_eq: "nibble u i = unat u div 16 ^ i mod 16"
proof -
  have "(2::nat) ^ (4 * i) = 16 ^ i" by (simp add: power_mult)
  then show ?thesis
    unfolding nibble_def unsigned_take_bit_eq unat_drop_bit_eq by (simp add: take_bit_eq_mod drop_bit_eq_div)
qed

lemma hex_digits_nibbles:
  "k > 0 \<or> b \<Longrightarrow> hex_digits decimal acc b (map (\<lambda>i. of_char (digit_char (nibble u i))) (rev [0..<k])) =
    Some (acc * 16 ^ k + unat u mod 16 ^ k)"
proof (induction k arbitrary: acc b)
  case (Suc k)
  have "nibble u k < 16" by (simp add: nibble_eq)
  then have "hex_digits decimal acc b (map (\<lambda>i. of_char (digit_char (nibble u i))) (rev [0..<Suc k])) =
      hex_digits decimal (16 * acc + nibble u k) True (map (\<lambda>i. of_char (digit_char (nibble u i))) (rev [0..<k]))"
    by (simp add: digit_char_hex)
  also have "\<dots> = Some ((16 * acc + nibble u k) * 16 ^ k + unat u mod 16 ^ k)" using Suc.IH by simp
  also have "(16 * acc + nibble u k) * 16 ^ k + unat u mod 16 ^ k = acc * 16 ^ Suc k + unat u mod 16 ^ Suc k"
    using mod_mult2_eq [of "unat u" "16 ^ k" 16] by (simp add: nibble_eq algebra_simps)
  finally show ?case .
qed simp


lemma codes_uuid_hex: "codes (uuid_hex u) = map (\<lambda>i. of_char (digit_char (nibble u i))) (rev [0..<32])"
  by (simp add: uuid_hex_def nibble_def)

lemma set_codes_uuid_hex: "set (codes (uuid_hex u)) \<subseteq> {48..57} \<union> {97..102}"
proof -
  have "(of_char (digit_char (nibble u i)) :: nat) \<in> {48..57} \<union> {97..102}" for i
    by (rule digit_char_hex(2)) (simp add: nibble_eq)
  then show ?thesis unfolding codes_uuid_hex set_map by blast
qed

lemma int16_uuid_hex: "int16 decimal (codes (uuid_hex u)) = Some (unat u)"
proof -
  let ?h = "codes (uuid_hex u)"
  have "strip_chars int_blank ?h = ?h"
    using set_codes_uuid_hex [of u] by (intro strip_chars_none) (auto simp: int_blank_def)
  moreover have "take 1 ?h \<noteq> [43]" "take 2 ?h \<notin> {[48, 120], [48, 88]}"
    using set_codes_uuid_hex [of u] set_take_subset [of 1 ?h] set_take_subset [of 2 ?h] by force+
  moreover have "unat u mod 16 ^ 32 = unat u" using unsigned_less [of u, where ?'a = nat] by simp
  ultimately show ?thesis
    using hex_digits_nibbles [of 32 False decimal 0 u] by (simp add: int16_def Let_def codes_uuid_hex)
qed

text \<open>\<open>uuid.UUID(str(u))\<close> is \<open>u\<close>.\<close>

lemma codes_uuid_str:
  defines "h \<equiv> \<lambda>u. codes (uuid_hex u)"
  shows "codes (uuid_str u) = take 8 (h u) @ 45 # take 4 (drop 8 (h u)) @ 45 # take 4 (drop 12 (h u)) @ 45 #
    take 4 (drop 16 (h u)) @ 45 # drop 20 (h u)"
  by (simp add: h_def uuid_str_def Let_def take_map drop_map)

lemma set_codes_uuid_str: "set (codes (uuid_str u)) \<subseteq> {45} \<union> {48..57} \<union> {97..102}"
proof -
  have "set (codes (uuid_str u)) \<subseteq> {45} \<union> set (codes (uuid_hex u))"
    unfolding codes_uuid_str by (auto dest!: in_set_takeD in_set_dropD simp del: set_map)
  with set_codes_uuid_hex [of u] show ?thesis by blast
qed

lemma filter_hyphens:
  assumes "45 \<notin> set h"
  shows "filter (\<lambda>c. c \<noteq> 45) (take 8 h @ 45 # take 4 (drop 8 h) @ 45 # take 4 (drop 12 h) @ 45 #
    take 4 (drop 16 h) @ 45 # drop 20 h) = (h :: nat list)"
proof -
  have "filter (\<lambda>c. c \<noteq> 45) (take n (drop m h)) = take n (drop m h)" "filter (\<lambda>c. c \<noteq> 45) (drop m h) = drop m h"
    "filter (\<lambda>c. c \<noteq> 45) (take n h) = take n h" for n m
    using assms by (auto intro!: filter_True dest: in_set_takeD in_set_dropD)
  moreover have "take 4 (drop 16 h) @ drop 20 h = drop 16 h" "take 4 (drop 12 h) @ drop 16 h = drop 12 h"
    "take 4 (drop 8 h) @ drop 12 h = drop 8 h"
    using append_take_drop_id [of 4 "drop 16 h"] append_take_drop_id [of 4 "drop 12 h"] append_take_drop_id [of 4 "drop 8 h"]
    by simp_all
  ultimately show ?thesis by simp
qed

lemma uuid_of_text_str: "uuid_of_text decimal (codes (uuid_str u)) = Some u"
proof -
  let ?s = "codes (uuid_str u)"
  have hex: "filter (\<lambda>c. c \<noteq> 45) ?s = codes (uuid_hex u)"
    unfolding codes_uuid_str using set_codes_uuid_hex [of u] by (intro filter_hyphens) auto
  have none: "replace_all old [] ?s = ?s" if "old \<noteq> []" "hd old > 102" for old
    using that set_codes_uuid_str [of u] by (intro replace_all_none) auto
  have "strip_chars (\<lambda>c. c = 123 \<or> c = 125) ?s = ?s"
    using set_codes_uuid_str [of u] by (intro strip_chars_none) auto
  then show ?thesis using hex by (simp add: uuid_of_text_def Let_def int16_uuid_hex none)
qed

interpretation uuid_codec: text_codec "\<lambda>u. codes (uuid_str u)" "uuid_of_text decimal" "\<lambda>_. True" for decimal
  by unfold_locales (rule uuid_of_text_str)

subsection \<open>Cursors\<close>

definition value_error :: pyexn where
  "value_error = Exn ''ValueError'' ''invalid cursor''"

definition encode_cursor :: "(timestamp \<Rightarrow> string) \<Rightarrow> timestamp \<Rightarrow> uuid \<Rightarrow> string" where
  "encode_cursor isoformat created_at document_id =
     urlsafe_b64encode (codes (utf8_encode (isoformat created_at @ ''|'' @ uuid_str document_id)))"

text \<open>A \<open>datetime\<close> as \<open>fromisoformat\<close> gives it: the moment (a text without an offset means the zone of the
  database session), and the offset from UTC in seconds, if the text has one.\<close>

record datetime =
  moment :: timestamp
  utc_offset :: "int option"

text \<open>\<open>a, b = raw.split("|")\<close>.\<close>

definition split_two :: "nat list \<Rightarrow> (nat list \<times> nat list) option" where
  "split_two raw = (let a = takeWhile (\<lambda>c. c \<noteq> 124) raw; rest = dropWhile (\<lambda>c. c \<noteq> 124) raw in
     if rest = [] \<or> 124 \<in> set (tl rest) then None else Some (a, tl rest))"

text \<open>Every failure on the way is a \<open>ValueError\<close>, raised again as one.\<close>

definition decode_cursor ::
  "(nat \<Rightarrow> nat option) \<Rightarrow> (nat list \<Rightarrow> datetime option) \<Rightarrow> string \<Rightarrow> pyexn + datetime \<times> uuid" where
  "decode_cursor decimal fromisoformat cursor =
     (case urlsafe_b64decode (utf8_encode cursor) of
        Inl _ \<Rightarrow> Inl value_error
      | Inr bytes \<Rightarrow>
          (case Option.bind (utf8_decode bytes) split_two of
             None \<Rightarrow> Inl value_error
           | Some (created_at_iso, document_id) \<Rightarrow>
               (case (fromisoformat created_at_iso, uuid_of_text decimal document_id) of
                  (Some t, Some u) \<Rightarrow> Inr (t, u)
                | _ \<Rightarrow> Inl value_error)))"

lemma split_two_join: "124 \<notin> set a \<Longrightarrow> 124 \<notin> set b \<Longrightarrow> split_two (a @ 124 # b) = Some (a, b)"
proof -
  assume ab: "124 \<notin> set a" "124 \<notin> set b"
  then have "takeWhile (\<lambda>c. c \<noteq> 124) (a @ 124 # b) = a" "dropWhile (\<lambda>c. c \<noteq> 124) (a @ 124 # b) = 124 # b"
    by (induction a) auto
  with ab show ?thesis by (simp add: split_two_def)
qed

lemma utf8_encode_ascii: "\<forall>c \<in> set s. (of_char c :: nat) < 128 \<Longrightarrow> utf8_encode s = s"
  by (induction s) (simp_all add: utf8_encode_def)

lemma b64encode_ascii: "\<forall>b \<in> set bs. b < 256 \<Longrightarrow> \<forall>c \<in> set (urlsafe_b64encode bs). (of_char c :: nat) < 128"
proof -
  have chr: "(of_char (url_safe (b64_char n)) :: nat) < 128" if "n < 64" for n
  proof -
    have "\<forall>c \<in> set b64_alphabet. (of_char (url_safe c) :: nat) < 128" by code_simp
    moreover have "length b64_alphabet = 64" by (simp add: b64_alphabet_def)
    then have "b64_char n \<in> set b64_alphabet" using that nth_mem [of n b64_alphabet] by (simp add: b64_char_def)
    ultimately show ?thesis by blast
  qed
  have pad: "(of_char (url_safe (CHR ''='')) :: nat) < 128" by code_simp
  show "\<forall>b \<in> set bs. b < 256 \<Longrightarrow> \<forall>c \<in> set (urlsafe_b64encode bs). (of_char c :: nat) < 128"
    unfolding urlsafe_b64encode_def
    by (induction bs rule: b64encode.induct) (simp_all add: chr pad sextets)
qed

lemma decode_encode_cursor:
  assumes iso: "fromisoformat (codes (isoformat t)) = Some m" and sep: "CHR ''|'' \<notin> set (isoformat t)"
  shows "decode_cursor decimal fromisoformat (encode_cursor isoformat t u) = Inr (m, u)"
proof -
  let ?raw = "isoformat t @ ''|'' @ uuid_str u"
  let ?bytes = "codes (utf8_encode ?raw)"
  have small: "\<forall>b \<in> set ?bytes. b < 256" using of_char_less by auto
  have "urlsafe_b64decode (utf8_encode (encode_cursor isoformat t u)) = Inr ?bytes"
    unfolding encode_cursor_def utf8_encode_ascii [OF b64encode_ascii [OF small]]
    by (rule urlsafe_b64decode_encode [OF small])
  moreover have "124 \<notin> set (codes (isoformat t))"
  proof
    assume "124 \<in> set (codes (isoformat t))"
    then obtain c where c: "c \<in> set (isoformat t)" "(of_char c :: nat) = of_char (CHR ''|'')" by auto
    with sep show False by (simp only: of_char_eq_iff)
  qed
  moreover have "124 \<notin> set (codes (uuid_str u))" using set_codes_uuid_str [of u] by auto
  ultimately show ?thesis
    using iso uuid_of_text_str [of decimal u] utf8_decode_encode [of ?raw]
    by (simp add: decode_cursor_def split_two_join)
qed

lemma decode_cursor_error: "decode_cursor decimal fromisoformat cursor = Inl e \<Longrightarrow> e = value_error"
  by (auto simp: decode_cursor_def split: sum.splits option.splits prod.splits)

end
