(* ===== verification/Listing.thy ===== *)
theory Listing
  imports Cursors RefineEntry "HOL-Library.Multiset"
begin

section \<open>Listing documents (\<open>app/api/routes_impl/documents.py\<close>, \<open>app/api/documents.py\<close>)\<close>

text \<open>
  One keyset page of an organization's documents, and the walk of a client that follows
  \<open>next_cursor\<close> to the end. The locale \<open>keyset\<close> is what the walk needs of the page query; the
  query of \<open>Queries\<close> is its interpretation.
\<close>

record document_list_item =
  dli_id :: uuid
  dli_filename :: string
  dli_uploaded_by :: string
  dli_status :: document_status
  dli_created_at :: timestamp

record paginated_documents =
  pd_items :: "document_list_item list"
  pd_next_cursor :: "string option"

definition list_item_of :: "document \<times> string \<Rightarrow> document_list_item" where
  "list_item_of row = (case row of (document, email) \<Rightarrow>
     \<lparr>dli_id = doc_id document, dli_filename = doc_filename document, dli_uploaded_by = email,
      dli_status = doc_status document, dli_created_at = doc_created_at document\<rparr>)"

text \<open>The database refuses a timestamp with an offset that it does not know (PostgreSQL: sixteen
  hours or more): the query fails with a \<open>DataError\<close>. Which ones it takes is the argument \<open>binds\<close>.\<close>

definition data_error :: pyexn where
  "data_error = Exn ''DataError'' ''time zone displacement out of range''"

definition bind_key :: "(datetime \<Rightarrow> bool) \<Rightarrow> (datetime \<times> uuid) option \<Rightarrow> pyexn + sort_key option" where
  "bind_key binds after = (case after of
     None \<Rightarrow> Inr None
   | Some (t, u) \<Rightarrow> if binds t then Inr (Some (moment t, u)) else Inl data_error)"

text \<open>\<open>decode_cursor(cursor) if cursor else None\<close>.\<close>

definition after_cursor ::
  "(nat \<Rightarrow> nat option) \<Rightarrow> (nat list \<Rightarrow> datetime option) \<Rightarrow> string option \<Rightarrow> pyexn + (datetime \<times> uuid) option" where
  "after_cursor decimal fromisoformat cursor = (case cursor of
     None \<Rightarrow> Inr None
   | Some c \<Rightarrow> if c = [] then Inr None
               else bind_result (decode_cursor decimal fromisoformat c) (\<lambda>k. Inr (Some k)))"

definition list_documents ::
  "(datetime \<Rightarrow> bool) \<Rightarrow> (nat \<Rightarrow> nat option) \<Rightarrow> (timestamp \<Rightarrow> string) \<Rightarrow> (nat list \<Rightarrow> datetime option) \<Rightarrow> uuid \<Rightarrow> int \<Rightarrow> string option \<Rightarrow> world \<Rightarrow>
   pyexn + paginated_documents" where
  "list_documents binds decimal isoformat fromisoformat org limit cursor w =
     bind_result (after_cursor decimal fromisoformat cursor) (\<lambda>after.
     bind_result (bind_key binds after) (\<lambda>after_key.
     let rows = list_org_documents org (limit + 1) after_key w;
         has_more = int (length rows) > limit;
         shown = take (nat limit) rows;
         items = map list_item_of shown
     in if has_more then
          (if shown = [] then Inl (Exn ''IndexError'' ''list index out of range'')
           else Inr \<lparr>pd_items = items, pd_next_cursor =
             Some (encode_cursor isoformat (doc_created_at (fst (last shown))) (doc_id (fst (last shown))))\<rparr>)
        else Inr \<lparr>pd_items = items, pd_next_cursor = None\<rparr>))"

text \<open>The route: the page size is validated, a \<open>ValueError\<close> is a bad cursor.\<close>

definition list_documents_route ::
  "(datetime \<Rightarrow> bool) \<Rightarrow> (nat \<Rightarrow> nat option) \<Rightarrow> (timestamp \<Rightarrow> string) \<Rightarrow> (nat list \<Rightarrow> datetime option) \<Rightarrow> app_user \<Rightarrow> int \<Rightarrow> string option \<Rightarrow> world \<Rightarrow>
   paginated_documents response" where
  "list_documents_route binds decimal isoformat fromisoformat user limit cursor w =
     (if limit < 1 \<or> 100 < limit then HTTPException 422 ''validation error''
      else case list_documents binds decimal isoformat fromisoformat (user_org_id user) limit cursor (open_session w) of
             Inr page \<Rightarrow> Answer page
           | Inl e \<Rightarrow> if exn_type e = ''ValueError'' then HTTPException 400 ''invalid cursor'' else Escaped e)"

text \<open>Once the cursor is read and bound, there is a page.\<close>

lemma list_documents_answers:
  assumes "1 \<le> limit" "after_cursor decimal fromisoformat cursor = Inr after" "bind_key binds after = Inr k"
  shows "\<exists>page. list_documents binds decimal isoformat fromisoformat org limit cursor w = Inr page"
proof -
  have "take (nat limit) rows \<noteq> []" if "int (length rows) > limit" for rows :: "(document \<times> string) list"
    using that assms(1) by auto
  with assms(2,3) show ?thesis by (simp add: list_documents_def Let_def)
qed

text \<open>A client that asks for page after page.\<close>

fun walk_documents ::
  "(datetime \<Rightarrow> bool) \<Rightarrow> (nat \<Rightarrow> nat option) \<Rightarrow> (timestamp \<Rightarrow> string) \<Rightarrow> (nat list \<Rightarrow> datetime option) \<Rightarrow> uuid \<Rightarrow> int \<Rightarrow> world \<Rightarrow> nat \<Rightarrow>
   string option \<Rightarrow> (pyexn + document_list_item list) option" where
  "walk_documents binds decimal isoformat fromisoformat org limit w 0 cursor = None"
| "walk_documents binds decimal isoformat fromisoformat org limit w (Suc fuel) cursor =
     (case list_documents binds decimal isoformat fromisoformat org limit cursor w of
        Inl e \<Rightarrow> Some (Inl e)
      | Inr page \<Rightarrow>
          (case pd_next_cursor page of
             None \<Rightarrow> Some (Inr (pd_items page))
           | Some c \<Rightarrow>
               map_option (\<lambda>rest. bind_result rest (\<lambda>items. Inr (pd_items page @ items)))
                 (walk_documents binds decimal isoformat fromisoformat org limit w fuel (Some c))))"

subsection \<open>Keyset pages\<close>

definition beyond :: "('r \<Rightarrow> 'k::linorder) \<Rightarrow> 'k option \<Rightarrow> 'r list \<Rightarrow> 'r list" where
  "beyond key after_key rows = filter (\<lambda>r. case after_key of None \<Rightarrow> True | Some k \<Rightarrow> key r < k) rows"

locale keyset =
  fixes key :: "'r \<Rightarrow> 'k::linorder" and rows :: "'r list" and page :: "nat \<Rightarrow> 'k option \<Rightarrow> 'r list"
  assumes descending: "sorted_wrt (\<lambda>a b. key b < key a) rows"
    and page: "page n after_key = take n (beyond key after_key rows)"
begin

lemma beyond_last:
  assumes "rows = xs @ r # ys"
  shows "beyond key (Some (key r)) rows = ys"
proof -
  have "\<forall>x \<in> set xs. key r < key x" "\<forall>y \<in> set ys. key y < key r"
    using descending assms by (auto simp: sorted_wrt_append)
  then have "filter (\<lambda>q. key q < key r) xs = []" "filter (\<lambda>q. key q < key r) ys = ys"
    by (auto simp: filter_empty_conv filter_id_conv)
  then show ?thesis by (simp add: beyond_def assms)
qed

text \<open>The rest of the rows is a suffix, and the page's last key leads to the next suffix.\<close>

lemma next_page:
  assumes "rows = xs @ beyond key after_key rows" "0 < n" "n < length (page (Suc n) after_key)"
  shows "beyond key (Some (key (last (take n (page (Suc n) after_key))))) rows = drop n (beyond key after_key rows)"
    and "rows = (xs @ take n (beyond key after_key rows)) @
      beyond key (Some (key (last (take n (page (Suc n) after_key))))) rows"
proof -
  let ?b = "beyond key after_key rows"
  have n: "n < length ?b" "take n (page (Suc n) after_key) = take n ?b"
    using assms(3) by (simp_all add: page)
  have "take n ?b \<noteq> []" using assms(2) n(1) by (cases ?b) auto
  then have "take n ?b = butlast (take n ?b) @ [last (take n ?b)]" by (rule append_butlast_last_id [symmetric])
  then have "?b = butlast (take n ?b) @ last (take n ?b) # drop n ?b"
    by (metis append.assoc append_Cons append_Nil append_take_drop_id)
  then have "rows = (xs @ butlast (take n ?b)) @ last (take n ?b) # drop n ?b"
    using assms(1) by (metis append.assoc)
  from beyond_last [OF this] n(2)
  show "beyond key (Some (key (last (take n (page (Suc n) after_key))))) rows = drop n ?b" by simp
  then show "rows = (xs @ take n ?b) @ beyond key (Some (key (last (take n (page (Suc n) after_key))))) rows"
    using assms(1) by simp
qed

lemma last_page: "length (page (Suc n) after_key) \<le> n \<Longrightarrow> take n (page (Suc n) after_key) = beyond key after_key rows"
  by (simp add: page min_def split: if_splits)

text \<open>A page depends only on the rows beyond its key: what is inserted before it does not shift it.\<close>

lemma stable: "beyond key (Some k) (news @ rows) = beyond key (Some k) rows" if "\<forall>r \<in> set news. k \<le> key r"
  using that by (auto simp: beyond_def filter_empty_conv)

end

subsection \<open>The page query is one\<close>

definition org_rows :: "uuid \<Rightarrow> database \<Rightarrow> (document \<times> string) list" where
  "org_rows org db = rev (sort_key (\<lambda>(r, _). document_key r) (page_candidates org None db))"

lemma page_candidates_after:
  "page_candidates org after_key db =
    filter (\<lambda>row. case after_key of None \<Rightarrow> True | Some k \<Rightarrow> document_key (fst row) < k) (page_candidates org None db)"
proof -
  have "concat (map (\<lambda>r. map (\<lambda>u. (r, g u)) (h r)) (filter (\<lambda>r. P r \<and> Q r) xs)) =
      filter (\<lambda>row. Q (fst row)) (concat (map (\<lambda>r. map (\<lambda>u. (r, g u)) (h r)) (filter P xs)))"
    for P Q :: "document \<Rightarrow> bool" and g :: "app_user \<Rightarrow> string" and h xs
    by (induction xs) (auto simp: filter_empty_conv filter_id_conv)
  from this [of "\<lambda>u. user_email u" "\<lambda>r. filter (\<lambda>u. user_id u = doc_uploaded_by r) (app_users db)"
      "\<lambda>r. doc_org_id r = org" "\<lambda>r. case after_key of None \<Rightarrow> True | Some k \<Rightarrow> document_key r < k" "documents db"]
  show ?thesis by (simp add: page_candidates_def)
qed

lemma page_candidates_documents:
  assumes "schema_ok db"
  shows "map fst (page_candidates org None db) = filter (\<lambda>r. doc_org_id r = org) (documents db)"
proof -
  have one: "length (filter (\<lambda>u. user_id u = doc_uploaded_by r) (app_users db)) = 1" if "r \<in> set (documents db)" for r
  proof -
    from schema_okD(7) [OF assms that] obtain u where u: "u \<in> set (app_users db)" "user_id u = doc_uploaded_by r" by auto
    have "filter (\<lambda>v. user_id v = user_id u) us = [u]" if "u \<in> set us" "distinct (map user_id us)" for us
      using that by (induction us) (auto simp: filter_empty_conv image_iff)
    from this [OF u(1) schema_okD(4) [OF assms]] u(2) show ?thesis by simp
  qed
  have "map fst (concat (map (\<lambda>r. map (\<lambda>u. (r, user_email u)) (h r)) xs)) = xs"
    if "\<forall>r \<in> set xs. length (h r) = 1" for h and xs :: "document list"
    using that
  proof (induction xs)
    case (Cons r xs)
    then obtain u where "h r = [u]" by (cases "h r") auto
    with Cons show ?case by simp
  qed simp
  from this [of "filter (\<lambda>r. doc_org_id r = org) (documents db)"
      "\<lambda>r. filter (\<lambda>u. user_id u = doc_uploaded_by r) (app_users db)"] one
  show ?thesis by (simp add: page_candidates_def)
qed

lemma document_key_row: "(\<lambda>(r, _). document_key r) = (\<lambda>row. document_key (fst row))"
  by auto

lemma document_keys_distinct:
  assumes "schema_ok db"
  shows "distinct (map (\<lambda>row. document_key (fst row)) (page_candidates org None db))"
proof -
  have "distinct (map doc_id (map fst (page_candidates org None db)))"
    unfolding page_candidates_documents [OF assms] using schema_okD(1) [OF assms] by (simp add: distinct_map_filter)
  then show ?thesis by (auto simp: distinct_map inj_on_def document_key_def)
qed

lemma org_rows_descending:
  assumes "schema_ok db"
  shows "sorted_wrt (\<lambda>a b. document_key (fst b) < document_key (fst a)) (org_rows org db)"
proof -
  let ?k = "\<lambda>row. document_key (fst row)" and ?rs = "page_candidates org None db"
  have "mset (map ?k (sort_key ?k ?rs)) = mset (map ?k ?rs)" by simp
  then have "distinct (map ?k (sort_key ?k ?rs))"
    using document_keys_distinct [OF assms, of org] mset_eq_imp_distinct_iff by blast
  then have "sorted_wrt (<) (map ?k (sort_key ?k ?rs))" by (simp add: strict_sorted_iff)
  then have "sorted_wrt (\<lambda>a b. ?k a < ?k b) (sort_key ?k ?rs)" by (simp only: sorted_wrt_map)
  then show ?thesis by (simp only: org_rows_def document_key_row sorted_wrt_rev)
qed

lemma list_org_documents_page:
  "list_org_documents org limit after_key w =
    take (nat limit) (beyond (\<lambda>row. document_key (fst row)) after_key (org_rows org (working w)))"
proof -
  have "filter P (rev (sort_key k xs)) = rev (sort_key k (filter P xs))"
    for P and k :: "document \<times> string \<Rightarrow> sort_key" and xs
    by (simp add: filter_sort rev_filter [symmetric])
  then show ?thesis
    unfolding list_org_documents_def page_candidates_after [of org after_key] beyond_def org_rows_def document_key_row
    by simp
qed

lemma keyset_documents:
  assumes "schema_ok (working w)"
  shows "keyset (\<lambda>row. document_key (fst row)) (org_rows org (working w)) (\<lambda>n after_key. list_org_documents org (int n) after_key w)"
  by unfold_locales (simp_all add: org_rows_descending [OF assms] list_org_documents_page)


text \<open>The query of one organization, as an instance of the interface.\<close>

interpretation org_query: keyset "\<lambda>row. document_key (fst row)"
    "if schema_ok (working w) then org_rows org (working w) else []"
    "\<lambda>n after_key. if schema_ok (working w) then list_org_documents org (int n) after_key w else []" for org w
proof (cases "schema_ok (working w)")
  case True
  from keyset_documents [OF True] True show "keyset (\<lambda>row. document_key (fst row))
    (if schema_ok (working w) then org_rows org (working w) else [])
    (\<lambda>n after_key. if schema_ok (working w) then list_org_documents org (int n) after_key w else [])" by simp
next
  case False
  then show "keyset (\<lambda>row. document_key (fst row))
    (if schema_ok (working w) then org_rows org (working w) else [])
    (\<lambda>n after_key. if schema_ok (working w) then list_org_documents org (int n) after_key w else [])"
    by unfold_locales (simp_all add: beyond_def)
qed

subsection \<open>The walk\<close>

text \<open>What the listing relies on: \<open>fromisoformat\<close> reads \<open>isoformat\<close>, and the database takes its own dates
  back.\<close>

definition date_codec ::
  "(datetime \<Rightarrow> bool) \<Rightarrow> (timestamp \<Rightarrow> string) \<Rightarrow> (nat list \<Rightarrow> datetime option) \<Rightarrow> bool" where
  "date_codec binds isoformat fromisoformat \<longleftrightarrow>
     (\<forall>t. (\<exists>m. fromisoformat (codes (isoformat t)) = Some m \<and> moment m = t \<and> binds m) \<and> CHR ''|'' \<notin> set (isoformat t))"

lemma decode_own_cursor:
  assumes "date_codec binds isoformat fromisoformat"
  shows "\<exists>m. decode_cursor decimal fromisoformat (encode_cursor isoformat t u) = Inr (m, u) \<and> moment m = t \<and> binds m"
  using assms decode_encode_cursor unfolding date_codec_def by metis

text \<open>Asking for the page after a cursor of the program asks for the rows beyond its key.\<close>

definition cursor_for :: "(timestamp \<Rightarrow> string) \<Rightarrow> sort_key option \<Rightarrow> string option" where
  "cursor_for isoformat after_key = map_option (\<lambda>(t, u). encode_cursor isoformat t u) after_key"

lemma encode_cursor_nonempty: "encode_cursor isoformat t u \<noteq> []"
proof -
  have "codes (utf8_encode (isoformat t @ ''|'' @ uuid_str u)) \<noteq> []"
    by (auto simp: utf8_encode_def Let_def)
  then show ?thesis
    unfolding encode_cursor_def urlsafe_b64encode_def
    by (cases "codes (utf8_encode (isoformat t @ ''|'' @ uuid_str u))" rule: b64encode.cases) simp_all
qed

lemma list_documents_page:
  fixes org :: uuid and after_key :: "sort_key option"
  assumes "date_codec binds isoformat fromisoformat" "schema_ok (working w)" "0 < n"
  defines "rest \<equiv> beyond (\<lambda>row. document_key (fst row)) after_key (org_rows org (working w))"
  shows "list_documents binds decimal isoformat fromisoformat org (int n) (cursor_for isoformat after_key) w =
    Inr \<lparr>pd_items = map list_item_of (take n rest), pd_next_cursor =
      (if n < length rest then cursor_for isoformat (Some (document_key (fst (last (take n rest))))) else None)\<rparr>"
proof -
  have key: "bind_result (after_cursor decimal fromisoformat (cursor_for isoformat after_key)) (bind_key binds) = Inr after_key"
  proof (cases after_key)
    case (Some k)
    obtain t u where k: "k = (t, u)" by force
    obtain m where "decode_cursor decimal fromisoformat (encode_cursor isoformat t u) = Inr (m, u)" "moment m = t" "binds m"
      using decode_own_cursor [OF assms(1)] by blast
    with Some k encode_cursor_nonempty show ?thesis by (simp add: cursor_for_def after_cursor_def bind_key_def)
  qed (simp add: cursor_for_def after_cursor_def bind_key_def)
  have rows: "list_org_documents org (int n + 1) after_key w = take (Suc n) rest"
    by (simp add: list_org_documents_page rest_def nat_add_distrib)
  have "take n (take (Suc n) rest) = take n rest" by simp
  moreover have "int (length (take (Suc n) rest)) > int n \<longleftrightarrow> n < length rest" by auto
  moreover have "n < length rest \<Longrightarrow> take n rest \<noteq> []" using assms(3) by (cases rest) auto
  ultimately show ?thesis
    using assms(3) unfolding list_documents_def bind_result_assoc [symmetric] key by (auto simp: rows Let_def cursor_for_def document_key_def)
qed

lemma walk_documents_beyond:
  assumes codec: "date_codec binds isoformat fromisoformat" and ok: "schema_ok (working w)" and n: "0 < n"
    and "org_rows org (working w) = xs @ beyond (\<lambda>row. document_key (fst row)) after_key (org_rows org (working w))"
    and "length (beyond (\<lambda>row. document_key (fst row)) after_key (org_rows org (working w))) < fuel"
  shows "walk_documents binds decimal isoformat fromisoformat org (int n) w fuel (cursor_for isoformat after_key) =
    Some (Inr (map list_item_of (beyond (\<lambda>row. document_key (fst row)) after_key (org_rows org (working w)))))"
  using assms(4,5)
proof (induction fuel arbitrary: xs after_key)
  case (Suc fuel)
  let ?rest = "\<lambda>k. beyond (\<lambda>row. document_key (fst row)) k (org_rows org (working w))"
  let ?k = "Some (document_key (fst (last (take n (?rest after_key)))))"
  note page = list_documents_page [where org = org and after_key = after_key and decimal = decimal, OF codec ok n]
  show ?case
  proof (cases "n < length (?rest after_key)")
    case True
    have query: "list_org_documents org (int (Suc n)) after_key w = take (Suc n) (?rest after_key)"
      by (simp add: list_org_documents_page nat_add_distrib)
    have "n < length (take (Suc n) (?rest after_key))" using True by simp
    note nxt = org_query.next_page [of w org xs after_key n, simplified ok if_True query, OF Suc.prems(1) n this]
    have drop: "?rest ?k = drop n (?rest after_key)" using nxt(1) by simp
    have split: "org_rows org (working w) = (xs @ take n (?rest after_key)) @ ?rest ?k" using nxt(2) by simp
    have "length (?rest ?k) < fuel" using Suc.prems(2) n True unfolding drop by simp
    note rest = Suc.IH [OF split this]
    obtain c where c: "cursor_for isoformat ?k = Some c" by (simp add: cursor_for_def case_prod_beta)
    have "map list_item_of (take n (?rest after_key)) @ map list_item_of (drop n (?rest after_key)) =
        map list_item_of (?rest after_key)" by (simp only: map_append [symmetric] append_take_drop_id)
    with rest page True show ?thesis by (simp add: c drop)
  next
    case False
    with page show ?thesis by simp
  qed
qed simp

text \<open>Following \<open>next_cursor\<close> from the first page lists every document of the organization exactly
  once, newest first.\<close>

lemma walk_documents_all:
  assumes "date_codec binds isoformat fromisoformat" "schema_ok (working w)" "0 < n"
  shows "walk_documents binds decimal isoformat fromisoformat org (int n) w (Suc (length (documents (working w)))) None =
    Some (Inr (map list_item_of (org_rows org (working w))))"
proof -
  have all: "beyond (\<lambda>row. document_key (fst row)) None (org_rows org (working w)) = org_rows org (working w)"
    by (simp add: beyond_def)
  have "length (org_rows org (working w)) = length (map fst (page_candidates org None (working w)))"
    by (simp add: org_rows_def)
  also have "\<dots> \<le> length (documents (working w))"
    unfolding page_candidates_documents [OF assms(2)] by (rule length_filter_le)
  finally have "length (org_rows org (working w)) < Suc (length (documents (working w)))" by simp
  with walk_documents_beyond [OF assms, of org "[]" None] show ?thesis
    by (simp add: all cursor_for_def del: walk_documents.simps)
qed

lemma org_rows_ids:
  assumes "schema_ok db"
  shows "mset (map (\<lambda>row. doc_id (fst row)) (org_rows org db)) =
    mset (map doc_id (filter (\<lambda>r. doc_org_id r = org) (documents db)))"
proof -
  have "mset (map (\<lambda>row. doc_id (fst row)) (org_rows org db)) = mset (map doc_id (map fst (page_candidates org None db)))"
    by (simp add: org_rows_def multiset.map_comp comp_def)
  then show ?thesis by (simp only: page_candidates_documents [OF assms])
qed

lemma items_descending:
  assumes "schema_ok db"
  shows "sorted_wrt (\<lambda>a b. (dli_created_at b, dli_id b) < (dli_created_at a, dli_id a)) (map list_item_of (org_rows org db))"
  using org_rows_descending [OF assms, of org]
  by (simp add: sorted_wrt_map list_item_of_def document_key_def case_prod_beta)

subsection \<open>Stability\<close>

text \<open>A page depends on the database only through the rows beyond its key, so an upload between two
  requests does not shift what is left to read.\<close>

lemma list_documents_candidates:
  assumes "date_codec binds isoformat fromisoformat"
    and "page_candidates org (Some (t, u)) (working w') = page_candidates org (Some (t, u)) (working w)"
  shows "list_documents binds decimal isoformat fromisoformat org limit (Some (encode_cursor isoformat t u)) w' =
    list_documents binds decimal isoformat fromisoformat org limit (Some (encode_cursor isoformat t u)) w"
proof -
  obtain m where "decode_cursor decimal fromisoformat (encode_cursor isoformat t u) = Inr (m, u)" "moment m = t" "binds m"
    using decode_own_cursor [OF assms(1)] by blast
  with assms(2) show ?thesis
    by (simp add: list_documents_def list_org_documents_def encode_cursor_nonempty after_cursor_def bind_key_def)
qed

lemma page_candidates_newer:
  assumes "documents db' = documents db @ [r]" "app_users db' = app_users db" "\<not> document_key r < k"
  shows "page_candidates org (Some k) db' = page_candidates org (Some k) db"
  using assms by (simp add: page_candidates_def)

end
