(* ===== verification/Uploads.thy ===== *)
theory Uploads
  imports Outcomes Listing
begin

section \<open>The first steps of a document\<close>

text \<open>
  The exact result of an upload, with the broker up and with the broker down.
\<close>

definition upload_name :: "string option \<Rightarrow> string" where
  "upload_name filename = (case filename of Some n \<Rightarrow> if n = [] then ''upload.bin'' else n | None \<Rightarrow> ''upload.bin'')"

text \<open>The new state: the document and its steps committed, the file on disk.\<close>

definition after_upload ::
  "settings \<Rightarrow> (string \<Rightarrow> string) \<Rightarrow> uuid \<Rightarrow> (step_name \<Rightarrow> uuid) \<Rightarrow> app_user \<Rightarrow> string \<Rightarrow> string \<Rightarrow> effect list \<Rightarrow> world \<Rightarrow> world" where
  "after_upload cfg abspath d ids user name data sent w =
     (let db = uploaded cfg abspath d ids user name (clock w) (committed w)
      in w\<lparr>committed := db, working := db, pending := [], trace := trace w @ Committed db [] # sent, faults := tl (faults w),
           disk := AList.update (storage_path (storage_dir cfg) (user_org_id user) d) data (disk w)\<rparr>)"

lemma upload_document_up:
  assumes "clean w" "faults w = [] \<or> \<not> hd (faults w)"
  shows "upload_document cfg abspath d ids user filename data w =
    (Answer \<lparr>dc_id = d, dc_status = PROCESSING\<rparr>, after_upload cfg abspath d ids user (upload_name filename) data
      [Published \<lparr>payload_document_id = d, payload_step = OCR\<rparr>] w)"
  using assms
  by (cases "faults w") (simp_all add: upload_document_def upload_name_def [symmetric] session_scope_def create_document_def publish_entries_OCR
      storage_save_def Let_def clean_def publish_step_def after_upload_def uploaded_def add_document_def
      commit_def rollback_def open_session_def new_document_def)

lemma upload_document_down:
  assumes "clean w" "faults w = True # fs"
  shows "upload_document cfg abspath d ids user filename data w =
    (Escaped (Exn ''AMQPConnectionError'' []), after_upload cfg abspath d ids user (upload_name filename) data [] w)"
  using assms
  by (simp add: upload_document_def upload_name_def [symmetric] session_scope_def create_document_def publish_entries_OCR
      storage_save_def Let_def clean_def publish_step_def after_upload_def uploaded_def add_document_def
      commit_def rollback_def open_session_def new_document_def)

lemma find_document_uploaded:
  assumes "fresh_ids d ids db"
  shows "find_document d (uploaded cfg abspath d ids user name now db) =
    Some ((new_document user name d now)\<lparr>doc_storage_uri := as_uri (abspath (storage_path (storage_dir cfg) (user_org_id user) d))\<rparr>)"
proof -
  have "find (\<lambda>r. doc_id r = d) (documents db) = None" using assms by (auto simp: find_None_iff fresh_ids_def)
  then show ?thesis by (simp add: find_document_def uploaded_def add_document_def find_append new_document_def)
qed

text \<open>A fresh document is on track, whether or not its first message was sent.\<close>

lemma after_upload_on_track:
  assumes clean: "clean w" and ok: "pipeline_ok cfg (committed w)" and guard: "upload_guard cfg d ids user w"
    and up: "tl (faults w) = []"
  shows "on_track cfg d start_statuses (after_upload cfg abspath d ids user name data sent w)"
proof -
  let ?db = "uploaded cfg abspath d ids user name (clock w) (committed w)"
  from guard have g: "1 \<le> step_max_attempts cfg" "user \<in> set (app_users (committed w))" "fresh_ids d ids (committed w)"
    by (simp_all add: upload_guard_def)
  have okdb: "pipeline_ok cfg ?db"
    unfolding uploaded_def by (rule pipeline_ok_upload [OF ok g]) (simp_all add: new_document_def)
  have status: "status_of d s ?db = Some (start_statuses s)" for s
    unfolding status_of_def uploaded_def find_step_add_document [OF pipeline_okD(1) [OF ok] g(3)]
    by (simp add: new_step_def start_statuses_def)
  note doc = find_document_uploaded [OF g(3), of cfg abspath user name "clock w"]
  have "in_sync d ?db"
    using status by (simp add: in_sync_def derive_status [OF pipeline_okD(1) [OF okdb]] doc new_document_def start_statuses_def)
  with okdb status doc up show ?thesis
    by (simp add: on_track_def after_upload_def Let_def clean_def start_statuses_def)
qed

end
