(* ===== verification/Demo.thy ===== *)
theory Demo
  imports Uploads
begin

section \<open>A concrete deployment\<close>

text \<open>
  One organization, one user, the settings of an empty environment, and the parameters of the
  model given by concrete functions: the bodies of the four messages of document 7, the
  partner's two answers, and a digest. \<open>uploaded_world\<close> is the world after the upload of
  document 7, \<open>waiting_world\<close> after four successful deliveries, and \<open>ready_world\<close> after the
  partner's callback.
\<close>

definition demo_user :: app_user where
  "demo_user = \<lparr>user_id = 2, user_org_id = 1, user_email = ''alice@acme.test''\<rparr>"

definition demo_db :: database where
  "demo_db = \<lparr>organizations = [\<lparr>organization_id = 1, organization_name = ''acme''\<rparr>], app_users = [demo_user],
     documents = [], pipeline_steps = [], webhook_events = []\<rparr>"

definition demo_world :: world where
  "demo_world = \<lparr>committed = demo_db, working = demo_db, pending = [], trace = [], faults = [], clock = 0, disk = []\<rparr>"

fun demo_ids :: "step_name \<Rightarrow> uuid" where
  "demo_ids OCR = 11" | "demo_ids METADATA = 12" | "demo_ids CHUNKING = 13" | "demo_ids EXTERNAL_CALL = 14"

definition demo_body :: "step_name \<Rightarrow> string" where
  "demo_body s = step_name_value s"

definition demo_parse_body :: "string \<Rightarrow> payload option" where
  "demo_parse_body b = map_option (\<lambda>s. \<lparr>payload_document_id = 7, payload_step = s\<rparr>) (step_name_of_value b)"

definition good_draws :: draws where "good_draws = \<lparr>random_draw = 1, job_uuid = 5\<rparr>"
definition bad_draws :: draws where "bad_draws = \<lparr>random_draw = 0, job_uuid = 5\<rparr>"

definition demo_job :: string where
  "demo_job = ''j_'' @ take 16 (uuid_hex (job_uuid good_draws))"

definition demo_result :: "(string \<times> json) list" where
  "demo_result = [(''score'', JInt 3)]"

definition demo_parse_json :: "string \<Rightarrow> json option" where
  "demo_parse_json raw =
     (if raw = ''done'' then Some (JObject [(''job_id'', JString demo_job), (''status'', JString ''completed''), (''result'', JObject demo_result)])
      else if raw = ''refused'' then Some (JObject [(''job_id'', JString demo_job), (''status'', JString ''failed'')])
      else if raw = ''unknown'' then Some (JObject [(''job_id'', JString ''nobody''), (''status'', JString ''completed'')])
      else None)"

definition demo_hmac :: "string \<Rightarrow> string \<Rightarrow> string" where
  "demo_hmac k raw = take 32 (k @ raw)"

definition demo_env :: deployment where
  "demo_env = \<lparr>env_settings = default_settings, env_abspath = (\<lambda>p. p), env_hmac = demo_hmac,
     env_parse_json = demo_parse_json, env_parse_datetime = (\<lambda>_. None), env_parse_body = demo_parse_body\<rparr>"

definition demo_upload :: operation where
  "demo_upload = Upload 7 demo_ids demo_user (Some ''a.pdf'') ''bytes''"

definition uploaded_world :: world where
  "uploaded_world = snd (upload_document default_settings (\<lambda>p. p) 7 demo_ids demo_user (Some ''a.pdf'') ''bytes'' demo_world)"

definition waiting_world :: world where
  "waiting_world = four_deliveries default_settings demo_parse_body (\<lambda>_. good_draws) demo_body
     [OCR, METADATA, CHUNKING, EXTERNAL_CALL] uploaded_world"

definition demo_signature :: "string \<Rightarrow> string option" where
  "demo_signature raw = Some (compute_signature default_settings demo_hmac raw)"

definition ready_world :: world where
  "ready_world = snd (partner_webhook default_settings demo_hmac demo_parse_json (\<lambda>_. None) 99 ''done'' (demo_signature ''done'') waiting_world)"

subsection \<open>The start\<close>

lemma demo_env_simps [simp]:
  "env_settings demo_env = default_settings" "env_abspath demo_env = (\<lambda>p. p)" "env_hmac demo_env = demo_hmac"
  "env_parse_json demo_env = demo_parse_json" "env_parse_datetime demo_env = (\<lambda>_. None)"
  "env_parse_body demo_env = demo_parse_body"
  by (simp_all add: demo_env_def)

lemma demo_world_simps [simp]:
  "committed demo_world = demo_db" "working demo_world = demo_db" "trace demo_world = []" "faults demo_world = []"
  "clock demo_world = 0" "disk demo_world = []" "clean demo_world"
  by (simp_all add: demo_world_def clean_def)

lemma demo_parse_body [simp]:
  "demo_parse_body (demo_body s) = Some \<lparr>payload_document_id = 7, payload_step = s\<rparr>"
  by (simp add: demo_parse_body_def demo_body_def step_name_codec.decode_encode)

lemma demo_draws [simp]: "\<not> step_fails good_draws" "step_fails bad_draws"
  by (simp_all add: step_fails_def good_draws_def bad_draws_def)

lemma demo_schema: "schema_ok demo_db"
  by (simp add: schema_ok_def demo_db_def demo_user_def)

lemma demo_initial: "initial (demo_world, {#})"
  using demo_schema by (simp add: initial_def demo_db_def)

lemma demo_ok: "pipeline_ok default_settings demo_db"
  using initial_ok [OF demo_initial, of demo_env] by (simp add: system_ok_def)

lemma demo_att [simp]: "1 \<le> step_max_attempts default_settings"
  by simp

lemma demo_fresh: "fresh_ids 7 demo_ids demo_db"
  by (simp add: fresh_ids_def demo_db_def all_step_names_def)

lemma demo_guard: "upload_guard default_settings 7 demo_ids demo_user demo_world"
  using demo_fresh by (simp add: upload_guard_def) (simp add: demo_db_def)

subsection \<open>The upload\<close>

lemma uploaded_world_eq:
  "uploaded_world = after_upload default_settings (\<lambda>p. p) 7 demo_ids demo_user ''a.pdf'' ''bytes''
     [Published \<lparr>payload_document_id = 7, payload_step = OCR\<rparr>] demo_world"
  unfolding uploaded_world_def by (subst upload_document_up) (simp_all add: upload_name_def)

lemma uploaded_on_track: "on_track default_settings 7 start_statuses uploaded_world"
  unfolding uploaded_world_eq by (rule after_upload_on_track) (simp_all add: demo_ok demo_guard)

lemma uploaded_world_simps [simp]:
  "faults uploaded_world = []" "clock uploaded_world = 0"
  "trace uploaded_world = [Committed (committed uploaded_world) [], Published \<lparr>payload_document_id = 7, payload_step = OCR\<rparr>]"
  by (simp_all add: uploaded_world_eq after_upload_def Let_def)

lemma demo_enabled: "enabled demo_env demo_upload demo_world {#}"
  using demo_fresh by (simp add: demo_upload_def) (simp add: demo_db_def)

lemma demo_step: "smooth_step demo_env (demo_world, {#}) (uploaded_world, {# \<lparr>payload_document_id = 7, payload_step = OCR\<rparr> #})"
proof -
  have "smooth_step demo_env (demo_world, {#}) (uploaded_world, {#} - acknowledged demo_env demo_upload demo_world +
      mset (sent_of (new_effects demo_world uploaded_world)))"
    by (rule smooth_step.complete [where now = 0 and fs = "[]" and op = demo_upload])
      (simp_all add: demo_enabled, simp_all add: demo_world_def demo_upload_def uploaded_world_def)
  then show ?thesis by (simp add: demo_upload_def new_effects_def)
qed

lemma demo_run: "(system_step demo_env)\<^sup>*\<^sup>* (demo_world, {#}) (uploaded_world, {# \<lparr>payload_document_id = 7, payload_step = OCR\<rparr> #})"
  using smooth_step_system_step [OF demo_step] by simp

lemma demo_steps:
  "find_step 7 s (committed uploaded_world) = Some (new_step (demo_ids s) 7 s (start_statuses s) 0)"
  using find_step_add_document [OF demo_schema demo_fresh]
  by (simp add: uploaded_world_eq after_upload_def Let_def uploaded_def start_statuses_def)

lemma no_jobs: "job_unused j (committed uploaded_world)"
proof -
  have "st_external_job_id r = None" if "r \<in> set (pipeline_steps (committed uploaded_world))" for r
    using that by (auto simp: uploaded_world_eq after_upload_def Let_def uploaded_def add_document_def demo_db_def
        new_steps_def new_step_def)
  then show ?thesis by (auto simp: job_unused_def)
qed

subsection \<open>The four deliveries\<close>

lemma waiting_on_track:
  "on_track default_settings 7 (\<lambda>s. if s = EXTERNAL_CALL then AWAITING_CALLBACK else DONE) waiting_world"
  and waiting_refines: "refines default_settings {7} uploaded_world waiting_world"
  and waiting_job: "\<exists>r. find_step 7 EXTERNAL_CALL (committed waiting_world) = Some r \<and> st_external_job_id r = Some demo_job"
  using four_deliveries_track [where parse_body = demo_parse_body and body = demo_body and dr = "\<lambda>_. good_draws" and a = METADATA and b = CHUNKING,
      OF uploaded_on_track] no_jobs
  by (simp_all add: waiting_world_def demo_job_def)

lemma demo_row:
  obtains r where "find_step 7 EXTERNAL_CALL (committed waiting_world) = Some r" "st_status r = AWAITING_CALLBACK"
    "st_external_job_id r = Some demo_job"
proof -
  from waiting_job obtain r where r: "find_step 7 EXTERNAL_CALL (committed waiting_world) = Some r"
    "st_external_job_id r = Some demo_job" by blast
  moreover have "status_of 7 EXTERNAL_CALL (committed waiting_world) = Some AWAITING_CALLBACK"
    using waiting_on_track by (simp add: on_track_def)
  ultimately show ?thesis by (intro that) (simp_all add: status_of_def)
qed

subsection \<open>The callback\<close>

lemma demo_verified: "is_ascii (compute_signature default_settings demo_hmac raw) \<Longrightarrow> compute_signature default_settings demo_hmac raw \<noteq> [] \<Longrightarrow>
    verify_signature default_settings demo_hmac raw (demo_signature raw) = Inr True"
  by (simp add: verify_signature_def demo_signature_def compare_digest_def)

end
