(* ===== verification/Retries.thy ===== *)
theory Retries
  imports Uploads
begin

section \<open>Retries\<close>

text \<open>
  A step whose every run fails: each failing delivery is answered with a requeue and adds one
  attempt, until the last one that \<open>step_max_attempts\<close> allows ends the step in ERROR and the
  document in FAILED. \<open>redeliver\<close> delivers the same body once per element of the list of draws.
\<close>

fun redeliver :: "settings \<Rightarrow> (string \<Rightarrow> payload option) \<Rightarrow> string \<Rightarrow> draws list \<Rightarrow> world \<Rightarrow> broker_reply list \<times> world" where
  "redeliver cfg parse_body body [] w = ([], w)"
| "redeliver cfg parse_body body (dr # drs) w =
     (case callback cfg parse_body dr body w of (reply, w1) \<Rightarrow>
      case redeliver cfg parse_body body drs w1 of (replies, w2) \<Rightarrow> (reply # replies, w2))"

lemma in_sync_failed:
  assumes "schema_ok db" "in_sync d db" "status_of d s db = Some ERROR" "find_document d db = Some q"
  shows "doc_status q = FAILED"
  using assms(2-4) by (auto simp: in_sync_def derive_status [OF assms(1)])

lemma delivery_fails:
  assumes track: "on_track cfg d st w" and att: "1 \<le> step_max_attempts cfg"
    and s: "st s \<in> {QUEUED, RUNNING}" and bad: "step_fails dr"
    and body: "parse_body body = Some \<lparr>payload_document_id = d, payload_step = s\<rparr>"
    and fresh: "fresh_job dr s (committed w)"
    and r: "find_step d s (committed w) = Some r"
  defines "w' \<equiv> snd (callback cfg parse_body dr body w)"
    and "final_try \<equiv> st_attempts r + 1 \<ge> step_max_attempts cfg"
  shows "fst (callback cfg parse_body dr body w) = (if final_try then BasicAck else BasicNackRequeue)"
    and "\<exists>r'. find_step d s (committed w') = Some r' \<and> st_attempts r' = st_attempts r + 1 \<and>
      st_status r' = (if final_try then ERROR else QUEUED)"
    and "\<not> final_try \<Longrightarrow> on_track cfg d (st(s := QUEUED)) w'"
    and "final_try \<Longrightarrow> \<exists>q. find_document d (committed w') = Some q \<and> doc_status q = FAILED"
    and "refines cfg {d} w w'"
    and "status_of e t (committed w') = (if e = d \<and> t = s then Some (if final_try then ERROR else QUEUED)
      else status_of e t (committed w))"
proof -
  let ?p = "\<lparr>payload_document_id = d, payload_step = s\<rparr>"
  have ok: "clean w" "pipeline_ok cfg (committed w)" "faults w = []" "in_sync d (committed w)"
    using track by (simp_all add: on_track_def)
  from on_track_runnable [OF track s] r runnable_row_iff [OF ok(1,2), of s d]
  have run: "runnable_row s d w = Some r" and msg: "deliverable ?p (committed w)" by auto
  have fresh': "fresh_job dr (payload_step ?p) (committed w)" using fresh by simp
  have run': "runnable_row (payload_step ?p) (payload_document_id ?p) w = Some r" using run by simp
  note ref = refines_handle [OF ok(1,2) att msg fresh']
  note bad' = handle_failure [OF ok(1,2) att msg run' bad]
  note cb = callback_handle [where parse_body = parse_body, OF ok(1,2) att body msg fresh' bad'(1)]
  have w': "w' = snd (handle cfg dr s ?p w)" by (simp add: w'_def cb)
  show "fst (callback cfg parse_body dr body w) = (if final_try then BasicAck else BasicNackRequeue)"
    by (simp add: cb final_try_def)
  show row: "\<exists>r'. find_step d s (committed w') = Some r' \<and> st_attempts r' = st_attempts r + 1 \<and>
      st_status r' = (if final_try then ERROR else QUEUED)"
    using bad'(2) by (simp add: w' final_try_def)
  show ref': "refines cfg {d} w w'" using ref by (simp add: w')
  have ok': "clean w'" "pipeline_ok cfg (committed w')"
    using refines_clean [OF ref'] refines_ok [OF ref' ok(2) att] by simp_all
  show status: "status_of e t (committed w') = (if e = d \<and> t = s then Some (if final_try then ERROR else QUEUED)
      else status_of e t (committed w))" for e t
    using bad'(3) [of e t] row by (auto simp: w' status_of_def)
  have sync: "in_sync d (committed w')"
    using handle_in_sync [OF ok(1,2) att msg fresh'] ok(4) by (simp add: w')
  have "kept_document d (committed w) (committed w')" by (rule refines_document [OF ref'])
  moreover have "find_document d (committed w) \<noteq> None" using track by (simp add: on_track_def)
  ultimately obtain q where q: "find_document d (committed w') = Some q" by (auto simp: kept_document_def)
  show "on_track cfg d (st(s := QUEUED)) w'" if "\<not> final_try"
    using that ok' bad'(5) ok(3) sync q track status by (auto simp: on_track_def w')
  show "\<exists>q. find_document d (committed w') = Some q \<and> doc_status q = FAILED" if "final_try"
    using that q status [of d s] in_sync_failed [OF pipeline_okD(1) [OF ok'(2)] sync _ q] by auto
qed

lemma redeliver_exhausts:
  assumes "on_track cfg d st w" and att: "1 \<le> step_max_attempts cfg" and "st s \<in> {QUEUED, RUNNING}"
    and body: "parse_body body = Some \<lparr>payload_document_id = d, payload_step = s\<rparr>"
    and "find_step d s (committed w) = Some r"
    and "\<forall>dr \<in> set drs. step_fails dr" "\<forall>dr \<in> set drs. fresh_job dr s (committed w)"
    and "int (length drs) = step_max_attempts cfg - st_attempts r"
  shows "fst (redeliver cfg parse_body body drs w) = replicate (length drs - 1) BasicNackRequeue @ [BasicAck] \<and>
    (\<exists>r'. find_step d s (committed (snd (redeliver cfg parse_body body drs w))) = Some r' \<and>
      st_status r' = ERROR \<and> st_attempts r' = step_max_attempts cfg) \<and>
    (\<exists>q. find_document d (committed (snd (redeliver cfg parse_body body drs w))) = Some q \<and> doc_status q = FAILED)"
  using assms(1,3,5-8)
proof (induction drs arbitrary: w st r)
  case Nil
  have "status_of d s (committed w) = Some (st s)" "st s \<noteq> ERROR" "pipeline_ok cfg (committed w)"
    using Nil.prems(1) by (simp_all add: on_track_def)
  with Nil.prems(3) find_stepD [OF Nil.prems(3)]
  have "r \<in> set (pipeline_steps (committed w))" "pipeline_ok cfg (committed w)" "st_status r \<noteq> ERROR"
    by (simp_all add: status_of_def)
  with pipeline_okD(5) [of cfg "committed w" r] Nil.prems(6) show ?case by (simp add: step_row_ok_def)
next
  case (Cons dr drs)
  have bad: "step_fails dr" and fresh: "fresh_job dr s (committed w)" using Cons.prems(4,5) by simp_all
  note fails = delivery_fails [where parse_body = parse_body, OF Cons.prems(1) att Cons.prems(2) bad body fresh Cons.prems(3)]
  obtain reply w1 where cb: "callback cfg parse_body dr body w = (reply, w1)" by force
  from fails(2) cb obtain r1 where r1: "find_step d s (committed w1) = Some r1" "st_attempts r1 = st_attempts r + 1"
    "st_status r1 = (if st_attempts r + 1 \<ge> step_max_attempts cfg then ERROR else QUEUED)" by auto
  have final_iff: "st_attempts r + 1 \<ge> step_max_attempts cfg \<longleftrightarrow> drs = []"
  proof -
    have "1 + int (length drs) = step_max_attempts cfg - st_attempts r" using Cons.prems(6) by simp
    then show ?thesis by (cases drs) auto
  qed
  show ?case
  proof (cases "drs = []")
    case True
    with fails(1,4) final_iff r1 cb Cons.prems(6) show ?thesis by auto
  next
    case False
    then have nf: "\<not> st_attempts r + 1 \<ge> step_max_attempts cfg" using final_iff by simp
    have track1: "on_track cfg d (st(s := QUEUED)) w1" using fails(3) nf cb by simp
    have ref: "refines cfg {d} w w1" using fails(5) cb by simp
    have fresh1: "fresh_job dr' s (committed w1)" if "dr' \<in> set drs" for dr'
    proof (cases "s = EXTERNAL_CALL")
      case True
      have "job_unused (''j_'' @ take 16 (uuid_hex (job_uuid dr'))) (committed w1)"
      proof (rule job_unused_kept)
        show "pipeline_ok cfg (committed w1)" using track1 by (simp add: on_track_def)
        show "same_document e (committed w) (committed w1)" if "e \<noteq> d" for e using refines_same [OF ref] that by simp
        show "status_of d EXTERNAL_CALL (committed w1) \<in> {Some PENDING, Some QUEUED}"
          using track1 True by (simp add: on_track_def)
        show "job_unused (''j_'' @ take 16 (uuid_hex (job_uuid dr'))) (committed w)"
          using Cons.prems(5) that True by (simp add: fresh_job_def)
      qed
      then show ?thesis by (simp add: fresh_job_def)
    qed (simp add: fresh_job_def)
    have "int (length drs) = step_max_attempts cfg - st_attempts r1" using Cons.prems(6) r1(2) by simp
    from Cons.IH [OF track1 _ r1(1) _ _ this] fresh1 Cons.prems(4) fails(1) nf cb False
    show ?thesis by (cases drs) (simp_all add: case_prod_beta)
  qed
qed

end
