(* ===== verification/Stranding.thy ===== *)
theory Stranding
  imports Uploads
begin

section \<open>A crash that loses the continuation\<close>

text \<open>
  The handler commits DONE before it triggers the successors. A worker that dies between the two
  leaves a document whose first step is done and whose successors nobody will trigger: the
  redelivered message is acknowledged at once, because its step is DONE, and the reaper does
  not look at PENDING steps.
\<close>

lemma mark_running_trace:
  "mark_running s d row w = (row1, w1) \<Longrightarrow> \<exists>ns. trace w1 = trace w @ [Committed (committed w1) ns]"
  by (auto simp: mark_running_def Let_def)

lemma save_output_trace:
  "save_output s d row out w = (row1, w1) \<Longrightarrow> \<exists>ns. trace w1 = trace w @ [Committed (committed w1) ns]"
  by (auto simp: save_output_defs Let_def split: if_splits)

text \<open>The first two transactions of a successful delivery.\<close>

lemma handle_two_commits:
  assumes clean: "clean w" and ok: "pipeline_ok cfg (committed w)" and att: "1 \<le> step_max_attempts cfg"
    and msg: "deliverable p (committed w)" and fresh: "fresh_job dr (payload_step p) (committed w)"
    and run: "runnable_row (payload_step p) (payload_document_id p) w = Some r" and good: "\<not> step_fails dr"
  shows "\<exists>db1 ns1 db2 ns2 es. trace (snd (handle cfg dr (payload_step p) p w)) =
      trace w @ Committed db1 ns1 # Committed db2 ns2 # es \<and>
    (\<forall>e t. status_of e t db2 = (if e = payload_document_id p \<and> t = payload_step p
      then Some (if t = EXTERNAL_CALL then AWAITING_CALLBACK else DONE) else status_of e t (committed w)))"
proof -
  let ?d = "payload_document_id p" and ?s = "payload_step p"
  note row = runnable_rowD [OF clean ok run]
  obtain row1 w1 r1 where mr: "mark_running ?s ?d r w = (row1, w1)"
    and mv: "new_version (committed w) r r1" "committed w1 = put_step r1 (committed w)"
    and r1: "clean w1" "pipeline_ok cfg (committed w1)" "r1 \<in> set (pipeline_steps (committed w1))" "loaded_from r1 row1"
    "st_document_id r1 = ?d" "st_name r1 = ?s" "st_status r1 = RUNNING" "fresh_job dr (payload_step p) (committed w1)"
    by (rule handle_started [OF clean ok att msg fresh run])
  have "\<forall>q \<in> parents PIPELINE ?s. status_of ?d q (committed w) = Some DONE"
    using pipeline_okD(6) [OF ok row(3)] deliverableD [OF msg row(1)] row(4,5) by (simp add: parents_done_def)
  with run_step_fails_iff [OF clean ok _ this, of dr row1] good row(1) obtain out where
    out: "run_step dr ?s (AList.update ?s row1 (load_steps ?d w)) = Inr out"
    by (cases "run_step dr ?s (AList.update ?s row1 (load_steps ?d w))") auto
  obtain row2 r2 w2 where so: "save_output ?s ?d row1 out w1 = (row2, w2)"
    and mv2: "new_version (committed w1) r1 r2" "loaded_from r2 row2" "committed w2 = put_step r2 (committed w1)"
    and r2: "clean w2" "pipeline_ok cfg (committed w2)" "r2 \<in> set (pipeline_steps (committed w2))" "st_document_id r2 = ?d"
      "st_name r2 = ?s" "st_status r2 = (if ?s = EXTERNAL_CALL then AWAITING_CALLBACK else DONE)"
    by (rule handle_saved [OF r1(1,2) att r1(3-7) out r1(8)])
  have status: "status_of e t (committed w2) = (if e = ?d \<and> t = ?s
      then Some (if t = EXTERNAL_CALL then AWAITING_CALLBACK else DONE) else status_of e t (committed w))" for e t
    using status_after_move [OF r1(2) mv2(1) r2(4,5), of e t] status_after_move [OF ok mv(1) r1(5,6), of e t]
      r2(6) mv(2) mv2(3) by auto
  obtain ns1 ns2 where tr: "trace w1 = trace w @ [Committed (committed w1) ns1]"
    "trace w2 = trace w1 @ [Committed (committed w2) ns2]"
    using mark_running_trace [OF mr] save_output_trace [OF so] by blast
  note ref = refines_trigger_successors [OF r2(1,2) att r2(3,4)]
  note ref2 = refines_trans [OF ref recompute_document_status_db(1) [OF refines_clean [OF ref] refines_ok [OF ref r2(2) att], of ?d]]
  obtain es1 where es1: "trace (snd (trigger_successors PIPELINE ?d w2)) = trace w2 @ es1" by (rule refinesE [OF ref]) blast
  obtain es2 where es2: "trace (snd (recompute_document_status ?d (snd (trigger_successors PIPELINE ?d w2)))) = trace w2 @ es2"
    by (rule refinesE [OF ref2]) blast
  have "\<exists>es. trace (snd (handle cfg dr ?s p w)) = trace w2 @ es"
    using run mr out so es1 es2 by (auto simp: handle_def Let_def case_prod_beta split: sum.split)
  then show ?thesis using tr status by auto
qed

text \<open>The crash itself, and what it means for ever after.\<close>

lemma crash_strands_document:
  assumes inv: "system_ok env (w, M)" and att: "1 \<le> step_max_attempts (env_settings env)"
    and track: "on_track (env_settings env) d start_statuses w"
    and body: "env_parse_body env body = Some p" and p: "p = \<lparr>payload_document_id = d, payload_step = OCR\<rparr>" "p \<in># M"
    and good: "\<not> step_fails dr"
  shows "\<exists>v. system_step env (w, M) (v, M) \<and> stranded d (committed v)"
proof -
  have "start_statuses OCR \<in> {QUEUED, RUNNING}" by (simp add: start_statuses_def)
  note run = on_track_runnable [OF track this]
  have ok: "clean w" "pipeline_ok (env_settings env) (committed w)" using inv by (simp_all add: system_ok_def)
  have fresh: "fresh_job dr (payload_step p) (committed w)" by (simp add: p fresh_job_def)
  from run(1) obtain r where r: "runnable_row (payload_step p) (payload_document_id p) w = Some r" by (auto simp: p)
  note msg = run(2) [folded p(1)]
  from handle_two_commits [OF ok att msg fresh r good] obtain db1 ns1 db2 ns2 es where
    tr: "trace (snd (handle (env_settings env) dr (payload_step p) p w)) = trace w @ Committed db1 ns1 # Committed db2 ns2 # es"
    and st: "\<forall>e t. status_of e t db2 = (if e = d \<and> t = OCR
      then Some (if t = EXTERNAL_CALL then AWAITING_CALLBACK else DONE) else status_of e t (committed w))"
    by (auto simp: p)
  note ref = refines_handle [OF ok att msg fresh]
  note scoped = handle_in_session_refines [OF ok(1) ref]
  have "session_scope (handle_in_session (env_settings env) dr p) w = handle_in_session (env_settings env) dr p w"
    by (rule session_scope_refines [where body = "handle_in_session (env_settings env) dr p", OF ok(1)])
      (simp only: scoped, rule ref)
  then have runop: "run_operation env (Deliver dr body) w = snd (handle (env_settings env) dr (payload_step p) p w)"
    using scoped body by (simp add: callback_def case_prod_beta)
  let ?es = "take 2 (new_effects w (run_operation env (Deliver dr body) w))"
  have es: "?es = [Committed db1 ns1, Committed db2 ns2]" unfolding runop new_effects_def tr by simp
  have w: "w = w\<lparr>clock := clock w, faults := faults w\<rparr>" by simp
  have en: "enabled env (Deliver dr body) w M" using body p fresh by simp
  let ?l = "[Committed db1 ns1, Committed db2 ns2]" and ?f = "disk (run_operation env (Deliver dr body) w)"
  have "system_step env (w, M) (crashed w ?l ?f, M + mset (sent_of ?l))"
    by (rule system_step.crash [OF w en es [symmetric]]) simp
  moreover have "stranded d (committed (crashed w ?l ?f))"
    using st track by (simp add: crashed_def stranded_def on_track_def start_statuses_def)
  ultimately show ?thesis by auto
qed

lemma stranded_for_ever:
  assumes "(system_step env)\<^sup>*\<^sup>* s s'" "1 \<le> step_max_attempts (env_settings env)" "system_ok env s" "stranded d (committed (fst s))"
  shows "stranded d (committed (fst s'))"
  using assms(1)
proof (induction rule: rtranclp_induct)
  case (step t u)
  have "system_ok env t" by (rule system_steps_ok [OF step.hyps(1) assms(2,3)])
  with system_step_stranded [of env "fst t" "snd t" "fst u" "snd u" d] step assms(2) show ?case by simp
qed (rule assms(4))

end
