(* ===== verification/Journeys.thy ===== *)
theory Journeys
  imports Demo Retries Stranding
begin

section \<open>Reachable states, and the whole way of a document\<close>

text \<open>
  What the properties of the root theory are stated over: the states that the system reaches
  from an empty document table, and the composition of the five operations of a document
  that goes well.
\<close>

definition reachable :: "deployment \<Rightarrow> world \<times> payload multiset \<Rightarrow> bool" where
  "reachable env s \<longleftrightarrow> (\<exists>s0. initial s0 \<and> (system_step env)\<^sup>*\<^sup>* s0 s)"

lemma reachable_system_ok:
  "reachable env s \<Longrightarrow> 1 \<le> step_max_attempts (env_settings env) \<Longrightarrow> system_ok env s"
  unfolding reachable_def using initial_ok system_steps_ok by blast

lemma reachable_steps: "reachable env s \<Longrightarrow> (system_step env)\<^sup>*\<^sup>* s s' \<Longrightarrow> reachable env s'"
  unfolding reachable_def by (meson rtranclp_trans)

text \<open>The trace of a reachable state is a path from a database without documents.\<close>

lemma reachable_path:
  assumes "reachable env s" "1 \<le> step_max_attempts (env_settings env)"
  obtains db where "pipeline_ok (env_settings env) db" "documents db = []" "honest db"
    and "effect_path (env_settings env) db (trace (fst s))" "final_db db (trace (fst s)) = committed (fst s)"
proof -
  from assms(1) obtain s0 where s0: "initial s0" "(system_step env)\<^sup>*\<^sup>* s0 s" by (auto simp: reachable_def)
  have init: "trace (fst s0) = []" "documents (committed (fst s0)) = []"
    using s0(1) by (auto simp: initial_def)
  have "honest (committed (fst s0))" using init by (simp add: honest_def)
  moreover have "pipeline_ok (env_settings env) (committed (fst s0))"
    using initial_ok [OF s0(1), of env] by (auto simp: system_ok_def)
  moreover from system_steps_path [OF s0(2) assms(2) initial_ok [OF s0(1)]] obtain es where
    "trace (fst s) = trace (fst s0) @ es" "effect_path (env_settings env) (committed (fst s0)) es"
    "final_db (committed (fst s0)) es = committed (fst s)" by blast
  ultimately show ?thesis using init by (intro that [of "committed (fst s0)"]) simp_all
qed

lemma reachable_honest:
  assumes "reachable env s" "1 \<le> step_max_attempts (env_settings env)"
  shows "honest (committed (fst s))"
  by (rule reachable_path [OF assms]) (use effect_path_honest assms(2) in metis)

lemma refines_honest:
  assumes "refines cfg D w w'" "pipeline_ok cfg (committed w)" "1 \<le> step_max_attempts cfg" "honest (committed w)"
  shows "honest (committed w')"
  by (rule refinesE [OF assms(1)]) (use effect_path_honest assms(2-4) in metis)

subsection \<open>From the upload to the answer\<close>

lemma job_unused_uploaded:
  "job_unused j db \<Longrightarrow> job_unused j (uploaded cfg abspath d ids user name now db)"
  by (auto simp: job_unused_def uploaded_def add_document_def new_steps_def new_step_def)

lemma refines_document_owner:
  assumes "refines cfg D w w'" "find_document d (committed w) = Some q"
  obtains q' where "find_document d (committed w') = Some q'" "doc_org_id q' = doc_org_id q" "doc_filename q' = doc_filename q"
  using refines_document [OF assms(1), of d] assms(2) by (auto simp: kept_document_def document_identity_def)

lemma happy_path:
  fixes new_id :: uuid and abspath :: "string \<Rightarrow> string" and filename :: "string option" and data :: string
  assumes clean: "clean w" and ok: "pipeline_ok cfg (committed w)" and hon: "honest (committed w)"
    and guard: "upload_guard cfg d ids user w" and up: "faults w = []"
    and good: "\<And>s. \<not> step_fails (dr s)" and body: "\<And>s. parse_body (body s) = Some \<lparr>payload_document_id = d, payload_step = s\<rparr>"
    and fresh: "job_unused (''j_'' @ take 16 (uuid_hex (job_uuid (dr EXTERNAL_CALL)))) (committed w)"
    and order: "(a, b) \<in> {(METADATA, CHUNKING), (CHUNKING, METADATA)}"
    and sig: "verify_signature cfg hmac_sha256 raw signature = Inr True"
    and answer: "model_validate_json parse_json parse_datetime raw = Some p"
    and job: "wp_job_id p = ''j_'' @ take 16 (uuid_hex (job_uuid (dr EXTERNAL_CALL)))"
  defines "w1 \<equiv> snd (upload_document cfg abspath d ids user filename data w)"
  defines "w2 \<equiv> four_deliveries cfg parse_body dr body [OCR, a, b, EXTERNAL_CALL] w1"
  defines "out \<equiv> partner_webhook cfg hmac_sha256 parse_json parse_datetime new_id raw signature w2"
  shows "fst out = Answer \<lparr>wr_status = PROCESSED,
      wr_document_status = Some (if wp_status p = COMPLETED then READY else FAILED)\<rparr>"
    and "\<exists>q. find_document d (committed (snd out)) = Some q \<and> doc_org_id q = user_org_id user \<and>
      doc_filename q = upload_name filename \<and> doc_status q = (if wp_status p = COMPLETED then READY else FAILED)"
    and "clean (snd out)" "pipeline_ok cfg (committed (snd out))" "honest (committed (snd out))"
    and "wp_status p = COMPLETED \<Longrightarrow> \<exists>r'. find_step d EXTERNAL_CALL (committed (snd out)) = Some r' \<and>
      st_result r' = Some (JObject (wp_result p)) \<and> st_external_job_id r' = Some (wp_job_id p)"
proof -
  have att: "1 \<le> step_max_attempts cfg" and fr: "fresh_ids d ids (committed w)" using guard by (simp_all add: upload_guard_def)
  have w1: "w1 = after_upload cfg abspath d ids user (upload_name filename) data
      [Published \<lparr>payload_document_id = d, payload_step = OCR\<rparr>] w"
    unfolding w1_def using up by (subst upload_document_up [OF clean]) simp_all
  have track1: "on_track cfg d start_statuses w1"
    unfolding w1 by (rule after_upload_on_track [OF clean ok guard]) (simp add: up)
  have fresh1: "job_unused (''j_'' @ take 16 (uuid_hex (job_uuid (dr EXTERNAL_CALL)))) (committed w1)"
    unfolding w1 using job_unused_uploaded [OF fresh] by (simp add: after_upload_def Let_def)
  note four = four_deliveries_track [where parse_body = parse_body and body = body and dr = dr, OF track1 att good body fresh1 order, folded w2_def]
  have ref1: "refines cfg {d} w w1" unfolding w1_def by (rule upload_document_db(1) [OF clean ok guard])
  note ref2 = refines_trans [OF ref1 four(2)]
  have ok2: "clean w2" "pipeline_ok cfg (committed w2)"
    using refines_clean [OF ref2] refines_ok [OF ref2 ok att] by simp_all
  from four(3) obtain r where r: "find_step d EXTERNAL_CALL (committed w2) = Some r" "st_external_job_id r = Some (wp_job_id p)"
    using job by auto
  have st2: "status_of d s (committed w2) = Some (if s = EXTERNAL_CALL then AWAITING_CALLBACK else DONE)" for s
    using four(1) by (simp add: on_track_def)
  have "st_status r = AWAITING_CALLBACK" using st2 [of EXTERNAL_CALL] r(1) by (simp add: status_of_def)
  note hook = webhook_processed [where parse_json = parse_json and parse_datetime = parse_datetime and new_id = new_id,
      OF ok2 att sig answer r(1) this r(2), folded out_def]
  have ref3: "refines cfg (webhook_documents parse_json parse_datetime raw (committed w2)) w2 (snd out)"
    unfolding out_def by (rule refines_partner_webhook [OF ok2 att])
  show ok3: "clean (snd out)" "pipeline_ok cfg (committed (snd out))"
    using refines_clean [OF ref3] refines_ok [OF ref3 ok2(2) att] by simp_all
  show "honest (committed (snd out))"
    using refines_honest [OF ref3 ok2(2) att refines_honest [OF ref2 ok att hon]] .
  have stat: "status_of d s (committed (snd out)) = Some (if s = EXTERNAL_CALL \<and> wp_status p \<noteq> COMPLETED then ERROR else DONE)" for s
    using hook(2) [of d s] st2 [of s] by auto
  have der: "derive_document_status (document_statuses d (committed (snd out))) = (if wp_status p = COMPLETED then READY else FAILED)"
    unfolding derive_status [OF pipeline_okD(1) [OF ok3(2)]] stat by simp
  show "fst out = Answer \<lparr>wr_status = PROCESSED,
      wr_document_status = Some (if wp_status p = COMPLETED then READY else FAILED)\<rparr>"
    using hook(1) by (simp add: der)
  have "\<exists>q. find_document d (committed w1) = Some q \<and> doc_org_id q = user_org_id user \<and> doc_filename q = upload_name filename"
    using find_document_uploaded [OF fr] by (simp add: w1 after_upload_def Let_def new_document_def)
  then obtain q1 where q1: "find_document d (committed w1) = Some q1" "doc_org_id q1 = user_org_id user" "doc_filename q1 = upload_name filename" by blast
  obtain q2 where q2: "find_document d (committed w2) = Some q2" "doc_org_id q2 = doc_org_id q1" "doc_filename q2 = doc_filename q1"
    by (rule refines_document_owner [OF four(2) q1(1)])
  obtain q where q: "find_document d (committed (snd out)) = Some q" "doc_org_id q = doc_org_id q2" "doc_filename q = doc_filename q2"
    by (rule refines_document_owner [OF ref3 q2(1)])
  show "\<exists>q. find_document d (committed (snd out)) = Some q \<and> doc_org_id q = user_org_id user \<and>
      doc_filename q = upload_name filename \<and> doc_status q = (if wp_status p = COMPLETED then READY else FAILED)"
    using q q1 q2 hook(3) by (simp add: in_sync_def der)
  show "\<exists>r'. find_step d EXTERNAL_CALL (committed (snd out)) = Some r' \<and>
      st_result r' = Some (JObject (wp_result p)) \<and> st_external_job_id r' = Some (wp_job_id p)" if "wp_status p = COMPLETED"
    by (rule hook(4) [OF that])
qed

subsection \<open>A run of the system that goes well\<close>

text \<open>Every QUEUED step of the document has its message in the broker.\<close>

definition supplied :: "uuid \<Rightarrow> (step_name \<Rightarrow> step_status) \<Rightarrow> payload multiset \<Rightarrow> bool" where
  "supplied d st M \<longleftrightarrow> (\<forall>t. st t = QUEUED \<longrightarrow> \<lparr>payload_document_id = d, payload_step = t\<rparr> \<in># M)"

lemma pending_never_sent:
  assumes "reachable env (w, M)" "1 \<le> step_max_attempts (env_settings env)" "status_of d t (committed w) = Some PENDING"
  shows "\<lparr>payload_document_id = d, payload_step = t\<rparr> \<notin> set (sent_of (trace w))"
proof
  assume sent: "\<lparr>payload_document_id = d, payload_step = t\<rparr> \<in> set (sent_of (trace w))"
  obtain db where db: "pipeline_ok (env_settings env) db" "effect_path (env_settings env) db (trace w)"
    "final_db db (trace w) = committed w"
    by (rule reachable_path [OF assms(1,2)]) simp
  from effect_path_sent [OF db(2,1) assms(2) sent] db(3) assms(3) show False
    by (auto simp: deliverable_def status_of_def)
qed

lemma same_world: "w = w\<lparr>clock := clock w, faults := faults w\<rparr>"
  by simp

lemma delivery_reachable:
  assumes reach: "reachable env (w, M)" and att: "1 \<le> step_max_attempts (env_settings env)"
    and track: "on_track (env_settings env) d st w" and sup: "supplied d st M"
    and s: "st s = QUEUED" and good: "\<not> step_fails dr"
    and body: "env_parse_body env body = Some \<lparr>payload_document_id = d, payload_step = s\<rparr>"
    and fresh: "fresh_job dr s (committed w)"
  shows "\<exists>M'. reachable env (snd (callback (env_settings env) (env_parse_body env) dr body w), M') \<and>
    supplied d (advance s st) M'"
proof -
  let ?m = "\<lambda>t. \<lparr>payload_document_id = d, payload_step = t\<rparr>"
  let ?cb = "callback (env_settings env) (env_parse_body env) dr body w"
  let ?w' = "snd ?cb"
  have "st s \<in> {QUEUED, RUNNING}" using s by simp
  note del = delivery_succeeds [where parse_body = "env_parse_body env", OF track att this good body fresh]
  have mem: "?m s \<in># M" using sup s by (simp add: supplied_def)
  have en: "enabled env (Deliver dr body) w M" using mem body fresh by simp
  have ack: "acknowledged env (Deliver dr body) w = {# ?m s #}" using body del(1) by simp
  obtain es where es: "trace ?w' = trace w @ es" by (rule refinesE [OF del(3)]) blast
  let ?M = "M - {# ?m s #} + mset (sent_of es)"
  have "system_step env (w, M) (?w', ?M)"
    using system_step.complete [OF same_world en, of ?w'] ack es by (simp add: new_effects_def)
  then have "reachable env (?w', ?M)" using reachable_steps [OF reach] by blast
  moreover have "?m t \<in># ?M" if t: "advance s st t = QUEUED" for t
  proof (cases "st t = QUEUED")
    case True
    have "t \<noteq> s" using t by (cases "s = EXTERNAL_CALL") (auto simp: advance_def Let_def)
    then have "?m t \<noteq> ?m s" by simp
    with True sup show ?thesis by (simp add: supplied_def in_diff_count)
  next
    case False
    with t have pend: "st t = PENDING" by (auto simp: advance_def Let_def split: if_splits)
    then have "status_of d t (committed w) = Some PENDING" using track by (simp add: on_track_def)
    from pending_never_sent [OF reach att this] del(5) [OF pend t] es show ?thesis by simp
  qed
  ultimately show ?thesis unfolding supplied_def by blast
qed

text \<open>The deliveries of a supplied document are steps of the system.\<close>

abbreviation three_deliveries ::
  "settings \<Rightarrow> (string \<Rightarrow> payload option) \<Rightarrow> (step_name \<Rightarrow> draws) \<Rightarrow> (step_name \<Rightarrow> string) \<Rightarrow> step_name \<Rightarrow> step_name \<Rightarrow> world \<Rightarrow> world" where
  "three_deliveries cfg parse_body dr body a b \<equiv> four_deliveries cfg parse_body dr body [OCR, a, b]"

lemma three_deliveries_reachable:
  assumes reach: "reachable env (w, M)" and att: "1 \<le> step_max_attempts (env_settings env)"
    and track: "on_track (env_settings env) d start_statuses w" and sup: "supplied d start_statuses M"
    and good: "\<And>s. \<not> step_fails (dr s)" and body: "\<And>s. env_parse_body env (body s) = Some \<lparr>payload_document_id = d, payload_step = s\<rparr>"
    and order: "(a, b) \<in> {(METADATA, CHUNKING), (CHUNKING, METADATA)}"
  defines "w' \<equiv> three_deliveries (env_settings env) (env_parse_body env) dr body a b w"
  shows "on_track (env_settings env) d (\<lambda>s. if s = EXTERNAL_CALL then QUEUED else DONE) w'"
    and "\<exists>M'. reachable env (w', M') \<and> supplied d (\<lambda>s. if s = EXTERNAL_CALL then QUEUED else DONE) M'"
    and "job_unused j (committed w) \<Longrightarrow> job_unused j (committed w')"
proof -
  let ?cfg = "env_settings env" and ?pb = "env_parse_body env"
  let ?st1 = "advance OCR start_statuses" let ?st2 = "advance a ?st1" let ?st3 = "advance b ?st2"
  define w1 where "w1 = snd (callback ?cfg ?pb (dr OCR) (body OCR) w)"
  define w2 where "w2 = snd (callback ?cfg ?pb (dr a) (body a) w1)"
  define w3 where "w3 = snd (callback ?cfg ?pb (dr b) (body b) w2)"
  have w': "w' = w3" by (simp add: w'_def four_deliveries_def w1_def w2_def w3_def)
  note st2 = advance_branches(1) [OF order] and st3 = advance_branches(2) [OF order]
  have ab: "a \<noteq> EXTERNAL_CALL" "b \<noteq> EXTERNAL_CALL" "a \<noteq> b" "a \<noteq> OCR" "b \<noteq> OCR" using order by auto
  have q0: "start_statuses OCR = QUEUED" by (simp add: start_statuses_def)
  have f0: "fresh_job (dr OCR) OCR (committed w)" by (simp add: fresh_job_def)
  have q: "x = QUEUED \<Longrightarrow> x \<in> {QUEUED, RUNNING}" for x :: step_status by simp
  note s1 = delivery_succeeds [where parse_body = ?pb and body = "body OCR" and dr = "dr OCR", OF track att q [OF q0] good body f0, folded w1_def]
  obtain M1 where r1: "reachable env (w1, M1)" "supplied d ?st1 M1"
    using delivery_reachable [where dr = "dr OCR" and body = "body OCR", OF reach att track sup q0 good body f0] by (auto simp: w1_def)
  have q1: "?st1 a = QUEUED" using ab order by (auto simp: advance_OCR)
  have f1: "fresh_job (dr a) a (committed w1)" using ab by (simp add: fresh_job_def)
  note s2 = delivery_succeeds [where parse_body = ?pb and body = "body a" and dr = "dr a", OF s1(2) att q [OF q1] good body f1, folded w2_def]
  obtain M2 where r2: "reachable env (w2, M2)" "supplied d ?st2 M2"
    using delivery_reachable [where dr = "dr a" and body = "body a", OF r1(1) att s1(2) r1(2) q1 good body f1] by (auto simp: w2_def)
  have q2: "?st2 b = QUEUED" unfolding st2 using ab by simp
  have f2: "fresh_job (dr b) b (committed w2)" using ab by (simp add: fresh_job_def)
  note s3 = delivery_succeeds [where parse_body = ?pb and body = "body b" and dr = "dr b", OF s2(2) att q [OF q2] good body f2, folded w3_def]
  obtain M3 where r3: "reachable env (w3, M3)" "supplied d ?st3 M3"
    using delivery_reachable [where dr = "dr b" and body = "body b", OF r2(1) att s2(2) r2(2) q2 good body f2] by (auto simp: w3_def)
  show "on_track ?cfg d (\<lambda>s. if s = EXTERNAL_CALL then QUEUED else DONE) w'" using s3(2) unfolding st3 w' .
  show "\<exists>M'. reachable env (w', M') \<and> supplied d (\<lambda>s. if s = EXTERNAL_CALL then QUEUED else DONE) M'"
    using r3 unfolding st3 w' by blast
  show "job_unused j (committed w')" if "job_unused j (committed w)"
    unfolding w'
  proof (rule job_unused_kept [OF _ _ _ that])
    show "pipeline_ok ?cfg (committed w3)" using s3(2) by (simp add: on_track_def)
    show "same_document e (committed w) (committed w3)" if "e \<noteq> d" for e
      using refines_same [OF refines_trans [OF refines_trans [OF s1(3) s2(3)] s3(3)]] that by simp
    show "status_of d EXTERNAL_CALL (committed w3) \<in> {Some PENDING, Some QUEUED}"
      using s3(2) unfolding st3 by (simp add: on_track_def)
  qed
qed

lemma four_deliveries_reachable:
  assumes reach: "reachable env (w, M)" and att: "1 \<le> step_max_attempts (env_settings env)"
    and track: "on_track (env_settings env) d start_statuses w" and sup: "supplied d start_statuses M"
    and good: "\<And>s. \<not> step_fails (dr s)" and body: "\<And>s. env_parse_body env (body s) = Some \<lparr>payload_document_id = d, payload_step = s\<rparr>"
    and fresh: "job_unused (''j_'' @ take 16 (uuid_hex (job_uuid (dr EXTERNAL_CALL)))) (committed w)"
    and order: "(a, b) \<in> {(METADATA, CHUNKING), (CHUNKING, METADATA)}"
  shows "\<exists>M'. reachable env (four_deliveries (env_settings env) (env_parse_body env) dr body [OCR, a, b, EXTERNAL_CALL] w, M')"
proof -
  note three = three_deliveries_reachable [where dr = dr and body = body, OF reach att track sup good body order]
  let ?w = "three_deliveries (env_settings env) (env_parse_body env) dr body a b w"
  obtain M' where r: "reachable env (?w, M')" "supplied d (\<lambda>s. if s = EXTERNAL_CALL then QUEUED else DONE) M'"
    using three(2) by blast
  have "fresh_job (dr EXTERNAL_CALL) EXTERNAL_CALL (committed ?w)" using three(3) [OF fresh] by (simp add: fresh_job_def)
  from delivery_reachable [where dr = "dr EXTERNAL_CALL" and body = "body EXTERNAL_CALL", OF r(1) att three(1) r(2) _ good body this]
  show ?thesis by (auto simp: four_deliveries_def)
qed

lemma partner_call_reachable:
  assumes "reachable env (w, M)"
  shows "\<exists>M'. reachable env (snd (partner_webhook (env_settings env) (env_hmac env) (env_parse_json env)
    (env_parse_datetime env) new_id raw signature w), M')"
  using reachable_steps [OF assms r_into_rtranclp [of "system_step env", OF system_step.complete [OF same_world, of env "PartnerCall new_id raw signature"]]] by auto

subsection \<open>The demo reaches READY\<close>

lemma demo_user_simps [simp]: "user_org_id demo_user = 1" "user_id demo_user = 2"
  by (simp_all add: demo_user_def)

lemma demo_secret: "partner_hmac_secret default_settings = ''dev-partner-secret''"
  by (simp add: default_settings_def settings_init_def secret_get_int_def secret_get_def get_text_def)

lemma demo_signature_ok: "verify_signature default_settings demo_hmac raw (demo_signature raw) = Inr True"
proof -
  have "utf8_encode ''dev-partner-secret'' = ''dev-partner-secret''" by (rule utf8_encode_ascii) code_simp
  then have "length (compute_signature default_settings demo_hmac raw) \<noteq> 0"
    by (simp add: compute_signature_def demo_secret length_hexdigest demo_hmac_def)
  then show ?thesis by (auto simp: verify_signature_iff demo_signature_def)
qed

definition demo_payload :: webhook_payload where
  "demo_payload = \<lparr>wp_job_id = demo_job, wp_status = COMPLETED, wp_result = demo_result, wp_occurred_at = None\<rparr>"

lemma demo_webhook_payload:
  "model_validate_json demo_parse_json (\<lambda>_. None) ''done'' = Some demo_payload"
proof -
  have "webhook_status_of_value ''completed'' = Some COMPLETED" by code_simp
  then show ?thesis
    by (simp add: model_validate_json_def demo_parse_json_def validate_payload_def demo_payload_def demo_result_def)
qed

lemma demo_waiting_reachable: "\<exists>M. reachable demo_env (waiting_world, M)"
proof -
  have "supplied 7 start_statuses {# \<lparr>payload_document_id = 7, payload_step = OCR\<rparr> #}"
    by (simp add: supplied_def start_statuses_def)
  moreover have "reachable demo_env (uploaded_world, {# \<lparr>payload_document_id = 7, payload_step = OCR\<rparr> #})"
    using demo_initial demo_run unfolding reachable_def by blast
  ultimately show ?thesis
    using four_deliveries_reachable [where env = demo_env and dr = "\<lambda>_. good_draws" and body = demo_body and d = 7
        and a = METADATA and b = CHUNKING and w = uploaded_world] uploaded_on_track no_jobs
    by (simp add: waiting_world_def)
qed

lemma demo_ready_reachable: "\<exists>M. reachable demo_env (ready_world, M)"
  using demo_waiting_reachable partner_call_reachable [of demo_env waiting_world _ 99 "''done''" "demo_signature ''done''"]
  by (auto simp: ready_world_def)

lemma ready_document:
  "\<exists>q. find_document 7 (committed ready_world) = Some q \<and> doc_org_id q = 1 \<and> doc_filename q = ''a.pdf'' \<and> doc_status q = READY"
  and ready_ok: "clean ready_world" "pipeline_ok default_settings (committed ready_world)" "honest (committed ready_world)"
proof -
  have hon: "honest (committed demo_world)" by (simp add: honest_def demo_db_def)
  have "job_unused (''j_'' @ take 16 (uuid_hex (job_uuid good_draws))) (committed demo_world)"
    by (simp add: job_unused_def demo_db_def)
  note path = happy_path [where cfg = default_settings and abspath = "\<lambda>p. p" and d = 7 and ids = demo_ids and user = demo_user
      and filename = "Some ''a.pdf''" and data = "''bytes''" and w = demo_world and parse_body = demo_parse_body
      and dr = "\<lambda>_. good_draws" and body = demo_body and a = METADATA and b = CHUNKING and new_id = 99
      and raw = "''done''" and signature = "demo_signature ''done''"
      and parse_json = demo_parse_json and parse_datetime = "\<lambda>_. None" and p = demo_payload,
      OF _ _ hon demo_guard _ _ _ this _ demo_signature_ok demo_webhook_payload]
  show "\<exists>q. find_document 7 (committed ready_world) = Some q \<and> doc_org_id q = 1 \<and> doc_filename q = ''a.pdf'' \<and> doc_status q = READY"
    "clean ready_world" "pipeline_ok default_settings (committed ready_world)" "honest (committed ready_world)"
    using path(2-5) demo_ok
    by (simp_all add: demo_payload_def demo_job_def ready_world_def waiting_world_def uploaded_world_def upload_name_def)
qed

end
