(* ===== verification/Traffic.thy ===== *)
theory Traffic
  imports FanIn Journeys
begin

section \<open>Uploads and partner calls between the workers' turns\<close>

text \<open>
  The API's processes work on the same database while the workers take their turns. Here an
  upload or a partner's call may come between any two turns; it runs as a whole. It touches no row
  that a worker holds: an upload adds rows, and a partner's answer changes the row of a call that
  waits, which no worker touches any more.
\<close>

subsection \<open>What the workers notice\<close>

definition outside :: "database \<Rightarrow> database \<Rightarrow> payload list \<Rightarrow> bool" where
  "outside db db' ms \<longleftrightarrow>
     (\<forall>d s q. find_step d s db = Some q \<longrightarrow> st_status q \<noteq> AWAITING_CALLBACK \<longrightarrow> find_step d s db' = Some q) \<and>
     (\<forall>d s. status_of d s db = Some AWAITING_CALLBACK \<longrightarrow> status_of d s db' \<in> {Some AWAITING_CALLBACK, Some DONE, Some ERROR}) \<and>
     (\<forall>d s st. find_step d s db = None \<longrightarrow> status_of d s db' = Some st \<longrightarrow> find_document d db = None \<and> st = start_statuses s) \<and>
     (\<forall>d q. find_document d db = Some q \<longrightarrow> (\<exists>q'. find_document d db' = Some q' \<and> (doc_status q = FAILED \<longrightarrow> doc_status q' = FAILED))) \<and>
     (\<forall>d. in_sync d db \<longrightarrow> in_sync d db') \<and>
     distinct ms \<and> (\<forall>x \<in> set ms. \<not> deliverable x db \<and> deliverable x db')"

lemma outsideD:
  assumes "outside db db' ms"
  shows "find_step d s db = Some q \<Longrightarrow> st_status q \<noteq> AWAITING_CALLBACK \<Longrightarrow> find_step d s db' = Some q"
    and "status_of d s db = Some AWAITING_CALLBACK \<Longrightarrow> status_of d s db' \<in> {Some AWAITING_CALLBACK, Some DONE, Some ERROR}"
    and "find_step d s db = None \<Longrightarrow> status_of d s db' = Some st \<Longrightarrow> find_document d db = None \<and> st = start_statuses s"
    and "find_document d db = Some q' \<Longrightarrow> \<exists>q''. find_document d db' = Some q'' \<and> (doc_status q' = FAILED \<longrightarrow> doc_status q'' = FAILED)"
    and "in_sync d db \<Longrightarrow> in_sync d db'" and "distinct ms"
    and "x \<in> set ms \<Longrightarrow> \<not> deliverable x db \<and> deliverable x db'"
  using assms unfolding outside_def by blast+

lemma outside_status:
  assumes "outside db db' ms" "status_of d s db = Some st" "st \<noteq> AWAITING_CALLBACK"
  shows "status_of d s db' = Some st"
  using assms(2,3) outsideD(1) [OF assms(1)] by (auto simp: status_of_def)

lemma outside_left_pending:
  assumes "outside db db' ms" "status_of d s db = Some st" "st \<noteq> PENDING"
  shows "\<exists>st'. status_of d s db' = Some st' \<and> st' \<noteq> PENDING"
  using outside_status [OF assms(1,2)] outsideD(2) [OF assms(1)] assms(2,3) by (cases "st = AWAITING_CALLBACK") auto

lemma outside_deliverable: "outside db db' ms \<Longrightarrow> deliverable x db \<Longrightarrow> deliverable x db'"
  using outside_left_pending unfolding deliverable_def status_of_def by fastforce

lemma outside_row: "outside db db' ms \<Longrightarrow> find_step d s db \<noteq> None \<Longrightarrow> find_step d s db' \<noteq> None"
  using outside_status outsideD(2) by (fastforce simp: status_of_def)

lemma outside_triggerable: "outside db db' ms \<Longrightarrow> triggerable db d ts \<Longrightarrow> triggerable db' d ts"
  using outside_status unfolding triggerable_def by blast

lemma outside_derived:
  assumes out: "outside db db' ms" and ok: "pipeline_ok cfg db" "pipeline_ok cfg db'"
    and new: "derive_document_status (document_statuses d db) \<noteq> PROCESSING"
  shows "derive_document_status (document_statuses d db') = derive_document_status (document_statuses d db)"
proof (cases "\<exists>s. status_of d s db = Some ERROR")
  case True
  with outside_status [OF out] have "\<exists>s. status_of d s db' = Some ERROR" by blast
  with True show ?thesis by (simp add: derive_status [OF pipeline_okD(1) [OF ok(1)]] derive_status [OF pipeline_okD(1) [OF ok(2)]])
next
  case False
  with new have ext: "status_of d EXTERNAL_CALL db = Some DONE"
    by (auto simp: derive_status [OF pipeline_okD(1) [OF ok(1)]] split: if_splits)
  have "status_of d s db' = Some DONE" for s
    using outside_status [OF out external_done_all [OF ok(1) ext]] by simp
  with False ext show ?thesis
    by (simp add: derive_status [OF pipeline_okD(1) [OF ok(1)]] derive_status [OF pipeline_okD(1) [OF ok(2)]])
qed

lemma document_of_row:
  assumes "pipeline_ok cfg db" "find_step d s db \<noteq> None"
  obtains q where "find_document d db = Some q"
proof -
  note sch = pipeline_okD(1) [OF assms(1)]
  from assms(2) obtain r where r: "r \<in> set (pipeline_steps db)" "st_document_id r = d" using find_step_iff [OF sch] by auto
  from schema_okD(6) [OF sch r(1)] r(2) obtain q where "q \<in> set (documents db)" "doc_id q = d" by force
  with that show thesis using find_document_iff [OF sch] by blast
qed

lemma outside_settled:
  assumes out: "outside db db' ms" and ok: "pipeline_ok cfg db" and row: "find_step d s db \<noteq> None" and set: "settled d s db"
  shows "settled d s db'"
proof (cases "status_of d s db \<in> {Some AWAITING_CALLBACK, Some DONE, Some ERROR}")
  case True
  with outside_status [OF out, of d s] outsideD(2) [OF out, of d s] show ?thesis by (auto simp: settled_def)
next
  case False
  obtain q where q: "find_document d db = Some q" by (rule document_of_row [OF ok row])
  with False set have "doc_status q = FAILED" by (auto simp: settled_def)
  with outsideD(4) [OF out q] show ?thesis by (auto simp: settled_def)
qed

lemma outside_phase_ok:
  assumes out: "outside db db' ms" and ok: "pipeline_ok cfg db" "pipeline_ok cfg db'"
    and msg: "deliverable p db" and ph: "phase_ok db p ph"
  shows "phase_ok db' p ph"
proof -
  from msg have row: "current_row db p \<noteq> None" by (auto simp: deliverable_def)
  note keep = outsideD(1) [OF out] outside_status [OF out] outside_triggerable [OF out] outside_derived [OF out ok]
    outside_settled [OF out ok(1) row]
  from ph show ?thesis
  proof (cases ph)
    case (Executing loaded r document)
    with ph obtain r' where "current_row db p = Some r'" "loaded_from r' r" "st_status r' = RUNNING" by auto
    with keep(1) [of _ _ r'] ph Executing show ?thesis by auto
  next
    case (Replying a)
    with ph keep(5) show ?thesis by (cases a) auto
  qed (use keep in auto)
qed

lemma find_step_None: "find_step d s db = None \<longleftrightarrow> (d, s) \<notin> set (map step_key (pipeline_steps db))"
  by (simp add: find_step_def find_None_iff image_iff) metis

text \<open>Without new rows there is nothing new to do.\<close>

lemma outside_same_steps:
  assumes "outside db db' ms" "map step_key (pipeline_steps db') = map step_key (pipeline_steps db)" "deliverable x db'"
  shows "deliverable x db"
proof -
  from assms(3) obtain r where r: "current_row db' x = Some r" "st_status r \<noteq> PENDING" by (auto simp: deliverable_def)
  then have "current_row db' x \<noteq> None" by simp
  then have "current_row db x \<noteq> None" unfolding find_step_None assms(2) .
  then obtain q where "current_row db x = Some q" by auto
  with r outsideD(1) [OF assms(1)] show ?thesis by (cases "st_status q = PENDING") (auto simp: deliverable_def)
qed

subsection \<open>A partner's call\<close>

lemma outside_refl: "outside db db []"
  using find_step_iff by (auto simp: outside_def status_of_def)

lemma outside_quiet:
  assumes "pipeline_steps db' = pipeline_steps db"
    and "\<And>d q. find_document d db = Some q \<Longrightarrow> \<exists>q'. find_document d db' = Some q' \<and> (doc_status q = FAILED \<longrightarrow> doc_status q' = FAILED)"
    and "\<And>d. in_sync d db \<Longrightarrow> in_sync d db'"
  shows "outside db db' []"
proof -
  have "find_step d s db' = find_step d s db" for d s using assms(1) by (simp add: find_step_def)
  with assms(2,3) show ?thesis by (auto simp: outside_def status_of_def)
qed

text \<open>The end of the wait, as a change of one row.\<close>

lemma outside_answered:
  assumes ok: "pipeline_ok cfg db" "pipeline_ok cfg db'"
    and steps: "pipeline_steps db' = pipeline_steps (put_step r' db0)" and old: "pipeline_steps db0 = pipeline_steps db"
    and r: "r \<in> set (pipeline_steps db)" "st_status r = AWAITING_CALLBACK" "new_version db r r'" "st_status r' \<in> {DONE, ERROR}"
    and docs: "\<And>d q. find_document d db = Some q \<Longrightarrow> \<exists>q'. find_document d db' = Some q' \<and> (doc_status q = FAILED \<longrightarrow> doc_status q' = FAILED)"
    and sync: "\<And>d. in_sync d db \<Longrightarrow> in_sync d db'"
  shows "outside db db' []"
proof -
  note sch = pipeline_okD(1) [OF ok(1)]
  obtain e u where key: "step_key r = (e, u)" by force
  have find: "find_step d s db' = (if d = e \<and> s = u then Some r' else find_step d s db)" for d s
    using find_step_put_step [OF sch r(3)] old r(3) key unfolding new_version_def
    by (simp add: find_step_def steps put_step_def update_where_def)
  have "find_step e u db = Some r"
    using find_step_iff [OF sch] r(1) key by (simp add: step_key_def)
  with r(2,4) docs sync find show ?thesis
    unfolding outside_def status_of_def by (auto split: if_splits)
qed

text \<open>Documents stay, and failed ones stay failed.\<close>

lemma refines_documents:
  assumes ref: "refines cfg D w w'" and ok: "pipeline_ok cfg (committed w)" and att: "1 \<le> step_max_attempts cfg"
    and hon: "honest (committed w)" and q: "find_document d (committed w) = Some q"
  shows "\<exists>q'. find_document d (committed w') = Some q' \<and> (doc_status q = FAILED \<longrightarrow> doc_status q' = FAILED)"
proof -
  obtain es where es: "effect_path cfg (committed w) es" "final_db (committed w) es = committed w'" by (rule refinesE [OF ref]) blast
  have "find_document d (committed w') \<noteq> None"
    using refines_document [OF ref, of d] q by (auto simp: kept_document_def)
  moreover have "find_document d (committed w') = Some q" if "doc_status q = FAILED"
    using effect_path_document_final [OF es(1) ok att hon q] that es(2) by simp
  ultimately show ?thesis by auto
qed

lemma outside_apply_partner_result:
  assumes clean: "clean w" and ok: "pipeline_ok cfg (committed w)" and att: "1 \<le> step_max_attempts cfg" and hon: "honest (committed w)"
  shows "outside (committed w) (committed (snd (apply_partner_result parse_json new_id raw p w))) []"
    and "map step_key (pipeline_steps (committed (snd (apply_partner_result parse_json new_id raw p w)))) =
      map step_key (pipeline_steps (committed w))"
proof -
  let ?w' = "snd (apply_partner_result parse_json new_id raw p w)"
  note ref = refines_apply_partner_result [OF clean ok att, of p parse_json new_id raw]
  note docs = refines_documents [OF ref ok att hon] and sync = webhook_in_sync [OF clean ok att, of _ parse_json new_id raw p]
  have "outside (committed w) (committed ?w') [] \<and>
      map step_key (pipeline_steps (committed ?w')) = map step_key (pipeline_steps (committed w))"
  proof (cases "parse_json raw")
    case None
    then have "?w' = w" by (simp add: apply_partner_result_def)
    then show ?thesis by (simp add: outside_refl)
  next
    case (Some body)
    let ?w1 = "record_webhook new_id (wp_job_id p) body w"
    note rec = record_webhook_db [OF clean ok, of new_id "wp_job_id p" body]
    note clean1 = refines_clean [OF rec(1)] and ok1 = refines_ok [OF rec(1) ok att]
    have work1: "working ?w1 = committed ?w1" using clean1 by (simp add: clean_def)
    have same: "pipeline_steps (committed ?w1) = pipeline_steps (committed w)" using rec(2) by auto
    show ?thesis
    proof (cases "\<exists>step. get_step_by_job_id (wp_job_id p) ?w1 = Inr (Some step) \<and> st_status step \<notin> {DONE, ERROR}")
      case False
      then have "?w' = ?w1"
        using Some by (auto simp: apply_partner_result_def Let_def split: sum.split option.split)
      with same docs sync show ?thesis by (intro conjI outside_quiet) auto
    next
      case True
      then obtain step where step: "get_step_by_job_id (wp_job_id p) ?w1 = Inr (Some step)"
        "st_status step \<notin> {DONE, ERROR}" by blast
      note row = get_step_by_job_id_row [OF ok1 [folded work1] step(1), unfolded work1]
      have wait: "st_status step = AWAITING_CALLBACK" using row(4) step(2) by auto
      from partner_commit_db [OF clean1 ok1 row(1,3) wait] obtain r' where r': "loaded_from r' (partner_row p (clock ?w1) step)"
        "new_version (committed ?w1) step r'" "committed (partner_commit p step ?w1) = put_step r' (committed ?w1)"
        and ref1: "refines cfg {st_document_id step} ?w1 (partner_commit p step ?w1)" by blast
      have steps: "pipeline_steps (committed ?w') = pipeline_steps (put_step r' (committed ?w1))"
        unfolding apply_partner_result_found [where parse_json = parse_json, OF Some step]
        using recompute_document_status_db(2) [OF refines_clean [OF ref1] refines_ok [OF ref1 ok1 att], of "st_document_id step"]
        by (simp add: Let_def case_prod_beta r'(3))
      have ended: "st_status r' \<in> {DONE, ERROR}" using loaded_fromD(4) [OF r'(1)] by (auto simp: partner_row_def split: if_splits)
      have nv: "new_version (committed w) step r'" using r'(2) same by (simp add: new_version_def)
      have "map step_key (pipeline_steps (committed ?w')) = map step_key (pipeline_steps (committed w))"
        using map_put_step [OF pipeline_okD(1) [OF ok1] r'(2), of step_key] r'(2) same by (simp add: steps new_version_def)
      with outside_answered [OF ok refines_ok [OF ref ok att] steps same _ wait nv ended] row(1) same docs sync
      show ?thesis by simp
    qed
  qed
  then show "outside (committed w) (committed ?w') []"
    and "map step_key (pipeline_steps (committed ?w')) = map step_key (pipeline_steps (committed w))" by simp_all
qed

lemma apply_partner_result_quiet [simp]:
  "sent_of (trace (snd (apply_partner_result parse_json new_id raw p w))) = sent_of (trace w)"
  "faults (snd (apply_partner_result parse_json new_id raw p w)) = faults w"
  by (simp_all add: apply_partner_result_def record_webhook_def recompute_document_status_def Let_def case_prod_beta
      split: sum.split option.split)

lemma partner_call_outside:
  fixes digest parse_json parse_datetime new_id raw signature
  assumes clean: "clean w" and ok: "pipeline_ok cfg (committed w)" and att: "1 \<le> step_max_attempts cfg" and hon: "honest (committed w)"
  defines "w' \<equiv> snd (partner_webhook cfg digest parse_json parse_datetime new_id raw signature w)"
  shows "outside (committed w) (committed w') []" "sent_of (trace w') = sent_of (trace w)" "faults w' = faults w"
    and "deliverable x (committed w') \<Longrightarrow> deliverable x (committed w)"
proof -
  have "w' = w \<or> (\<exists>p. w' = snd (apply_partner_result parse_json new_id raw p w))"
    using session_scope_refines [where body = "apply_partner_result parse_json new_id raw p" for p, OF clean
        refines_apply_partner_result [where p = p for p, OF clean ok att]]
    by (auto simp: w'_def partner_webhook_def case_prod_beta split: sum.split option.split bool.split)
  then have "outside (committed w) (committed w') [] \<and> sent_of (trace w') = sent_of (trace w) \<and> faults w' = faults w \<and>
      map step_key (pipeline_steps (committed w')) = map step_key (pipeline_steps (committed w))"
    using outside_apply_partner_result [OF clean ok att hon] outside_refl by auto
  then show out: "outside (committed w) (committed w') []" "sent_of (trace w') = sent_of (trace w)" "faults w' = faults w"
    and "deliverable x (committed w') \<Longrightarrow> deliverable x (committed w)"
    using outside_same_steps by blast+
qed

subsection \<open>An upload\<close>

lemma upload_outside:
  fixes abspath filename data
  assumes clean: "clean w" and ok: "pipeline_ok cfg (committed w)" and guard: "upload_guard cfg d ids user w" and hon: "honest (committed w)"
  defines "w' \<equiv> snd (upload_document cfg abspath d ids user filename data w)"
  obtains ms where "sent_of (trace w') = sent_of (trace w) @ ms" "outside (committed w) (committed w') ms"
    and "faults w = [] \<Longrightarrow> faults w' = [] \<and> ms = [\<lparr>payload_document_id = d, payload_step = OCR\<rparr>]"
    and "\<And>x. faults w = [] \<Longrightarrow> deliverable x (committed w') \<Longrightarrow> \<not> deliverable x (committed w) \<Longrightarrow> x \<in> set ms"
proof -
  let ?x = "\<lparr>payload_document_id = d, payload_step = OCR\<rparr>"
  let ?db = "uploaded cfg abspath d ids user (upload_name filename) (clock w) (committed w)"
  from guard have g: "1 \<le> step_max_attempts cfg" "user \<in> set (app_users (committed w))" "fresh_ids d ids (committed w)"
    by (simp_all add: upload_guard_def)
  note sch = pipeline_okD(1) [OF ok]
  define ms where "ms = (if faults w = [] \<or> \<not> hd (faults w) then [?x] else [])"
  have up: "w' = after_upload cfg abspath d ids user (upload_name filename) data (map Published ms) w"
  proof (cases "faults w = [] \<or> \<not> hd (faults w)")
    case True
    from upload_document_up [OF clean this] True show ?thesis by (simp add: w'_def ms_def)
  next
    case False
    then obtain fs where "faults w = True # fs" by (cases "faults w") auto
    from upload_document_down [OF clean this] this show ?thesis by (simp add: w'_def ms_def)
  qed
  have "sent_of (map Published ms) = ms" by (simp add: ms_def)
  with up have w': "committed w' = ?db" "sent_of (trace w') = sent_of (trace w) @ ms" "faults w' = tl (faults w)"
    by (simp_all add: after_upload_def Let_def)
  note find = find_step_add_document [OF sch g(3)]
  have none: "find_document d (committed w) = None" "find_step d s (committed w) = None" for s
  proof -
    show doc: "find_document d (committed w) = None" using g(3) by (auto simp: find_document_def find_None_iff fresh_ids_def)
    show "find_step d s (committed w) = None"
      using document_of_row [OF ok, of d s] doc by force
  qed
  have rows: "find_step e s ?db = (if e = d then Some (new_step (ids s) d s (start_statuses s) (clock w)) else find_step e s (committed w))" for e s
    using find by (simp add: uploaded_def start_statuses_def)
  have status: "status_of e s ?db = (if e = d then Some (start_statuses s) else status_of e s (committed w))" for e s
    by (simp add: status_of_def rows new_step_def)
  have docs: "find_document e ?db = Some q" if "find_document e (committed w) = Some q" for e q
    using that by (simp add: uploaded_def find_document_def add_document_def find_append)
  have sync: "in_sync e ?db" if "in_sync e (committed w)" for e
    using upload_sync.keeps_sync [OF clean ok guard that] w'(1) unfolding w'_def by metis
  have other: "e \<noteq> d" if "find_step e s (committed w) = Some q" for e s q using that none(2) by auto
  have "outside (committed w) ?db ms"
    unfolding outside_def
  proof (intro conjI allI impI ballI)
    fix e s q assume "find_step e s (committed w) = Some q" "st_status q \<noteq> AWAITING_CALLBACK"
    with other rows show "find_step e s ?db = Some q" by simp
  next
    fix e s assume "status_of e s (committed w) = Some AWAITING_CALLBACK"
    with other status show "status_of e s ?db \<in> {Some AWAITING_CALLBACK, Some DONE, Some ERROR}"
      by (auto simp: status_of_def)
  next
    fix e s st assume "find_step e s (committed w) = None" "status_of e s ?db = Some st"
    with status none(1) show "find_document e (committed w) = None" "st = start_statuses s"
      by (simp_all add: status_of_def split: if_splits)
  next
    fix e q assume "find_document e (committed w) = Some q"
    with docs show "\<exists>q'. find_document e ?db = Some q' \<and> (doc_status q = FAILED \<longrightarrow> doc_status q' = FAILED)" by blast
  next
    fix x assume "x \<in> set ms"
    then have "x = ?x" by (simp add: ms_def split: if_splits)
    with none(2) rows show "\<not> deliverable x (committed w)" "deliverable x ?db"
      by (simp_all add: deliverable_def start_statuses_def new_step_def)
  qed (use sync in \<open>simp_all add: ms_def\<close>)
  moreover have "x = ?x" if "deliverable x ?db" "\<not> deliverable x (committed w)" for x
    using that rows by (cases x) (auto simp: deliverable_def new_step_def start_statuses_def split: if_splits)
  ultimately show thesis using w' by (intro that [of ms]) (simp_all add: ms_def)
qed

subsection \<open>Workers and the API together\<close>

datatype activity = Work choice | Serve operation

fun served :: "operation \<Rightarrow> bool" where
  "served (PartnerCall new_id raw signature) = True"
| "served (Upload d ids user filename data) = True"
| "served op = False"

definition after_serving :: "deployment \<Rightarrow> operation \<Rightarrow> cluster \<Rightarrow> cluster" where
  "after_serving env op c = c\<lparr>shared := run_operation env op (shared c),
     queue := queue c + mset (sent_of (new_effects (shared c) (run_operation env op (shared c))))\<rparr>"

fun perform :: "deployment \<Rightarrow> activity \<Rightarrow> cluster \<Rightarrow> cluster option" where
  "perform env (Work y) c = proceed (env_settings env) y c"
| "perform env (Serve op) c =
     (if served op \<and> enabled env op (shared c) (queue c) then Some (after_serving env op c) else None)"

fun activities :: "deployment \<Rightarrow> activity list \<Rightarrow> cluster \<Rightarrow> cluster option" where
  "activities env [] c = Some c"
| "activities env (a # xs) c = (case perform env a c of None \<Rightarrow> None | Some c' \<Rightarrow> activities env xs c')"

lemma activities_work: "activities env (map Work xs) c = schedule (env_settings env) xs c"
  by (induction xs arbitrary: c) (auto split: option.split)

lemma serve_cases:
  assumes ok: "cluster_ok (env_settings env) c" and att: "1 \<le> step_max_attempts (env_settings env)"
    and step: "perform env (Serve op) c = Some c'"
  obtains ms where "outside (committed (shared c)) (committed (shared c')) ms"
    and "cluster_ok (env_settings env) c'" "busy c' = busy c" "held c' = held c + mset ms" "issued c' = issued c + mset ms"
    and "\<exists>es. trace (shared c') = trace (shared c) @ es"
    and "faults (shared c) = [] \<Longrightarrow> faults (shared c') = []"
    and "\<And>x. faults (shared c) = [] \<Longrightarrow> deliverable x (committed (shared c')) \<Longrightarrow> \<not> deliverable x (committed (shared c)) \<Longrightarrow> x \<in> set ms"
proof -
  let ?w = "shared c" and ?w' = "run_operation env op (shared c)"
  from step have op: "served op" "enabled env op ?w (queue c)" and c': "c' = after_serving env op c" by (auto split: if_splits)
  note inv = cluster_okD [OF ok]
  have ref: "refines (env_settings env) (touched env op ?w) ?w ?w'"
    by (rule run_operation_refines [OF inv(1,2) att op(2)]) (use inv(5) in \<open>simp add: held_def\<close>)
  obtain ms where out: "outside (committed ?w) (committed ?w') ms" and sent: "sent_of (trace ?w') = sent_of (trace ?w) @ ms"
    and up: "faults ?w = [] \<Longrightarrow> faults ?w' = []"
    and new: "\<And>x. faults ?w = [] \<Longrightarrow> deliverable x (committed ?w') \<Longrightarrow> \<not> deliverable x (committed ?w) \<Longrightarrow> x \<in> set ms"
  proof (cases op)
    case (PartnerCall new_id raw signature)
    note call = partner_call_outside [where digest = "env_hmac env" and parse_json = "env_parse_json env" and
      parse_datetime = "env_parse_datetime env" and new_id = new_id and raw = raw and signature = signature, OF inv(1,2) att inv(3)]
    show thesis by (rule that [of "[]"]) (use call PartnerCall in auto)
  next
    case (Upload d ids user filename data)
    with op(2) att have guard: "upload_guard (env_settings env) d ids user ?w" by (simp add: upload_guard_def)
    obtain ms where ms: "sent_of (trace ?w') = sent_of (trace ?w) @ ms" "outside (committed ?w) (committed ?w') ms"
      "faults ?w = [] \<Longrightarrow> faults ?w' = [] \<and> ms = [\<lparr>payload_document_id = d, payload_step = OCR\<rparr>]"
      "\<And>x. faults ?w = [] \<Longrightarrow> deliverable x (committed ?w') \<Longrightarrow> \<not> deliverable x (committed ?w) \<Longrightarrow> x \<in> set ms"
      by (rule upload_outside [where abspath = "env_abspath env" and filename = filename and data = data, OF inv(1,2) guard inv(3)])
        (use Upload in simp)
    show thesis by (rule that [OF ms(2,1)]) (use ms(3,4) in blast)+
  qed (use op(1) in simp_all)
  obtain es where es: "trace ?w' = trace ?w @ es" by (rule refinesE [OF ref]) blast
  then have ms: "sent_of (new_effects ?w ?w') = ms" using sent by (simp add: new_effects_def)
  have c'_eq: "shared c' = ?w'" "busy c' = busy c" "held c' = held c + mset ms" "issued c' = issued c + mset ms"
    by (simp_all add: c' after_serving_def held_def issued_def ms sent)
  have ok': "pipeline_ok (env_settings env) (committed ?w')" by (rule refines_ok [OF ref inv(2) att])
  have "count (held c') x \<le> 1" for x
  proof (cases "x \<in> set ms")
    case True
    with outsideD(7) [OF out] inv(5) have "count (held c) x = 0" by (auto simp: count_eq_zero_iff)
    with True outsideD(6) [OF out] show ?thesis by (simp add: c'_eq distinct_count_atmost_1)
  next
    case False
    then have "count (mset ms) x = 0" by (simp add: count_eq_zero_iff)
    with inv(4) [of x] show ?thesis unfolding c'_eq count_union by linarith
  qed
  moreover have "deliverable x (committed ?w')" if "x \<in># held c'" for x
    using that inv(5) [of x] outside_deliverable [OF out] outsideD(7) [OF out, of x] by (auto simp: c'_eq(3))
  moreover have "phase_ok (committed ?w') p ph" if "(p, ph) \<in> set (busy c)" for p ph
  proof -
    have "p \<in># held c" using that by (force simp: held_def)
    with outside_phase_ok [OF out inv(2) ok'] inv(5,6) that show ?thesis by blast
  qed
  moreover have "honest (committed ?w')" by (rule refines_honest [OF ref inv(2) att inv(3)])
  ultimately have "cluster_ok (env_settings env) c'"
    using refines_clean [OF ref] ok' by (auto simp: cluster_ok_def c'_eq)
  with that [of ms] out c'_eq es up new show thesis by auto
qed

subsection \<open>What one activity does\<close>

lemma proceed_database:
  assumes ok: "cluster_ok cfg c" and att: "1 \<le> step_max_attempts cfg" and step: "proceed cfg y c = Some c'"
  obtains es p where "trace (shared c') = trace (shared c) @ es"
    and "turn_tx cfg p (committed (shared c)) (committed (shared c'))"
proof (cases "\<exists>i dr. y = Turn i dr")
  case True
  then obtain i dr where y: "y = Turn i dr" by blast
  obtain p ph ph' where "sound_turn cfg p ph (shared c) ph' (shared c')"
    by (rule proceed_turn [OF ok att step [unfolded y]])
  then show ?thesis by (auto simp: sound_turn_def intro: that)
next
  case False
  have "trace (shared c') = trace (shared c)" "committed (shared c') = committed (shared c)"
    using step False by (cases y; auto split: if_splits)+
  with that [of "[]"] turn_tx.nothing show ?thesis by simp
qed

lemma turn_tx_no_row:
  assumes "turn_tx cfg p db db'" "pipeline_ok cfg db" "find_step d s db = None"
  shows "find_step d s db' = None"
  using assms
proof (induction rule: turn_tx.induct)
  case (row r r' evs)
  have "step_key r \<noteq> (d, s)"
    using row.prems(2) find_step_iff [OF pipeline_okD(1) [OF row.prems(1)], of d s r] row.hyps(1) by (auto simp: step_key_def)
  then show ?case
    using row.prems(2) step_move_key [OF row.hyps(2)]
    by (simp add: find_step_put_step [OF pipeline_okD(1) [OF row.prems(1)] pipeline_ok_step(2) [OF row.prems(1) row.hyps(1,2)]])
qed simp_all

text \<open>A step gets its first message when it leaves PENDING, or with its document.\<close>

lemma turn_tx_arrived:
  assumes tx: "turn_tx cfg p db db'" and ok: "pipeline_ok cfg db"
  shows "unclaimed db x \<and> \<not> unclaimed db' x \<longleftrightarrow> \<not> deliverable x db \<and> deliverable x db'"
proof (cases "current_row db x")
  case None
  with turn_tx_no_row [OF tx ok] show ?thesis by (simp add: unclaimed_def deliverable_def status_of_def)
next
  case (Some r)
  with turn_tx_find_step [OF tx ok, of "payload_document_id x" "payload_step x"] obtain r' where "current_row db' x = Some r'" by auto
  with Some show ?thesis by (auto simp: unclaimed_def deliverable_def status_of_def)
qed

fun steady :: "activity \<Rightarrow> bool" where
  "steady (Work y) = reliable y"
| "steady (Serve op) = True"

lemma perform_ok:
  assumes "cluster_ok (env_settings env) c" "1 \<le> step_max_attempts (env_settings env)" "perform env a c = Some c'"
  shows "cluster_ok (env_settings env) c'"
proof (cases a)
  case (Work y)
  with assms cluster_ok_proceed show ?thesis by simp
next
  case (Serve op)
  show ?thesis by (rule serve_cases [OF assms(1,2) assms(3) [unfolded Serve]])
qed

lemma perform_database:
  assumes ok: "cluster_ok (env_settings env) c" and att: "1 \<le> step_max_attempts (env_settings env)" and step: "perform env a c = Some c'"
  shows "\<exists>es. trace (shared c') = trace (shared c) @ es"
    and "find_step d s (committed (shared c)) = Some q \<Longrightarrow> st_status q \<in> {DONE, ERROR} \<Longrightarrow> find_step d s (committed (shared c')) = Some q"
    and "find_step d s (committed (shared c)) \<noteq> None \<Longrightarrow> find_step d s (committed (shared c')) \<noteq> None"
    and "deliverable x (committed (shared c)) \<Longrightarrow> deliverable x (committed (shared c'))"
proof -
  let ?db = "committed (shared c)" and ?db' = "committed (shared c')"
  note inv = cluster_okD [OF ok]
  have "(\<exists>es. trace (shared c') = trace (shared c) @ es) \<and>
    (find_step d s ?db = Some q \<longrightarrow> st_status q \<in> {DONE, ERROR} \<longrightarrow> find_step d s ?db' = Some q) \<and>
    (find_step d s ?db \<noteq> None \<longrightarrow> find_step d s ?db' \<noteq> None) \<and>
    (deliverable x ?db \<longrightarrow> deliverable x ?db')"
  proof (cases a)
    case (Work y)
    obtain es p where es: "trace (shared c') = trace (shared c) @ es" and tx: "turn_tx (env_settings env) p ?db ?db'"
      by (rule proceed_database [OF ok att]) (use step Work in auto)
    from es turn_tx_settled_row [OF tx inv(2)] turn_tx_find_step [OF tx inv(2)] turn_tx_deliverable [OF tx inv(2)]
    show ?thesis by auto
  next
    case (Serve op)
    obtain ms where out: "outside ?db ?db' ms" and es: "\<exists>es. trace (shared c') = trace (shared c) @ es"
      by (rule serve_cases [OF ok att step [unfolded Serve]])
    from es outsideD(1) [OF out, of d s q] outside_row [OF out] outside_deliverable [OF out] show ?thesis by auto
  qed
  then show "\<exists>es. trace (shared c') = trace (shared c) @ es"
    and "find_step d s (committed (shared c)) = Some q \<Longrightarrow> st_status q \<in> {DONE, ERROR} \<Longrightarrow> find_step d s (committed (shared c')) = Some q"
    and "find_step d s (committed (shared c)) \<noteq> None \<Longrightarrow> find_step d s (committed (shared c')) \<noteq> None"
    and "deliverable x (committed (shared c)) \<Longrightarrow> deliverable x (committed (shared c'))" by blast+
qed

definition arrived :: "payload \<Rightarrow> cluster \<Rightarrow> cluster \<Rightarrow> nat" where
  "arrived x c c' = (if \<not> deliverable x (committed (shared c)) \<and> deliverable x (committed (shared c')) then 1 else 0)"

lemma perform_issued:
  assumes ok: "cluster_ok (env_settings env) c" and att: "1 \<le> step_max_attempts (env_settings env)" and step: "perform env a c = Some c'"
  shows "count (issued c') x \<le> count (issued c) x + arrived x c c'"
    and "steady a \<Longrightarrow> faults (shared c) = [] \<Longrightarrow> faults (shared c') = [] \<and> count (issued c') x = count (issued c) x + arrived x c c'"
proof -
  let ?db = "committed (shared c)" and ?db' = "committed (shared c')"
  note inv = cluster_okD [OF ok]
  have "count (issued c') x \<le> count (issued c) x + arrived x c c' \<and>
    (steady a \<longrightarrow> faults (shared c) = [] \<longrightarrow> faults (shared c') = [] \<and> count (issued c') x = count (issued c) x + arrived x c c')"
  proof (cases a)
    case (Work y)
    obtain p where tx: "turn_tx (env_settings env) p ?db ?db'"
      by (rule proceed_database [OF ok att]) (use step Work in auto)
    from issued_proceed [OF ok att, of y c' x] step Work show ?thesis
      unfolding arrived_def turn_tx_arrived [OF tx inv(2), symmetric] by simp
  next
    case (Serve op)
    obtain ms where out: "outside ?db ?db' ms" and iss: "issued c' = issued c + mset ms"
      and up: "faults (shared c) = [] \<Longrightarrow> faults (shared c') = []"
      and new: "\<And>x. faults (shared c) = [] \<Longrightarrow> deliverable x ?db' \<Longrightarrow> \<not> deliverable x ?db \<Longrightarrow> x \<in> set ms"
      by (rule serve_cases [OF ok att step [unfolded Serve]], rule that) blast+
    have count: "count (mset ms) x = (if x \<in> set ms then 1 else 0)" using outsideD(6) [OF out] by (simp add: distinct_count_atmost_1)
    show ?thesis
      unfolding iss arrived_def count_union count using outsideD(7) [OF out, of x] up new [of x] by auto
  qed
  then show "count (issued c') x \<le> count (issued c) x + arrived x c c'"
    and "steady a \<Longrightarrow> faults (shared c) = [] \<Longrightarrow> faults (shared c') = [] \<and> count (issued c') x = count (issued c) x + arrived x c c'"
    by blast+
qed

subsection \<open>Nothing is left behind\<close>

definition row_covered :: "payload \<Rightarrow> cluster \<Rightarrow> bool" where
  "row_covered x c \<longleftrightarrow> (current_row (committed (shared c)) x \<noteq> None \<longrightarrow> message_covered x c)"

lemma waiting_is_external:
  assumes "pipeline_ok cfg db" "status_of d s db = Some AWAITING_CALLBACK"
  shows "s = EXTERNAL_CALL"
proof -
  from assms(2) obtain r where "r \<in> set (pipeline_steps db)" "st_name r = s" "st_status r = AWAITING_CALLBACK"
    using find_step_iff [OF pipeline_okD(1) [OF assms(1)]] by (auto simp: status_of_def)
  with pipeline_okD(5) [OF assms(1)] show ?thesis by (auto simp: step_row_ok_def)
qed

text \<open>The API makes no step ready: new steps wait for OCR, and nothing waits for the partner.\<close>

lemma outside_ready:
  assumes out: "outside db db' ms" and ok: "pipeline_ok cfg db" and x: "unclaimed db' x" "ready_in db' x"
  shows "unclaimed db x \<and> ready_in db x"
proof -
  let ?d = "payload_document_id x" and ?t = "payload_step x"
  have past: "status_of ?d u db = Some DONE \<or> find_step ?d u db = None \<and> find_document ?d db = None \<and> start_statuses u = DONE"
    if u: "u \<in> parents PIPELINE ?t" for u
  proof (cases "find_step ?d u db")
    case None
    with outsideD(3) [OF out None] x(2) u show ?thesis by (auto simp: triggerable_def)
  next
    case (Some r)
    then have st: "status_of ?d u db = Some (st_status r)" by (simp add: status_of_def)
    have "u \<noteq> EXTERNAL_CALL" using u by (cases ?t) (auto simp: enum_simps)
    with waiting_is_external [OF ok, of ?d u] st have "st_status r \<noteq> AWAITING_CALLBACK" by auto
    with outside_status [OF out st] x(2) u st show ?thesis by (simp add: triggerable_def)
  qed
  have "start_statuses u \<noteq> DONE" for u by (simp add: start_statuses_def)
  with past have ready: "ready_in db x" by (auto simp: triggerable_def)
  have "unclaimed db x"
  proof (cases "current_row db x")
    case None
    with outsideD(3) [OF out None] x(1) have none: "find_document ?d db = None" "start_statuses ?t = PENDING"
      by (auto simp: unclaimed_def)
    from none(2) have "?t \<noteq> OCR" by (auto simp: start_statuses_def)
    then have "OCR \<in> parents PIPELINE ?t \<or> METADATA \<in> parents PIPELINE ?t" by (cases ?t) (simp_all add: enum_simps)
    with ready obtain u where "status_of ?d u db = Some DONE" by (auto simp: triggerable_def)
    then have "find_step ?d u db \<noteq> None" by (auto simp: status_of_def)
    from document_of_row [OF ok this] none(1) show ?thesis by auto
  next
    case (Some r)
    then have st: "status_of ?d ?t db = Some (st_status r)" by (simp add: status_of_def)
    with outside_left_pending [OF out st] x(1) show ?thesis by (auto simp: unclaimed_def)
  qed
  with ready show ?thesis by blast
qed

lemma perform_covered:
  assumes ok: "cluster_ok (env_settings env) c" and att: "1 \<le> step_max_attempts (env_settings env)" and step: "perform env a c = Some c'"
    and rel: "steady a" "faults (shared c) = []"
  shows "claim_covered x c \<Longrightarrow> claim_covered x c'" and "status_covered d c \<Longrightarrow> status_covered d c'"
    and "row_covered x c \<Longrightarrow> row_covered x c'"
proof -
  let ?db = "committed (shared c)" and ?db' = "committed (shared c')"
  note inv = cluster_okD [OF ok]
  have "(claim_covered x c \<longrightarrow> claim_covered x c') \<and> (status_covered d c \<longrightarrow> status_covered d c') \<and>
      (row_covered x c \<longrightarrow> row_covered x c')"
  proof (cases a)
    case (Work y)
    obtain p where tx: "turn_tx (env_settings env) p ?db ?db'"
      by (rule proceed_database [OF ok att]) (use step Work in auto)
    from covered_proceed [OF ok att, of y c'] step rel Work turn_tx_no_row [OF tx inv(2)]
    show ?thesis unfolding row_covered_def by auto
  next
    case (Serve op)
    obtain ms where out: "outside ?db ?db' ms" and c': "busy c' = busy c" "held c' = held c + mset ms"
      and new: "\<And>x. deliverable x ?db' \<Longrightarrow> \<not> deliverable x ?db \<Longrightarrow> x \<in> set ms"
      by (rule serve_cases [OF ok att step [unfolded Serve]], rule that) (use rel(2) in blast)+
    have att': "attended e P c' = attended e P c" for e P by (simp add: attended_def c'(1))
    have "message_covered x c'" if "row_covered x c" "current_row ?db' x \<noteq> None"
    proof (cases "current_row ?db x = None")
      case True
      then have "\<not> deliverable x ?db" by (simp add: deliverable_def)
      with new [of x] that(2) show ?thesis
        by (auto simp: message_covered_def unclaimed_def deliverable_def status_of_def c'(2))
    next
      case False
      with that(1) have cov: "message_covered x c" by (simp add: row_covered_def)
      have "unclaimed ?db' x" if "unclaimed ?db x"
        using that outside_status [OF out, of "payload_document_id x" "payload_step x"] by (simp add: unclaimed_def)
      with cov outside_settled [OF out inv(2) False] show ?thesis by (auto simp: message_covered_def c'(2))
    qed
    with outside_ready [OF out inv(2), of x] outsideD(5) [OF out, of d] show ?thesis
      by (auto simp: claim_covered_def status_covered_def row_covered_def att')
  qed
  then show "claim_covered x c \<Longrightarrow> claim_covered x c'" and "status_covered d c \<Longrightarrow> status_covered d c'"
    and "row_covered x c \<Longrightarrow> row_covered x c'" by blast+
qed

subsection \<open>Any sequence of activities\<close>

lemma activities_ok:
  assumes "activities env xs c = Some c'" "cluster_ok (env_settings env) c" "1 \<le> step_max_attempts (env_settings env)"
  shows "cluster_ok (env_settings env) c'"
  using assms by (induction env xs c rule: activities.induct) (auto split: option.splits dest: perform_ok)

text \<open>What each activity keeps, all of them keep.\<close>

lemma activities_induct:
  assumes "activities env xs c = Some c'" "cluster_ok (env_settings env) c" "1 \<le> step_max_attempts (env_settings env)"
    and "R c' c'"
    and "\<And>a b b'. a \<in> set xs \<Longrightarrow> cluster_ok (env_settings env) b \<Longrightarrow> perform env a b = Some b' \<Longrightarrow> R b' c' \<Longrightarrow> R b c'"
  shows "R c c'"
  using assms
proof (induction env xs c rule: activities.induct)
  case (2 env a ys c)
  from 2(2) obtain c1 where c1: "perform env a c = Some c1" "activities env ys c1 = Some c'" by (auto split: option.splits)
  have "R c1 c'"
    by (rule 2(1) [OF c1 perform_ok [OF 2(3,4) c1(1)] 2(4,5)]) (rule 2(6), simp_all)
  with 2(6) [of a c c1] 2(3) c1(1) show ?case by simp
qed simp

lemma activities_database:
  assumes "activities env xs c = Some c'" "cluster_ok (env_settings env) c" "1 \<le> step_max_attempts (env_settings env)"
  shows "\<exists>es. trace (shared c') = trace (shared c) @ es"
    and "find_step d s (committed (shared c)) = Some q \<Longrightarrow> st_status q \<in> {DONE, ERROR} \<Longrightarrow> find_step d s (committed (shared c')) = Some q"
    and "find_step d s (committed (shared c)) \<noteq> None \<Longrightarrow> find_step d s (committed (shared c')) \<noteq> None"
proof -
  show "\<exists>es. trace (shared c') = trace (shared c) @ es"
    by (rule activities_induct [where R = "\<lambda>c c'. \<exists>es. trace (shared c') = trace (shared c) @ es", OF assms])
      (use perform_database(1) [OF _ assms(3)] in fastforce)+
  have "find_step d s (committed (shared c)) = Some q \<longrightarrow> st_status q \<in> {DONE, ERROR} \<longrightarrow> find_step d s (committed (shared c')) = Some q"
    by (rule activities_induct [where R = "\<lambda>c c'. find_step d s (committed (shared c)) = Some q \<longrightarrow>
        st_status q \<in> {DONE, ERROR} \<longrightarrow> find_step d s (committed (shared c')) = Some q", OF assms])
      (use perform_database(2) [OF _ assms(3)] in blast)+
  then show "find_step d s (committed (shared c)) = Some q \<Longrightarrow> st_status q \<in> {DONE, ERROR} \<Longrightarrow> find_step d s (committed (shared c')) = Some q"
    by blast
  have "find_step d s (committed (shared c)) \<noteq> None \<longrightarrow> find_step d s (committed (shared c')) \<noteq> None"
    by (rule activities_induct [where R = "\<lambda>c c'. find_step d s (committed (shared c)) \<noteq> None \<longrightarrow> find_step d s (committed (shared c')) \<noteq> None", OF assms])
      (use perform_database(3) [OF _ assms(3)] in blast)+
  then show "find_step d s (committed (shared c)) \<noteq> None \<Longrightarrow> find_step d s (committed (shared c')) \<noteq> None" by blast
qed

text \<open>The messages: at most one for each step that arrives, and exactly one when all goes well.\<close>

lemma arrived_refl [simp]: "arrived x c c = 0"
  by (simp add: arrived_def)

lemma arrived_trans:
  assumes "deliverable x (committed (shared a)) \<Longrightarrow> deliverable x (committed (shared b))"
    and "deliverable x (committed (shared b)) \<Longrightarrow> deliverable x (committed (shared c))"
  shows "arrived x a c = arrived x a b + arrived x b c"
  using assms by (auto simp: arrived_def)

lemma activities_issued:
  assumes "activities env xs c = Some c'" "cluster_ok (env_settings env) c" "1 \<le> step_max_attempts (env_settings env)"
  shows "count (issued c') x \<le> count (issued c) x + arrived x c c'"
    and "\<forall>a \<in> set xs. steady a \<Longrightarrow> faults (shared c) = [] \<Longrightarrow> count (issued c') x = count (issued c) x + arrived x c c'"
proof -
  let ?R = "\<lambda>c c'. (deliverable x (committed (shared c)) \<longrightarrow> deliverable x (committed (shared c'))) \<and>
    count (issued c') x \<le> count (issued c) x + arrived x c c' \<and>
    ((\<forall>a \<in> set xs. steady a) \<longrightarrow> faults (shared c) = [] \<longrightarrow> count (issued c') x = count (issued c) x + arrived x c c')"
  have "?R c c'"
  proof (rule activities_induct [where R = ?R, OF assms])
    fix a b b' assume a: "a \<in> set xs" and step: "cluster_ok (env_settings env) b" "perform env a b = Some b'" and R: "?R b' c'"
    note mono = perform_database(4) [OF step(1) assms(3) step(2), of x]
    note iss = perform_issued [OF step(1) assms(3) step(2), of x]
    have "arrived x b c' = arrived x b b' + arrived x b' c'" by (rule arrived_trans) (use mono R in blast)+
    with mono iss R a show "?R b c'" by simp
  qed simp
  then show "count (issued c') x \<le> count (issued c) x + arrived x c c'"
    and "\<forall>a \<in> set xs. steady a \<Longrightarrow> faults (shared c) = [] \<Longrightarrow> count (issued c') x = count (issued c) x + arrived x c c'"
    by blast+
qed

lemma activities_covered:
  assumes "activities env xs c = Some c'" "cluster_ok (env_settings env) c" "1 \<le> step_max_attempts (env_settings env)"
    and "\<forall>a \<in> set xs. steady a" "faults (shared c) = []"
  shows "claim_covered x c \<Longrightarrow> claim_covered x c'" and "status_covered d c \<Longrightarrow> status_covered d c'"
    and "row_covered x c \<Longrightarrow> row_covered x c'"
proof -
  let ?R = "\<lambda>c c'. faults (shared c) = [] \<longrightarrow> (claim_covered x c \<longrightarrow> claim_covered x c') \<and>
    (status_covered d c \<longrightarrow> status_covered d c') \<and> (row_covered x c \<longrightarrow> row_covered x c')"
  have "?R c c'"
  proof (rule activities_induct [where R = ?R, OF assms(1-3)])
    fix a b b' assume a: "a \<in> set xs" and step: "cluster_ok (env_settings env) b" "perform env a b = Some b'" and R: "?R b' c'"
    have "steady a" using a assms(4) by blast
    note here = perform_covered [OF step(1) assms(3) step(2) this] perform_issued(2) [OF step(1) assms(3) step(2) this]
    show "?R b c'" using here R by blast
  qed simp
  with assms(5) show "claim_covered x c \<Longrightarrow> claim_covered x c'" and "status_covered d c \<Longrightarrow> status_covered d c'"
    and "row_covered x c \<Longrightarrow> row_covered x c'" by blast+
qed

end
