(* ===== verification/Interference.thy ===== *)
theory Interference
  imports ScanTurns Traffic
begin

section \<open>What any process may do to the steps\<close>

text \<open>
  Workers, scans and partner calls that overlap write over each other's rows, since their UPDATEs
  go by the primary key alone. What is left is a guarantee that each turn of each of them gives,
  whatever the others have done: rows stay, no step returns to PENDING, the only way out of PENDING
  is a claim, which announces it, and of the rows that are not PENDING a turn touches the one that it
  updates. \<open>moves\<close> is this guarantee, \<open>tracks\<close> what it preserves for the rows in the
  processes' memory.
\<close>

subsection \<open>The guarantee\<close>

text \<open>A partner's job belongs to a step that has been claimed.\<close>

definition jobs_claimed :: "database \<Rightarrow> bool" where
  "jobs_claimed db \<longleftrightarrow> (\<forall>r \<in> set (pipeline_steps db). st_external_job_id r \<noteq> None \<longrightarrow> st_status r \<noteq> PENDING)"

definition sound :: "database \<Rightarrow> bool" where
  "sound db \<longleftrightarrow> schema_ok db \<and> jobs_claimed db"

definition tracks :: "database \<Rightarrow> pipeline_step \<Rightarrow> bool" where
  "tracks db r \<longleftrightarrow> (\<exists>m \<in> set (pipeline_steps db). st_id m = st_id r \<and> step_key m = step_key r \<and> st_status m \<noteq> PENDING)"

definition keeps :: "database \<Rightarrow> database \<Rightarrow> bool" where
  "keeps db db' \<longleftrightarrow> (\<forall>m \<in> set (pipeline_steps db). \<exists>m' \<in> set (pipeline_steps db').
     st_id m' = st_id m \<and> step_key m' = step_key m \<and> (st_status m \<noteq> PENDING \<longrightarrow> st_status m' \<noteq> PENDING))"

definition moves :: "uuid set \<Rightarrow> database \<Rightarrow> database \<Rightarrow> (uuid \<times> event) list \<Rightarrow> bool" where
  "moves U db db' ns \<longleftrightarrow> sound db' \<and> keeps db db' \<and>
     map step_key (pipeline_steps db') = map step_key (pipeline_steps db) \<and>
     (\<forall>q \<in> set (pipeline_steps db). st_id q \<notin> U \<longrightarrow> st_status q \<noteq> PENDING \<longrightarrow> q \<in> set (pipeline_steps db')) \<and>
     (\<forall>x. claims (payload_document_id x) (payload_step x) ns = (if unclaimed db x \<and> \<not> unclaimed db' x then 1 else 0))"

lemma movesD:
  assumes "moves U db db' ns"
  shows "sound db'" "keeps db db'" "map step_key (pipeline_steps db') = map step_key (pipeline_steps db)"
    and "q \<in> set (pipeline_steps db) \<Longrightarrow> st_id q \<notin> U \<Longrightarrow> st_status q \<noteq> PENDING \<Longrightarrow> q \<in> set (pipeline_steps db')"
    and "claims (payload_document_id x) (payload_step x) ns = (if unclaimed db x \<and> \<not> unclaimed db' x then 1 else 0)"
  using assms by (auto simp: moves_def)

lemma keeps_refl [simp]: "keeps db db"
  by (auto simp: keeps_def)

lemma keeps_trans: "keeps a b \<Longrightarrow> keeps b c \<Longrightarrow> keeps a c"
  unfolding keeps_def by (metis (no_types, lifting))

lemma keeps_tracks: "keeps db db' \<Longrightarrow> tracks db r \<Longrightarrow> tracks db' r"
  unfolding keeps_def tracks_def by metis

lemma deliverable_tracks:
  assumes "schema_ok db"
  shows "deliverable x db \<longleftrightarrow> (\<exists>m \<in> set (pipeline_steps db). step_key m = key_of x \<and> st_status m \<noteq> PENDING)"
  using find_step_iff [OF assms] by (auto simp: deliverable_def step_key_def)

lemma unclaimed_rows:
  assumes "schema_ok db"
  shows "unclaimed db x \<longleftrightarrow> (\<exists>m \<in> set (pipeline_steps db). step_key m = key_of x \<and> st_status m = PENDING)"
  using find_step_iff [OF assms] by (auto simp: unclaimed_def status_of_def step_key_def)

lemma keeps_deliverable:
  assumes "keeps db db'" "schema_ok db" "schema_ok db'" "deliverable x db"
  shows "deliverable x db'"
  using assms(1,4) unfolding deliverable_tracks [OF assms(2)] deliverable_tracks [OF assms(3)] keeps_def by metis

lemma tracks_deliverable:
  "schema_ok db \<Longrightarrow> tracks db r \<Longrightarrow> deliverable \<lparr>payload_document_id = st_document_id r, payload_step = st_name r\<rparr> db"
  by (auto simp: deliverable_tracks tracks_def step_key_def)

subsection \<open>Updates of rows\<close>

lemma schema_ok_rows:
  assumes "schema_ok db" "map st_id rows = map st_id (pipeline_steps db)" "map step_key rows = map step_key (pipeline_steps db)"
    and "map doc_id docs = map doc_id (documents db)" "map doc_org_id docs = map doc_org_id (documents db)"
      "map doc_uploaded_by docs = map doc_uploaded_by (documents db)"
  shows "schema_ok (db\<lparr>pipeline_steps := rows, documents := docs, webhook_events := calls\<rparr>)"
proof -
  have "map st_document_id rows = map st_document_id (pipeline_steps db)"
    using arg_cong [OF assms(3), of "map fst"] by (simp add: comp_def step_key_def)
  from arg_cong [OF this, of set] arg_cong [OF assms(5), of set] arg_cong [OF assms(6), of set] arg_cong [OF assms(4), of set]
  have "st_document_id ` set rows = st_document_id ` set (pipeline_steps db)" "doc_org_id ` set docs = doc_org_id ` set (documents db)"
    "doc_uploaded_by ` set docs = doc_uploaded_by ` set (documents db)" "doc_id ` set docs = doc_id ` set (documents db)" by simp_all
  with assms(1-4) show ?thesis unfolding schema_ok_def by simp
qed

text \<open>An UPDATE of the steps that keeps the keys and leaves no row PENDING that it touches.\<close>

lemma update_rows:
  fixes P f
  assumes sound: "sound db" and f: "\<And>r. st_id (f r) = st_id r \<and> step_key (f r) = step_key r"
    and out: "\<And>r. r \<in> set (pipeline_steps db) \<Longrightarrow> P r \<Longrightarrow> st_status (f r) \<noteq> PENDING"
  defines "db' \<equiv> db\<lparr>pipeline_steps := update_where P f (pipeline_steps db)\<rparr>"
  shows "sound db'" "keeps db db'" "map step_key (pipeline_steps db') = map step_key (pipeline_steps db)"
    and "q \<in> set (pipeline_steps db) \<Longrightarrow> \<not> P q \<Longrightarrow> q \<in> set (pipeline_steps db')"
    and "unclaimed db' x \<longleftrightarrow> unclaimed db x \<and> \<not> (\<exists>m \<in> set (pipeline_steps db). step_key m = key_of x \<and> P m)"
proof -
  have sch: "schema_ok db" and jobs: "jobs_claimed db" using sound by (simp_all add: sound_def)
  have keys: "map st_id (pipeline_steps db') = map st_id (pipeline_steps db)"
    "map step_key (pipeline_steps db') = map step_key (pipeline_steps db)"
    using f by (simp_all add: db'_def map_key_update_where)
  have "schema_ok (db\<lparr>pipeline_steps := pipeline_steps db', documents := documents db, webhook_events := webhook_events db\<rparr>)"
    by (rule schema_ok_rows [OF sch keys]) simp_all
  then have sch': "schema_ok db'" by (simp add: db'_def)
  have "jobs_claimed db'"
    using jobs out unfolding jobs_claimed_def by (auto simp: db'_def set_update_where)
  with sch' show "sound db'" by (simp add: sound_def)
  show "map step_key (pipeline_steps db') = map step_key (pipeline_steps db)" by (rule keys(2))
  show "q \<in> set (pipeline_steps db')" if "q \<in> set (pipeline_steps db)" "\<not> P q" for q
    using that by (auto simp: db'_def set_update_where)
  show "keeps db db'"
    unfolding keeps_def
  proof
    fix m assume m: "m \<in> set (pipeline_steps db)"
    have "(if P m then f m else m) \<in> set (pipeline_steps db')" using m by (auto simp: db'_def set_update_where)
    with m f [of m] out [OF m] show "\<exists>m' \<in> set (pipeline_steps db'). st_id m' = st_id m \<and> step_key m' = step_key m \<and>
        (st_status m \<noteq> PENDING \<longrightarrow> st_status m' \<noteq> PENDING)" by (cases "P m") force+
  qed
  have same: "m = r" if "m \<in> set (pipeline_steps db)" "r \<in> set (pipeline_steps db)" "step_key m = step_key r" for m r
    by (rule distinct_key_eq [OF schema_okD(3) [OF sch] that])
  show "unclaimed db' x \<longleftrightarrow> unclaimed db x \<and> \<not> (\<exists>m \<in> set (pipeline_steps db). step_key m = key_of x \<and> P m)"
    unfolding unclaimed_rows [OF sch] unclaimed_rows [OF sch'] using same out f
    by (auto simp: db'_def set_update_where) metis+
qed

subsection \<open>One turn\<close>

definition does :: "uuid set \<Rightarrow> world \<Rightarrow> world \<Rightarrow> bool" where
  "does U w w' \<longleftrightarrow> clean w' \<and> (\<exists>es. trace w' = trace w @ es \<and>
     moves U (committed w) (committed w') (notified_of es) \<and> (\<forall>x \<in> set (sent_of es). deliverable x (committed w')))"

lemma claims_other: "\<forall>n \<in> set ns. \<forall>s. snd n \<noteq> step_event s QUEUED \<Longrightarrow> claims d s ns = 0"
  by (auto simp: claims_def filter_empty_conv)

lemma moves_quiet:
  assumes "sound db" "schema_ok db'" "pipeline_steps db' = pipeline_steps db"
    and "\<forall>n \<in> set ns. \<forall>s. snd n \<noteq> step_event s QUEUED"
  shows "moves U db db' ns"
proof -
  have "unclaimed db' = unclaimed db"
    using assms(3) by (simp add: unclaimed_def [abs_def] status_of_def find_step_def)
  with assms claims_other [OF assms(4)] show ?thesis
    by (auto simp: moves_def sound_def jobs_claimed_def keeps_def)
qed

lemma does_nothing: "clean w \<Longrightarrow> sound (committed w) \<Longrightarrow> does U w w"
  by (auto simp: does_def sound_def intro!: exI [of _ "[]"] moves_quiet)

lemma does_record_status:
  assumes "clean w" "sound (committed w)"
  shows "does U w (record_status d new document w)"
proof (cases "doc_status document = new")
  case True
  with does_nothing [OF assms] show ?thesis by (simp add: record_status_def)
next
  case False
  let ?w = "record_status d new document w"
  have db: "committed ?w = put_doc_status d new (clock w) (committed w)"
    using False assms(1) by (simp add: record_status_def flush_document_status_def put_doc_status_def clean_def)
  have "moves U (committed w) (committed ?w) [(d, doc_status_event new)]"
    using assms(2) schema_ok_put_doc_status unfolding db by (intro moves_quiet) (auto simp: sound_def)
  with False assms(1) show ?thesis
    by (auto simp: does_def record_status_def clean_def intro!: exI [of _ "[Committed (committed ?w) [(d, doc_status_event new)]]"])
qed

lemma does_recompute:
  assumes "clean w" "sound (committed w)"
  shows "does U w (snd (recompute_turn d r w))"
  using does_nothing [OF assms] does_record_status [OF assms]
  by (induction d r w rule: recompute_turn.induct) simp_all

text \<open>The UPDATE and the commit of one row, as it was loaded some time before.\<close>

lemma does_row:
  assumes clean: "clean w" and sound: "sound (committed w)" and old: "tracks (committed w) old" and new: "st_status new \<noteq> PENDING"
    and v: "v = emit_event d ev (flush_step old new w) \<and> (\<forall>s. ev \<noteq> step_event s QUEUED) \<or> v = flush_step old new w"
  shows "does {st_id old} w (commit v)"
proof -
  let ?P = "\<lambda>r. st_id r = st_id old" and ?f = "merge_step (clock w) old new"
  let ?db' = "(committed w)\<lparr>pipeline_steps := update_where ?P ?f (pipeline_steps (committed w))\<rparr>"
  have db: "committed (commit v) = ?db'" "pending v = [] \<or> pending v = [(d, ev)] \<and> (\<forall>s. ev \<noteq> step_event s QUEUED)"
    using v clean by (auto simp: clean_def flush_step_def)
  have claimed: "st_status r \<noteq> PENDING" if "r \<in> set (pipeline_steps (committed w))" "?P r" for r
    using old that distinct_key_eq [OF schema_okD(2), of "committed w"] sound unfolding tracks_def sound_def by metis
  have out: "st_status (?f r) \<noteq> PENDING" if "r \<in> set (pipeline_steps (committed w))" "?P r" for r
    using claimed [OF that] new by (simp add: merge_step_def)
  have f: "st_id (?f r) = st_id r \<and> step_key (?f r) = step_key r" for r by simp
  note upd = update_rows [where P = ?P and f = ?f, OF sound f out]
  have "unclaimed ?db' x = unclaimed (committed w) x" for x
    using upd(5) [of x] claimed sound unfolding sound_def
    by (auto simp: unclaimed_rows dest: distinct_key_eq [OF schema_okD(3)])
  moreover have "claims e s (pending v) = 0" for e s
    by (rule claims_other) (use db(2) in auto)
  ultimately have "moves {st_id old} (committed w) ?db' (pending v)"
    using upd(1-4) by (auto simp: moves_def)
  moreover have "trace v = trace w" using v by auto
  ultimately show ?thesis
    using db(1) by (auto simp: does_def clean_def intro!: exI [of _ "[Committed ?db' (pending v)]"])
qed

lemma does_claim:
  assumes clean: "clean w" and sound: "sound (committed w)"
  shows "does U w (snd (claim_step d s w))"
    and "fst (claim_step d s w) \<Longrightarrow> deliverable \<lparr>payload_document_id = d, payload_step = s\<rparr> (committed (snd (claim_step d s w)))"
proof -
  let ?P = "claimable d s" and ?f = "\<lambda>r. r\<lparr>st_status := QUEUED, st_updated_at := clock w\<rparr>"
  let ?w = "snd (claim_step d s w)" and ?x = "\<lparr>payload_document_id = d, payload_step = s\<rparr>"
  let ?db' = "(committed w)\<lparr>pipeline_steps := update_where ?P ?f (pipeline_steps (committed w))\<rparr>"
  have sch: "schema_ok (committed w)" using sound by (simp add: sound_def)
  have can: "fst (claim_step d s w) \<longleftrightarrow> unclaimed (committed w) ?x"
    using clean unfolding unclaimed_rows [OF sch]
    by (auto simp: claim_step_def claim_pending_step_def clean_def filter_empty_conv claimable_def step_key_def)
  define ns where "ns = (if fst (claim_step d s w) then [(d, step_event s QUEUED)] else [])"
  have w: "committed ?w = ?db'" "trace ?w = trace w @ [Committed ?db' ns]" "clean ?w"
    using clean by (simp_all add: claim_step_def claim_pending_step_def clean_def ns_def Let_def)
  have f: "st_id (?f r) = st_id r \<and> step_key (?f r) = step_key r" "st_status (?f r) \<noteq> PENDING" for r by (simp_all add: step_key_def)
  note upd = update_rows [where P = ?P and f = ?f, OF sound f]
  have match: "(\<exists>m \<in> set (pipeline_steps (committed w)). step_key m = key_of x \<and> ?P m) \<longleftrightarrow> x = ?x \<and> unclaimed (committed w) x" for x
    unfolding unclaimed_rows [OF sch] by (cases x) (auto simp: claimable_def step_key_def)
  have gone: "unclaimed ?db' x \<longleftrightarrow> unclaimed (committed w) x \<and> x \<noteq> ?x" for x
    using upd(5) [of x] match [of x] by (auto simp: step_key_def)
  have "claims (payload_document_id x) (payload_step x) ns =
      (if unclaimed (committed w) x \<and> \<not> unclaimed ?db' x then 1 else 0)" for x
    unfolding gone by (cases x) (auto simp: ns_def can claims_def)
  with upd(1-4) have "moves U (committed w) ?db' ns"
    by (auto simp: moves_def claimable_def step_key_def)
  with w show "does U w ?w" by (auto simp: does_def intro!: exI [of _ "[Committed ?db' ns]"])
  show "deliverable ?x (committed ?w)" if won: "fst (claim_step d s w)"
  proof -
    obtain m where m: "m \<in> set (pipeline_steps (committed w))" "step_key m = (d, s)" "?P m" using match [of ?x] won can by auto
    then have "?f m \<in> set (pipeline_steps ?db')" by (simp add: set_update_where)
    with m(2) f [of m] show ?thesis
      unfolding w(1) deliverable_tracks [OF upd(1) [unfolded sound_def, THEN conjunct1]] by force
  qed
qed

lemma does_publish:
  assumes "clean w" "sound (committed w)" "deliverable \<lparr>payload_document_id = d, payload_step = s\<rparr> (committed w)"
  shows "does U w (snd (publish_step d s w))"
proof -
  let ?w = "snd (publish_step d s w)"
  obtain es where es: "trace ?w = trace w @ es" "notified_of es = []" "\<forall>x \<in> set (sent_of es). deliverable x (committed w)"
    using publish_step_trace [of d s w] assms(3) by (auto split: sum.splits)
  have "moves U (committed w) (committed ?w) []"
    using assms(2) by (intro moves_quiet) (auto simp: sound_def)
  with es assms(1) show ?thesis unfolding does_def by (auto simp: clean_def)
qed

subsection \<open>One turn of each process\<close>

text \<open>The row that a worker's next turn updates.\<close>

fun worker_updates :: "phase \<Rightarrow> uuid set" where
  "worker_updates (Starting _ row _) = {st_id row}"
| "worker_updates (Executing _ row _) = {st_id row}"
| "worker_updates _ = {}"

fun worker_ok :: "database \<Rightarrow> payload \<Rightarrow> phase \<Rightarrow> bool" where
  "worker_ok db p (Loaded _ row) \<longleftrightarrow> tracks db row"
| "worker_ok db p (Starting _ row _) \<longleftrightarrow> tracks db row"
| "worker_ok db p (Executing _ row _) \<longleftrightarrow> tracks db row"
| "worker_ok db p (Sending t _ _) \<longleftrightarrow> deliverable \<lparr>payload_document_id = payload_document_id p, payload_step = t\<rparr> db"
| "worker_ok db p _ \<longleftrightarrow> True"

fun call_ok :: "database \<Rightarrow> call_phase \<Rightarrow> bool" where
  "call_ok db (Applying step) \<longleftrightarrow> tracks db step"
| "call_ok db _ \<longleftrightarrow> True"

fun scan_ok :: "database \<Rightarrow> scan_phase \<Rightarrow> bool" where
  "scan_ok db (InFlight rest _ _ _) \<longleftrightarrow> (\<forall>r \<in> set rest. tracks db r)"
| "scan_ok db (InFlightFailed _ _ rest _ _) \<longleftrightarrow> (\<forall>r \<in> set rest. tracks db r)"
| "scan_ok db (Overdue rest _ _) \<longleftrightarrow> (\<forall>r \<in> set rest. tracks db r)"
| "scan_ok db (OverdueFailed _ _ rest _) \<longleftrightarrow> (\<forall>r \<in> set rest. tracks db r)"
| "scan_ok db _ \<longleftrightarrow> True"

lemma tracks_same: "st_id r' = st_id r \<Longrightarrow> step_key r' = step_key r \<Longrightarrow> tracks db r' = tracks db r"
  by (simp add: tracks_def)

lemma doesD:
  assumes "does U w w'"
  shows "clean w'" "sound (committed w')" "keeps (committed w) (committed w')"
  using assms by (auto simp: does_def moves_def)

lemma worker_turn:
  assumes clean: "clean w" and sound: "sound (committed w)" and msg: "deliverable p (committed w)" and ph: "worker_ok (committed w) p ph"
    and turn: "turn cfg dr p ph w = (ph', w')"
  shows "does (worker_updates ph) w w' \<and> worker_ok (committed w') p ph'"
proof (cases ph)
  case Received
  have work: "working w = committed w" and sch: "schema_ok (committed w)" using clean sound by (simp_all add: clean_def sound_def)
  have "tracks (committed w) row" if "map_of (load_steps (payload_document_id p) w) (payload_step p) = Some row" for row
  proof -
    have row: "current_row (committed w) p = Some row"
      using that load_steps_lookup [OF clean sch] by simp
    with msg have "st_status row \<noteq> PENDING" by (simp add: deliverable_def)
    with row find_step_iff [OF sch] show ?thesis by (auto simp: tracks_def)
  qed
  with Received turn does_nothing [OF clean sound] show ?thesis
    by (auto simp: check_row_def split: option.split)
next
  case (Loaded loaded row)
  with turn ph does_nothing [OF clean sound] show ?thesis
    by (auto simp: check_document_def split: option.split)
next
  case (Starting loaded row document)
  obtain row' w1 where mr: "mark_running (payload_step p) (payload_document_id p) row w = (row', w1)" by force
  have "does {st_id row} w w1" and row': "st_id row' = st_id row" "step_key row' = step_key row"
    using mr ph Starting unfolding mark_running_def Let_def
    by (auto intro!: does_row [OF clean sound] simp: step_key_def)
  with Starting turn mr ph doesD(3) keeps_tracks tracks_same [OF row'] show ?thesis by fastforce
next
  case (Executing loaded row document)
  have tr: "tracks (committed w) row" using ph Executing by simp
  show ?thesis
  proof (cases "run_step dr (payload_step p) loaded")
    case (Inl e)
    with Executing turn tr show ?thesis
      by (auto simp: run_and_save_def record_failure_def Let_def intro!: does_row [OF clean sound tr] split: if_splits)
  next
    case (Inr out)
    obtain row' w1 where so: "save_output (payload_step p) (payload_document_id p) row out w = (row', w1)" by force
    have "does {st_id row} w w1"
      using so by (auto simp: save_output_defs Let_def intro!: does_row [OF clean sound tr] split: if_splits)
    with Executing turn so Inr show ?thesis by (auto simp: run_and_save_def)
  qed
next
  case (Claiming ts document)
  show ?thesis
  proof (cases ts)
    case Nil
    with Claiming turn does_nothing [OF clean sound] show ?thesis by auto
  next
    case (Cons t ts')
    with Claiming turn does_claim [OF clean sound, where d = "payload_document_id p" and s = t] show ?thesis
      by (auto split: prod.splits if_splits)
  qed
next
  case (Sending t ts document)
  with turn ph does_publish [OF clean sound, of "payload_document_id p" t] show ?thesis
    by (auto split: prod.splits sum.splits)
next
  case (Recording new document)
  with turn does_record_status [OF clean sound] show ?thesis by auto
qed (use turn does_nothing [OF clean sound] in auto)

lemma look_up_tracks:
  assumes "clean w" "sound (committed w)" "look_up p w = Applying step"
  shows "tracks (committed w) step"
proof -
  have "get_step_by_job_id (wp_job_id p) w = Inr (Some step)"
    using assms(3) by (auto simp: look_up_def split: sum.splits option.splits if_splits)
  then have "step \<in> set (filter (\<lambda>r. st_external_job_id r = Some (wp_job_id p)) (pipeline_steps (committed w)))"
    using assms(1) by (simp add: get_step_by_job_id_def scalar_one_or_none_Some clean_def)
  with assms(2) show ?thesis by (auto simp: tracks_def sound_def jobs_claimed_def)
qed

lemma does_record_webhook:
  assumes "clean w" "sound (committed w)"
  shows "does U w (record_webhook new_id job_id body w)"
proof -
  let ?w = "record_webhook new_id job_id body w"
  have db: "committed ?w = (committed w)\<lparr>webhook_events := webhook_events (committed ?w)\<rparr>" "trace ?w = trace w @ [Committed (committed ?w) []]"
    "clean ?w"
    using assms(1) by (simp_all add: record_webhook_def clean_def)
  have "schema_ok (committed ?w)"
    using assms(2) by (subst db(1)) (simp add: sound_def schema_ok_def)
  then have "moves U (committed w) (committed ?w) []"
    using db(1) assms(2) by (intro moves_quiet) (auto simp: record_webhook_def assms(1) [unfolded clean_def])
  with db(2,3) show ?thesis by (auto simp: does_def intro!: exI [of _ "[Committed (committed ?w) []]"])
qed

lemma one_call_turn:
  assumes clean: "clean w" and sound: "sound (committed w)" and ph: "call_ok (committed w) ph"
    and turn: "call_turn parse_json new_id raw p ph w = (ph', w')"
  shows "does (call_updates ph) w w' \<and> call_ok (committed w') ph'"
proof (cases ph)
  case Arrived
  with turn does_nothing [OF clean sound] does_record_webhook [OF clean sound] show ?thesis
    by (auto simp: record_call_def split: option.splits)
next
  case LookingUp
  with turn does_nothing [OF clean sound] look_up_tracks [OF clean sound, of p] show ?thesis
    by (cases ph') auto
next
  case (Applying step)
  have "does {st_id step} w (partner_commit p step w)"
    unfolding partner_commit_def
  proof (rule does_row [where d = "st_document_id step" and ev = "step_event EXTERNAL_CALL (if wp_status p = COMPLETED then DONE else ERROR)",
        OF clean sound])
    show "tracks (committed w) step" using ph Applying by simp
    show "st_status (partner_row p (clock w) step) \<noteq> PENDING" by (simp add: partner_row_def)
  qed simp
  with Applying turn show ?thesis by auto
next
  case (CallDeriving d r)
  have "call_ok db (conclude d r')" for db r' by (cases r') simp_all
  with CallDeriving turn does_recompute [OF clean sound, where d = d and r = r] show ?thesis
    by (auto split: prod.splits)
qed (use turn does_nothing [OF clean sound] in auto)

lemma does_mark_failed:
  assumes "clean w" "sound (committed w)" "tracks (committed w) step"
  shows "does {st_id step} w (mark_failed step reason w)"
  unfolding mark_failed_def Let_def by (rule does_row [OF assms]) auto

lemma does_commit:
  assumes "clean w" "sound (committed w)"
  shows "does U w (commit w)"
proof -
  have "moves U (committed w) (committed w) []"
    using assms(2) by (intro moves_quiet) (auto simp: sound_def)
  with assms(1) show ?thesis
    by (auto simp: does_def clean_def intro!: exI [of _ "[Committed (committed w) []]"])
qed

lemma stale_tracks:
  assumes "clean w" "r \<in> set (select_for_update locked sts cutoff w)" "PENDING \<notin> set sts"
  shows "tracks (committed w) r"
  using assms by (auto simp: tracks_def select_for_update_def lock_stale_steps_def clean_def)

lemma one_scan_turn:
  assumes clean: "clean w" and sound: "sound (committed w)" and ph: "scan_ok (committed w) ph"
    and turn: "scan_turn cfg locked ph w = (ph', w')"
  shows "does (scan_updates cfg ph) w w' \<and> scan_ok (committed w') ph'"
proof -
  have keep: "\<forall>r \<in> set rest. tracks db' r" if "\<forall>r \<in> set rest. tracks (committed w) r" "keeps (committed w) db'" for rest db'
    using that keeps_tracks by blast
  show ?thesis
  proof (cases ph)
    case Selecting
    with turn does_nothing [OF clean sound] stale_tracks [OF clean] show ?thesis by (auto simp: Let_def)
  next
    case (InFlight rest acted now own)
    show ?thesis
    proof (cases rest)
      case Nil
      with InFlight turn does_commit [OF clean sound] show ?thesis by auto
    next
      case (Cons step rest')
      have step: "tracks (committed w) step" and rest': "\<forall>r \<in> set rest'. tracks (committed w) r"
        using ph InFlight Cons by simp_all
      obtain r w1 where eq: "publish_step (st_document_id step) (st_name step) w = (r, w1)" by force
      have "does {} w (snd (publish_step (st_document_id step) (st_name step) w))"
        by (rule does_publish [OF clean sound tracks_deliverable]) (use sound step in \<open>simp_all add: sound_def\<close>)
      then have pub: "does {} w w1" by (simp add: eq)
      note failed = does_mark_failed [OF clean sound step, of "''exhausted retries (reaped)''"]
      from InFlight Cons turn eq pub failed keep [OF rest' doesD(3) [OF pub]] keep [OF rest' doesD(3) [OF failed]] rest'
        does_nothing [OF clean sound] show ?thesis
        by (auto split: sum.splits if_splits)
    qed
  next
    case (Overdue rest acted own)
    show ?thesis
    proof (cases rest)
      case Nil
      with Overdue turn does_nothing [OF clean sound] show ?thesis by auto
    next
      case (Cons step rest')
      have step: "tracks (committed w) step" and rest': "\<forall>r \<in> set rest'. tracks (committed w) r"
        using ph Overdue Cons by simp_all
      note failed = does_mark_failed [OF clean sound step, of "''partner callback timeout''"]
      from Overdue Cons turn failed keep [OF rest' doesD(3) [OF failed]] show ?thesis by auto
    qed
  next
    case (InFlightFailed d r rest acted now)
    have rec: "does {} w (snd (recompute_turn d r w))" by (rule does_recompute [OF clean sound])
    from InFlightFailed turn ph rec keep [OF _ doesD(3) [OF rec], of rest] show ?thesis
      by (auto split: prod.splits recompute.splits)
  next
    case (OverdueFailed d r rest acted)
    have rec: "does {} w (snd (recompute_turn d r w))" by (rule does_recompute [OF clean sound])
    from OverdueFailed turn ph rec keep [OF _ doesD(3) [OF rec], of rest] show ?thesis
      by (auto split: prod.splits recompute.splits)
  qed (use turn does_nothing [OF clean sound] stale_tracks [OF clean] in \<open>auto simp: Let_def\<close>)
qed

end
