(* ===== verification/Overlap.thy ===== *)
theory Overlap
  imports Interference
begin

section \<open>Workers, scans and partner calls that overlap\<close>

text \<open>
  Any number of workers, scans and partner calls run at the same time, and a scheduler chooses
  whose turn it is. Messages are taken from the queue and come back from it as in \<open>Cluster\<close>; any
  process may die at any point. A turn that updates a row waits while a scan has locked this row.
  Uploads run as a whole, since nothing else knows their rows before they are committed. Messages
  may be duplicated, by the reaper and by workers that die.
\<close>

datatype process =
    Worker payload phase
  | Callback uuid string webhook_payload call_phase
  | Reaper scan_phase

record overlap =
  store :: world
  messages :: "payload multiset"
  running :: "process list"

datatype happening =
    Take payload
  | Receive uuid string "string option"
  | Launch
  | Advance nat draws
  | Leave nat
  | Kill nat
  | Accept operation
  | Meanwhile timestamp "bool list"

fun process_turn :: "deployment \<Rightarrow> uuid set \<Rightarrow> draws \<Rightarrow> process \<Rightarrow> world \<Rightarrow> process \<times> world" where
  "process_turn env locked dr (Worker p ph) w =
     (case turn (env_settings env) dr p ph w of (ph', w') \<Rightarrow> (Worker p ph', w'))"
| "process_turn env locked dr (Callback new_id raw p ph) w =
     (case call_turn (env_parse_json env) new_id raw p ph w of (ph', w') \<Rightarrow> (Callback new_id raw p ph', w'))"
| "process_turn env locked dr (Reaper ph) w =
     (case scan_turn (env_settings env) locked ph w of (ph', w') \<Rightarrow> (Reaper ph', w'))"

fun locks :: "process \<Rightarrow> uuid set" where
  "locks (Reaper ph) = scan_locks ph"
| "locks _ = {}"

fun updates :: "settings \<Rightarrow> process \<Rightarrow> uuid set" where
  "updates cfg (Worker p ph) = worker_updates ph"
| "updates cfg (Callback new_id raw p ph) = call_updates ph"
| "updates cfg (Reaper ph) = scan_updates cfg ph"

fun may_draw :: "draws \<Rightarrow> process \<Rightarrow> database \<Rightarrow> bool" where
  "may_draw dr (Worker p ph) db = draw_ok dr (p, ph) db"
| "may_draw dr _ db = True"

text \<open>What a process that is through gives back to the queue, and one that dies.\<close>

fun given_back :: "process \<Rightarrow> payload multiset option" where
  "given_back (Worker p ph) = returned p ph"
| "given_back (Callback new_id raw p (Answered a)) = Some {#}"
| "given_back (Reaper (Scanned r)) = Some {#}"
| "given_back _ = None"

fun orphaned :: "process \<Rightarrow> payload multiset" where
  "orphaned (Worker p ph) = {#p#}"
| "orphaned _ = {#}"

definition locked_by_others :: "nat \<Rightarrow> overlap \<Rightarrow> uuid set" where
  "locked_by_others i c = \<Union> (set (map locks (drop_nth i (running c))))"

definition advance :: "deployment \<Rightarrow> nat \<Rightarrow> draws \<Rightarrow> overlap \<Rightarrow> overlap" where
  "advance env i dr c =
     (case process_turn env (locked_by_others i c) dr (running c ! i) (store c) of (pr, w') \<Rightarrow>
        c\<lparr>store := w', messages := messages c + mset (sent_of (new_effects (store c) w')), running := (running c)[i := pr]\<rparr>)"

text \<open>The route's checks, before it opens a session.\<close>

definition accepted_call :: "deployment \<Rightarrow> string \<Rightarrow> string option \<Rightarrow> webhook_payload option" where
  "accepted_call env raw signature =
     (if verify_signature (env_settings env) (env_hmac env) raw signature = Inr True
      then model_validate_json (env_parse_json env) (env_parse_datetime env) raw else None)"

fun is_upload :: "operation \<Rightarrow> bool" where
  "is_upload (Upload d ids user filename data) = True"
| "is_upload op = False"

fun happen :: "deployment \<Rightarrow> happening \<Rightarrow> overlap \<Rightarrow> overlap option" where
  "happen env (Take p) c =
     (if p \<in># messages c then Some (c\<lparr>messages := messages c - {#p#}, running := running c @ [Worker p Received]\<rparr>) else None)"
| "happen env (Receive new_id raw signature) c =
     (case accepted_call env raw signature of
        None \<Rightarrow> Some c
      | Some p \<Rightarrow> Some (c\<lparr>running := running c @ [Callback new_id raw p Arrived]\<rparr>))"
| "happen env Launch c = Some (c\<lparr>running := running c @ [Reaper Selecting]\<rparr>)"
| "happen env (Advance i dr) c =
     (if i < length (running c) \<and> updates (env_settings env) (running c ! i) \<inter> locked_by_others i c = {} \<and>
         may_draw dr (running c ! i) (committed (store c))
      then Some (advance env i dr c) else None)"
| "happen env (Leave i) c =
     (if i < length (running c)
      then map_option (\<lambda>M. c\<lparr>messages := messages c + M, running := drop_nth i (running c)\<rparr>) (given_back (running c ! i))
      else None)"
| "happen env (Kill i) c =
     (if i < length (running c)
      then Some (c\<lparr>messages := messages c + orphaned (running c ! i), running := drop_nth i (running c)\<rparr>) else None)"
| "happen env (Accept op) c =
     (if is_upload op \<and> enabled env op (store c) (messages c)
      then Some (c\<lparr>store := run_operation env op (store c),
        messages := messages c + mset (sent_of (new_effects (store c) (run_operation env op (store c))))\<rparr>)
      else None)"
| "happen env (Meanwhile now outcomes) c = Some (c\<lparr>store := (store c)\<lparr>clock := now, faults := outcomes\<rparr>\<rparr>)"

fun overlaps :: "deployment \<Rightarrow> happening list \<Rightarrow> overlap \<Rightarrow> overlap option" where
  "overlaps env [] c = Some c"
| "overlaps env (h # hs) c = (case happen env h c of None \<Rightarrow> None | Some c' \<Rightarrow> overlaps env hs c')"

lemma overlaps_append:
  "overlaps env (xs @ ys) c = (case overlaps env xs c of None \<Rightarrow> None | Some c' \<Rightarrow> overlaps env ys c')"
  by (induction env xs c rule: overlaps.induct) (auto split: option.splits)

subsection \<open>The invariant\<close>

fun process_ok :: "database \<Rightarrow> process \<Rightarrow> bool" where
  "process_ok db (Worker p ph) \<longleftrightarrow> deliverable p db \<and> worker_ok db p ph"
| "process_ok db (Callback new_id raw p ph) \<longleftrightarrow> call_ok db ph"
| "process_ok db (Reaper ph) \<longleftrightarrow> scan_ok db ph"

text \<open>While a scan has its locks the rows that it has read are the rows in the database.\<close>

fun locked_rows :: "database \<Rightarrow> process \<Rightarrow> bool" where
  "locked_rows db (Reaper (InFlight rest acted now own)) \<longleftrightarrow>
     own \<noteq> [] \<longrightarrow> st_id ` set rest \<subseteq> set own \<and> set rest \<subseteq> set (pipeline_steps db)"
| "locked_rows db (Reaper (Overdue rest acted own)) \<longleftrightarrow>
     own \<noteq> [] \<longrightarrow> st_id ` set rest \<subseteq> set own \<and> set rest \<subseteq> set (pipeline_steps db)"
| "locked_rows db _ \<longleftrightarrow> True"

definition overlap_ok :: "overlap \<Rightarrow> bool" where
  "overlap_ok c \<longleftrightarrow> clean (store c) \<and> sound (committed (store c)) \<and>
     (\<forall>x \<in># messages c. deliverable x (committed (store c))) \<and>
     (\<forall>pr \<in> set (running c). process_ok (committed (store c)) pr \<and> locked_rows (committed (store c)) pr)"

lemma overlap_okD:
  assumes "overlap_ok c"
  shows "clean (store c)" "sound (committed (store c))" "x \<in># messages c \<Longrightarrow> deliverable x (committed (store c))"
    and "pr \<in> set (running c) \<Longrightarrow> process_ok (committed (store c)) pr"
    and "pr \<in> set (running c) \<Longrightarrow> locked_rows (committed (store c)) pr"
  using assms by (auto simp: overlap_ok_def)

text \<open>What the other processes rely on.\<close>

lemma process_ok_kept:
  assumes "keeps db db'" "schema_ok db" "schema_ok db'" "process_ok db pr"
  shows "process_ok db' pr"
proof -
  note keep = keeps_tracks [OF assms(1)] keeps_deliverable [OF assms(1-3)]
  show ?thesis
  proof (cases pr)
    case (Worker p ph)
    with assms(4) keep show ?thesis by (cases ph) auto
  next
    case (Callback new_id raw p ph)
    with assms(4) keep show ?thesis by (cases ph) auto
  next
    case (Reaper ph)
    with assms(4) keep show ?thesis by (cases ph) auto
  qed
qed

lemma tracked_not_pending:
  assumes "schema_ok db" "tracks db r" "r \<in> set (pipeline_steps db)"
  shows "st_status r \<noteq> PENDING"
  using assms distinct_key_eq [OF schema_okD(2) [OF assms(1)]] unfolding tracks_def by metis

lemma locked_rows_kept:
  assumes stay: "\<And>q. q \<in> set (pipeline_steps db) \<Longrightarrow> st_id q \<notin> U \<Longrightarrow> st_status q \<noteq> PENDING \<Longrightarrow> q \<in> set (pipeline_steps db')"
    and "schema_ok db" "U \<inter> locks pr = {}" "process_ok db pr" "locked_rows db pr"
  shows "locked_rows db' pr"
proof -
  have keep: "set rest \<subseteq> set (pipeline_steps db')"
    if "set rest \<subseteq> set (pipeline_steps db)" "\<forall>r \<in> set rest. tracks db r" "st_id ` set rest \<subseteq> set own" "U \<inter> set own = {}" for rest own
    using that stay tracked_not_pending [OF assms(2)] by blast
  show ?thesis
  proof (cases pr)
    case (Reaper ph)
    with assms(3-5) show ?thesis
      by (cases ph) (auto dest: keep [THEN subsetD])
  qed simp_all
qed

lemma scan_turn_locked_rows:
  assumes clean: "clean w" and sound: "sound (committed w)" and ph: "scan_ok (committed w) ph" "locked_rows (committed w) (Reaper ph)"
    and turn: "scan_turn cfg locked ph w = (ph', w')"
  shows "locked_rows (committed w') (Reaper ph')"
proof (cases ph)
  case Selecting
  with turn clean show ?thesis by (auto simp: Let_def select_for_update_def lock_stale_steps_def clean_def)
next
  case (SelectingOverdue acted now)
  with turn clean show ?thesis by (auto simp: Let_def select_for_update_def lock_stale_steps_def clean_def)
next
  case (InFlight rest acted now own)
  show ?thesis
  proof (cases rest)
    case (Cons step rest')
    have "committed w1 = committed w" if "publish_step d s w = (r, w1)" for d s r w1
      using publish_step_frame(1) [of d s w] that by simp
    with InFlight Cons turn ph(2) show ?thesis
      by (auto split: if_splits prod.splits sum.splits)
  qed (use InFlight turn in auto)
next
  case (Overdue rest acted own)
  with turn show ?thesis by (cases rest) auto
next
  case (InFlightFailed d r rest acted now)
  with turn show ?thesis by (auto split: prod.splits recompute.splits)
next
  case (OverdueFailed d r rest acted)
  with turn show ?thesis by (auto split: prod.splits recompute.splits)
qed (use turn in auto)

lemma process_turn_ok:
  assumes clean: "clean w" and sound: "sound (committed w)" and pr: "process_ok (committed w) pr" "locked_rows (committed w) pr"
    and turn: "process_turn env locked dr pr w = (pr', w')"
  shows "does (updates (env_settings env) pr) w w'" "process_ok (committed w') pr'" "locked_rows (committed w') pr'"
proof -
  have "does (updates (env_settings env) pr) w w' \<and> process_ok (committed w') pr' \<and> locked_rows (committed w') pr'"
  proof (cases pr)
    case (Worker p ph)
    obtain ph' where t: "turn (env_settings env) dr p ph w = (ph', w')" and pr': "pr' = Worker p ph'"
      using Worker turn by (auto split: prod.splits)
    have one: "does (worker_updates ph) w w' \<and> worker_ok (committed w') p ph'"
      by (rule worker_turn [OF clean sound _ _ t]) (use pr Worker in simp_all)
    then have "deliverable p (committed w')"
      using doesD(2,3) [OF conjunct1 [OF one]] sound pr(1) Worker by (auto intro: keeps_deliverable simp: sound_def)
    with one Worker pr' show ?thesis by simp
  next
    case (Callback new_id raw p ph)
    obtain ph' where t: "call_turn (env_parse_json env) new_id raw p ph w = (ph', w')" and pr': "pr' = Callback new_id raw p ph'"
      using Callback turn by (auto split: prod.splits)
    have "does (call_updates ph) w w' \<and> call_ok (committed w') ph'"
      by (rule one_call_turn [OF clean sound _ t]) (use pr Callback in simp)
    with Callback pr' show ?thesis by simp
  next
    case (Reaper ph)
    obtain ph' where t: "scan_turn (env_settings env) locked ph w = (ph', w')" and pr': "pr' = Reaper ph'"
      using Reaper turn by (auto split: prod.splits)
    have "does (scan_updates (env_settings env) ph) w w' \<and> scan_ok (committed w') ph'"
      by (rule one_scan_turn [OF clean sound _ t]) (use pr Reaper in simp)
    moreover have "locked_rows (committed w') (process.Reaper ph')"
      by (rule scan_turn_locked_rows [OF clean sound _ _ t]) (use pr Reaper in simp_all)
    ultimately show ?thesis using Reaper pr' by simp
  qed
  then show "does (updates (env_settings env) pr) w w'" "process_ok (committed w') pr'" "locked_rows (committed w') pr'" by simp_all
qed

subsection \<open>What a run does\<close>

text \<open>The steps that are claimed between two states: every one that leaves PENDING, and every one that
  is new and not PENDING any more, but for the first step of a new document.\<close>

definition claimed_between :: "database \<Rightarrow> database \<Rightarrow> payload \<Rightarrow> bool" where
  "claimed_between db db' x \<longleftrightarrow>
     \<not> deliverable x db \<and> deliverable x db' \<and> \<not> (current_row db x = None \<and> payload_step x = OCR)"

definition history :: "database \<Rightarrow> database \<Rightarrow> (uuid \<times> event) list \<Rightarrow> bool" where
  "history db db' ns \<longleftrightarrow> keeps db db' \<and>
     (\<forall>x. payload_step x = OCR \<longrightarrow> current_row db x = None \<longrightarrow> current_row db' x \<noteq> None \<longrightarrow> deliverable x db') \<and>
     (\<forall>x. claims (payload_document_id x) (payload_step x) ns = (if claimed_between db db' x then 1 else 0))"

lemma keeps_row:
  assumes "keeps db db'" "schema_ok db" "schema_ok db'" "find_step d s db = Some q"
  obtains q' where "find_step d s db' = Some q'" "st_id q' = st_id q" "st_status q \<noteq> PENDING \<Longrightarrow> st_status q' \<noteq> PENDING"
proof -
  from assms(4) have q: "q \<in> set (pipeline_steps db)" "step_key q = (d, s)"
    using find_step_iff [OF assms(2)] by (simp_all add: step_key_def)
  with assms(1) obtain q' where "q' \<in> set (pipeline_steps db')" "st_id q' = st_id q" "step_key q' = (d, s)"
    "st_status q \<noteq> PENDING \<longrightarrow> st_status q' \<noteq> PENDING" unfolding keeps_def by metis
  with that find_step_iff [OF assms(3)] show thesis by (auto simp: step_key_def)
qed

lemma history_refl: "history db db []"
  by (simp add: history_def claimed_between_def claims_def)

lemma history_trans:
  assumes "history a b ns" "history b c ms" "schema_ok a" "schema_ok b" "schema_ok c"
  shows "history a c (ns @ ms)"
proof -
  have keep: "keeps a b" "keeps b c" using assms(1,2) by (simp_all add: history_def)
  have row: "current_row b x \<noteq> None" if "current_row a x \<noteq> None" for x
    using that keeps_row [OF keep(1) assms(3,4)] by (metis not_None_eq)
  note deliver = keeps_deliverable [OF keep(1) assms(3,4)] keeps_deliverable [OF keep(2) assms(4,5)]
  have first: "deliverable x b" if "payload_step x = OCR" "current_row a x = None" "current_row b x \<noteq> None" for x
    using that assms(1) by (simp add: history_def)
  have second: "deliverable x c" if "payload_step x = OCR" "current_row b x = None" "current_row c x \<noteq> None" for x
    using that assms(2) by (simp add: history_def)
  have no_row: "\<not> deliverable x db" if "current_row db x = None" for x db using that by (simp add: deliverable_def)
  have "(if claimed_between a c x then 1 else 0) =
      (if claimed_between a b x then 1 else (0::nat)) + (if claimed_between b c x then 1 else 0)" for x
    using row [of x] deliver [of x] first [of x] no_row unfolding claimed_between_def by auto
  then have "claims (payload_document_id x) (payload_step x) (ns @ ms) = (if claimed_between a c x then 1 else 0)" for x
    using assms(1,2) by (simp add: history_def)
  moreover have "deliverable x c" if "payload_step x = OCR" "current_row a x = None" "current_row c x \<noteq> None" for x
    using that first [of x] second [of x] deliver(2) [of x] by blast
  ultimately show ?thesis
    unfolding history_def using keeps_trans [OF keep] by blast
qed

lemma moves_history:
  assumes "moves U db db' ns" "schema_ok db"
  shows "history db db' ns"
proof -
  have sch: "schema_ok db'" using movesD(1) [OF assms(1)] by (simp add: sound_def)
  have none: "current_row db' x = None \<longleftrightarrow> current_row db x = None" for x
    unfolding find_step_None movesD(3) [OF assms(1)] ..
  have "claimed_between db db' x \<longleftrightarrow> unclaimed db x \<and> \<not> unclaimed db' x" for x
  proof (cases "current_row db x = None")
    case True
    with none [of x] show ?thesis by (simp add: claimed_between_def unclaimed_def deliverable_def status_of_def)
  next
    case False
    with none [of x] show ?thesis by (auto simp: claimed_between_def unclaimed_def deliverable_def status_of_def)
  qed
  with movesD(5) [OF assms(1)] have "claims (payload_document_id x) (payload_step x) ns = (if claimed_between db db' x then 1 else 0)" for x
    by simp
  moreover have "deliverable x db'" if "current_row db x = None" "current_row db' x \<noteq> None" for x
    using that none [of x] by simp
  ultimately show ?thesis unfolding history_def using movesD(2) [OF assms(1)] by auto
qed

lemma sound_pipeline:
  assumes "pipeline_ok cfg db"
  shows "sound db"
proof -
  have "st_status r \<noteq> PENDING" if "r \<in> set (pipeline_steps db)" "st_external_job_id r \<noteq> None" for r
    using pipeline_okD(5) [OF assms that(1)] that(2) by (auto simp: step_row_ok_def)
  with pipeline_okD(1) [OF assms] show ?thesis by (simp add: sound_def jobs_claimed_def)
qed

text \<open>An upload.\<close>

lemma upload_history:
  fixes cfg abspath filename data
  assumes clean: "clean w" and sound: "sound (committed w)" and "user \<in> set (app_users (committed w))" "fresh_ids d ids (committed w)"
  defines "w' \<equiv> snd (upload_document cfg abspath d ids user filename data w)"
  shows "clean w'" "sound (committed w')"
    and "\<exists>es. trace w' = trace w @ es \<and> history (committed w) (committed w') (notified_of es) \<and> (\<forall>x \<in> set (sent_of es). deliverable x (committed w'))"
    and "set (pipeline_steps (committed w)) \<subseteq> set (pipeline_steps (committed w'))"
proof -
  let ?x = "\<lparr>payload_document_id = d, payload_step = OCR\<rparr>"
  let ?db = "uploaded cfg abspath d ids user (upload_name filename) (clock w) (committed w)"
  note sch = sound [unfolded sound_def, THEN conjunct1]
  define ms where "ms = (if faults w = [] \<or> \<not> hd (faults w) then [?x] else [])"
  have up: "w' = after_upload cfg abspath d ids user (upload_name filename) data (map Published ms) w"
  proof (cases "faults w = [] \<or> \<not> hd (faults w)")
    case True
    from upload_document_up [OF clean this] True show ?thesis by (simp add: w'_def ms_def)
  next
    case False
    then obtain fs where "faults w = True # fs" by (cases "faults w") auto
    from upload_document_down [OF clean this] this show ?thesis by (simp add: w'_def ms_def)
  qed
  then have db: "committed w' = ?db" "trace w' = trace w @ Committed ?db [] # map Published ms" "clean w'"
    by (simp_all add: after_upload_def Let_def clean_def)
  have find: "find_step e s ?db = (if e = d then Some (new_step (ids s) d s (if s = OCR then QUEUED else PENDING) (clock w))
      else find_step e s (committed w))" for e s
    using find_step_add_document [OF sch assms(4)] by (simp add: uploaded_def)
  have sch': "schema_ok ?db"
    unfolding uploaded_def by (rule schema_ok_add_document [OF sch assms(3,4)]) (simp_all add: new_document_def)
  have rows: "set (pipeline_steps ?db) = set (pipeline_steps (committed w)) \<union> set (new_steps ids d (clock w))"
    by (simp add: uploaded_def add_document_def)
  then have "jobs_claimed ?db"
    using sound by (auto simp: jobs_claimed_def sound_def new_steps_def new_step_def)
  with sch' db(1) show "sound (committed w')" by (simp add: sound_def)
  show "clean w'" by (rule db(3))
  show "set (pipeline_steps (committed w)) \<subseteq> set (pipeline_steps (committed w'))" using rows db(1) by simp
  have keep: "keeps (committed w) ?db" using rows by (auto simp: keeps_def)
  have old: "find_step d s (committed w) = None" for s
  proof (rule ccontr)
    assume "find_step d s (committed w) \<noteq> None"
    then obtain r where "r \<in> set (pipeline_steps (committed w))" "st_document_id r = d"
      using find_step_iff [OF sch] by auto
    with schema_okD(6) [OF sch] assms(4) show False by (auto simp: fresh_ids_def)
  qed
  have new: "deliverable x ?db \<longleftrightarrow> x = ?x \<or> deliverable x (committed w)" for x
    using old by (cases x) (auto simp: deliverable_def find new_step_def)
  have no_row: "current_row (committed w) ?x = None" using old by simp
  have "\<not> claimed_between (committed w) ?db x" for x
    unfolding claimed_between_def new using no_row by auto
  moreover have "deliverable x ?db" if "payload_step x = OCR" "current_row (committed w) x = None" "current_row ?db x \<noteq> None" for x
    using that find by (cases "payload_document_id x = d") (auto simp: new)
  moreover have "claims e s [] = 0" for e s by (simp add: claims_def)
  ultimately have hist: "history (committed w) ?db []"
    unfolding history_def using keep by auto
  have es: "notified_of (Committed ?db [] # map Published ms) = []" "set (sent_of (Committed ?db [] # map Published ms)) \<subseteq> {?x}"
    by (simp_all add: ms_def)
  have sent: "\<forall>x \<in> set (sent_of (Committed ?db [] # map Published ms)). deliverable x ?db"
    using es(2) new by blast
  show "\<exists>es. trace w' = trace w @ es \<and> history (committed w) (committed w') (notified_of es) \<and>
      (\<forall>x \<in> set (sent_of es). deliverable x (committed w'))"
    by (intro exI [of _ "Committed ?db [] # map Published ms"] conjI) (use db(1,2) es(1) hist sent in simp_all)
qed

subsection \<open>One happening\<close>

lemma set_drop_nth: "set (drop_nth i xs) \<subseteq> set xs"
  by (auto simp: drop_nth_def dest: in_set_takeD in_set_dropD)

lemma overlap_ok_store:
  assumes ok: "overlap_ok c" and clean: "clean w'" and sound: "sound (committed w')" and keep: "keeps (committed (store c)) (committed w')"
    and locked: "\<And>pr. pr \<in> set prs \<Longrightarrow> pr \<in> set (running c) \<Longrightarrow> locked_rows (committed w') pr"
    and new: "\<And>pr. pr \<in> set prs \<Longrightarrow> pr \<notin> set (running c) \<Longrightarrow> process_ok (committed w') pr \<and> locked_rows (committed w') pr"
    and M: "\<And>x. x \<in># M \<Longrightarrow> x \<in># messages c \<or> deliverable x (committed w')"
  shows "overlap_ok \<lparr>store = w', messages = M, running = prs\<rparr>"
proof -
  have sch: "schema_ok (committed (store c))" "schema_ok (committed w')"
    using overlap_okD(2) [OF ok] sound by (simp_all add: sound_def)
  from overlap_okD(3,4) [OF ok] process_ok_kept [OF keep sch] keeps_deliverable [OF keep sch] locked new M clean sound
  show ?thesis unfolding overlap_ok_def by simp blast
qed

lemma happen_advance:
  assumes ok: "overlap_ok c" and h: "happen env (Advance i dr) c = Some c'"
  shows "overlap_ok c' \<and> (\<exists>es. trace (store c') = trace (store c) @ es \<and> history (committed (store c)) (committed (store c')) (notified_of es))"
proof -
  note inv = overlap_okD [OF ok]
  let ?pr = "running c ! i" and ?locked = "locked_by_others i c"
  obtain pr' w' where t: "process_turn env ?locked dr ?pr (store c) = (pr', w')" by force
  from h have i: "i < length (running c)" "updates (env_settings env) ?pr \<inter> ?locked = {}"
    and c': "c' = \<lparr>store = w', messages = messages c + mset (sent_of (new_effects (store c) w')), running = (running c)[i := pr']\<rparr>"
    using t by (auto simp: advance_def split: if_splits)
  have mem: "?pr \<in> set (running c)" using i(1) by simp
  note one = process_turn_ok [OF inv(1,2) inv(4) [OF mem] inv(5) [OF mem] t]
  from one(1) obtain es where es: "trace w' = trace (store c) @ es" "clean w'"
    "moves (updates (env_settings env) ?pr) (committed (store c)) (committed w') (notified_of es)"
    "\<forall>x \<in> set (sent_of es). deliverable x (committed w')" unfolding does_def by blast
  note mv = movesD [OF es(3)]
  have sch: "schema_ok (committed (store c))" using inv(2) by (simp add: sound_def)
  have others: "locked_rows (committed w') pr" if "pr \<in> set ((running c)[i := pr'])" for pr
  proof (cases "pr = pr'")
    case False
    with that i(1) have rest: "pr \<in> set (drop_nth i (running c))"
      by (auto simp: drop_nth_def upd_conv_take_nth_drop)
    then have "locks pr \<in> set (map locks (drop_nth i (running c)))" by simp
    then have "locks pr \<subseteq> ?locked" unfolding locked_by_others_def by (rule Union_upper)
    with i(2) have free: "updates (env_settings env) ?pr \<inter> locks pr = {}" by blast
    have "pr \<in> set (running c)" using rest set_drop_nth [of i "running c"] by blast
    from locked_rows_kept [OF mv(4) sch free inv(4) [OF this] inv(5) [OF this]] show ?thesis .
  qed (use one(3) in simp)
  have "overlap_ok c'"
    unfolding c'
  proof (rule overlap_ok_store [OF ok es(2) mv(1,2) others])
    show "process_ok (committed w') pr \<and> locked_rows (committed w') pr" if "pr \<in> set ((running c)[i := pr'])" "pr \<notin> set (running c)" for pr
      using that one(2,3) set_update_subset_insert [of "running c" i pr'] by auto
    show "x \<in># messages c \<or> deliverable x (committed w')" if "x \<in># messages c + mset (sent_of (new_effects (store c) w'))" for x
      using that es(1,4) by (auto simp: new_effects_def)
  qed
  with es(1) moves_history [OF es(3) sch] c' show ?thesis by auto
qed

lemma happen_ok:
  assumes ok: "overlap_ok c" and h: "happen env h c = Some c'"
  shows "overlap_ok c'" "\<exists>es. trace (store c') = trace (store c) @ es \<and> history (committed (store c)) (committed (store c')) (notified_of es)"
proof -
  note inv = overlap_okD [OF ok]
  have stay: "overlap_ok \<lparr>store = store c, messages = M, running = prs\<rparr>"
    if "\<And>pr. pr \<in> set prs \<Longrightarrow> pr \<notin> set (running c) \<Longrightarrow> process_ok (committed (store c)) pr \<and> locked_rows (committed (store c)) pr"
      "\<And>x. x \<in># M \<Longrightarrow> x \<in># messages c \<or> deliverable x (committed (store c))" for M prs
    by (rule overlap_ok_store [OF ok inv(1,2) keeps_refl]) (use inv(5) that in auto)
  have quiet: "\<exists>es. trace w' = trace (store c) @ es \<and> history (committed (store c)) (committed w') (notified_of es)"
    if "trace w' = trace (store c)" "committed w' = committed (store c)" for w'
    using that history_refl by (auto intro!: exI [of _ "[]"])
  have "overlap_ok c' \<and> (\<exists>es. trace (store c') = trace (store c) @ es \<and> history (committed (store c)) (committed (store c')) (notified_of es))"
  proof (cases h)
    case (Take p)
    with h inv(3) have "c' = \<lparr>store = store c, messages = messages c - {#p#}, running = running c @ [Worker p Received]\<rparr>"
      and "deliverable p (committed (store c))" by (auto split: if_splits)
    with stay [of "running c @ [Worker p Received]" "messages c - {#p#}"] quiet [of "store c"] show ?thesis
      by (auto dest: in_diffD)
  next
    case (Receive new_id raw signature)
    show ?thesis
    proof (cases "accepted_call env raw signature")
      case None
      with h Receive ok quiet [of "store c"] show ?thesis by simp
    next
      case (Some p)
      with h Receive have "c' = \<lparr>store = store c, messages = messages c, running = running c @ [Callback new_id raw p Arrived]\<rparr>" by auto
      with stay [of "running c @ [Callback new_id raw p Arrived]" "messages c"] quiet [of "store c"] show ?thesis by auto
    qed
  next
    case Launch
    with h have "c' = \<lparr>store = store c, messages = messages c, running = running c @ [Reaper Selecting]\<rparr>" by auto
    with stay [of "running c @ [Reaper Selecting]" "messages c"] quiet [of "store c"] show ?thesis by auto
  next
    case (Advance i dr)
    with happen_advance [OF ok] h show ?thesis by simp
  next
    case (Leave i)
    from h Leave obtain M where i: "i < length (running c)" and M: "given_back (running c ! i) = Some M"
      and c': "c' = \<lparr>store = store c, messages = messages c + M, running = drop_nth i (running c)\<rparr>"
      by (auto split: if_splits)
    have "deliverable x (committed (store c))" if "x \<in># M" for x
    proof -
      have "process_ok (committed (store c)) (running c ! i)" using inv(4) i by simp
      with that M show ?thesis
        by (cases "running c ! i" rule: given_back.cases) (auto elim!: returned.elims)
    qed
    with stay [of "drop_nth i (running c)" "messages c + M"] set_drop_nth [of i "running c"] quiet [of "store c"] show ?thesis
      unfolding c' by auto
  next
    case (Kill i)
    from h Kill have i: "i < length (running c)"
      and c': "c' = \<lparr>store = store c, messages = messages c + orphaned (running c ! i), running = drop_nth i (running c)\<rparr>"
      by (auto split: if_splits)
    have "deliverable x (committed (store c))" if "x \<in># orphaned (running c ! i)" for x
    proof -
      have "process_ok (committed (store c)) (running c ! i)" using inv(4) i by simp
      with that show ?thesis by (cases "running c ! i") auto
    qed
    with stay [of "drop_nth i (running c)" "messages c + orphaned (running c ! i)"] set_drop_nth [of i "running c"] quiet [of "store c"] show ?thesis
      unfolding c' by auto
  next
    case (Accept op)
    from h Accept obtain d ids user filename data where op: "op = Upload d ids user filename data"
      and "user \<in> set (app_users (committed (store c)))" "fresh_ids d ids (committed (store c))"
      by (cases op) (auto split: if_splits)
    note up = upload_history [OF inv(1,2) this(2,3), of "env_settings env" "env_abspath env" filename data]
    let ?w = "run_operation env op (store c)"
    from h Accept have c': "c' = \<lparr>store = ?w, messages = messages c + mset (sent_of (new_effects (store c) ?w)), running = running c\<rparr>"
      by (auto split: if_splits)
    obtain es where es: "trace ?w = trace (store c) @ es" "history (committed (store c)) (committed ?w) (notified_of es)"
      "\<forall>x \<in> set (sent_of es). deliverable x (committed ?w)" using up(3) op by auto
    have sch: "schema_ok (committed (store c))" using inv(2) by (simp add: sound_def)
    have locked: "locked_rows (committed ?w) pr" if "pr \<in> set (running c)" for pr
      by (rule locked_rows_kept [where U = "{}", OF _ sch _ inv(4) [OF that] inv(5) [OF that]]) (use up(4) op in auto)
    have "overlap_ok c'"
      unfolding c'
      by (rule overlap_ok_store [OF ok _ _ _ locked]) (use up(1,2) op es in \<open>auto simp: new_effects_def history_def\<close>)
    with es c' show ?thesis by auto
  next
    case (Meanwhile now outcomes)
    with h have c': "c' = \<lparr>store = (store c)\<lparr>clock := now, faults := outcomes\<rparr>, messages = messages c, running = running c\<rparr>" by auto
    have "overlap_ok c'" unfolding c'
      by (rule overlap_ok_store [OF ok]) (use inv in \<open>auto simp: clean_def\<close>)
    with quiet [of "store c'"] c' show ?thesis by auto
  qed
  then show "overlap_ok c'" "\<exists>es. trace (store c') = trace (store c) @ es \<and> history (committed (store c)) (committed (store c')) (notified_of es)"
    by blast+
qed

lemma overlaps_ok:
  assumes "overlaps env hs c = Some c'" "overlap_ok c"
  shows "overlap_ok c' \<and> (\<exists>es. trace (store c') = trace (store c) @ es \<and>
    history (committed (store c)) (committed (store c')) (notified_of es))"
  using assms
proof (induction env hs c rule: overlaps.induct)
  case (1 env c)
  then show ?case using history_refl by (auto intro!: exI [of _ "[]"])
next
  case (2 env h hs c)
  from 2(2) obtain c1 where c1: "happen env h c = Some c1" "overlaps env hs c1 = Some c'" by (auto split: option.splits)
  from happen_ok [OF 2(3) c1(1)] obtain es where es: "overlap_ok c1" "trace (store c1) = trace (store c) @ es"
    "history (committed (store c)) (committed (store c1)) (notified_of es)" by blast
  from 2(1) [OF c1 es(1)] obtain es' where es': "overlap_ok c'" "trace (store c') = trace (store c1) @ es'"
    "history (committed (store c1)) (committed (store c')) (notified_of es')" by blast
  have "schema_ok (committed (store c))" "schema_ok (committed (store c1))" "schema_ok (committed (store c'))"
    using overlap_okD(2) 2(3) es(1) es'(1) unfolding sound_def by blast+
  from history_trans [OF es(3) es'(3) this] es(2) es'(1,2) show ?case
    by (auto intro!: exI [of _ "es @ es'"])
qed

end
