(* ===== verification/Overwrites.thy ===== *)
theory Overwrites
  imports Overlap
begin

section \<open>Writing over the partner's answer\<close>

text \<open>
  A callback and a scan look at a step and update it later, each in its own transaction; after
  the first \<open>_fail\<close> of a scan the other rows are no longer locked, and a callback locks nothing. The
  lemmas follow two such runs turn by turn.
\<close>

subsection \<open>Processes that run undisturbed\<close>

lemma overlaps_scan:
  "\<exists>M'. overlaps env (replicate n (Advance 0 dr)) \<lparr>store = w, messages = M, running = [Reaper ph]\<rparr> =
    Some \<lparr>store = snd (scan_turns (env_settings env) n (ph, w)), messages = M',
      running = [Reaper (fst (scan_turns (env_settings env) n (ph, w)))]\<rparr>"
proof (induction n arbitrary: w M ph)
  case 0
  show ?case by simp
next
  case (Suc n)
  obtain ph1 w1 where t: "scan_turn (env_settings env) {} ph w = (ph1, w1)" by force
  have one: "happen env (Advance 0 dr) \<lparr>store = w, messages = M, running = [Reaper ph]\<rparr> =
      Some \<lparr>store = w1, messages = M + mset (sent_of (new_effects w w1)), running = [Reaper ph1]\<rparr>"
    by (simp add: advance_def locked_by_others_def drop_nth_def t)
  show ?case
    using Suc [of w1 "M + mset (sent_of (new_effects w w1))" ph1] one t by (simp del: happen.simps)
qed

lemma overlaps_call:
  assumes "scan_locks ph = {}"
  shows "\<exists>M'. overlaps env (replicate n (Advance 1 dr)) \<lparr>store = w, messages = M, running = [Reaper ph, Callback new_id raw p cph]\<rparr> =
    Some \<lparr>store = snd (call_turns (env_parse_json env) new_id raw p n (cph, w)), messages = M',
      running = [Reaper ph, Callback new_id raw p (fst (call_turns (env_parse_json env) new_id raw p n (cph, w)))]\<rparr>"
proof (induction n arbitrary: w M cph)
  case 0
  show ?case by simp
next
  case (Suc n)
  obtain cph1 w1 where t: "call_turn (env_parse_json env) new_id raw p cph w = (cph1, w1)" by force
  have one: "happen env (Advance 1 dr) \<lparr>store = w, messages = M, running = [Reaper ph, Callback new_id raw p cph]\<rparr> =
      Some \<lparr>store = w1, messages = M + mset (sent_of (new_effects w w1)), running = [Reaper ph, Callback new_id raw p cph1]\<rparr>"
    using assms by (simp add: advance_def locked_by_others_def drop_nth_def t)
  show ?case
    using Suc [of w1 "M + mset (sent_of (new_effects w w1))" cph1] one t by (simp del: happen.simps)
qed

subsection \<open>Rows after an update\<close>

lemma filter_update_where:
  assumes "\<And>r. r \<in> set t \<Longrightarrow> A r \<Longrightarrow> \<not> P r \<and> \<not> P (f r)"
  shows "filter P (update_where A f t) = filter P t"
  using assms by (induction t) (auto simp: update_where_def)

lemma flush_rows:
  assumes clean: "clean w" and v: "v = commit (emit_event d ev (flush_step old new w))"
  shows "committed v = (committed w)\<lparr>pipeline_steps := update_where (\<lambda>q. st_id q = st_id old) (merge_step (clock w) old new) (pipeline_steps (committed w))\<rparr>"
    and "clock v = clock w"
  using clean unfolding v by (simp_all add: clean_def flush_step_def)

lemma row_after_flush:
  assumes clean: "clean w" and sch: "schema_ok (committed w)" and m: "m \<in> set (pipeline_steps (committed w))" "st_id m = st_id old"
    and v: "v = commit (emit_event d ev (flush_step old new w))"
  shows "merge_step (clock w) old new m \<in> set (pipeline_steps (committed v))"
    and "q \<in> set (pipeline_steps (committed w)) \<Longrightarrow> q \<noteq> m \<Longrightarrow> q \<in> set (pipeline_steps (committed v))"
proof -
  show "merge_step (clock w) old new m \<in> set (pipeline_steps (committed v))"
    unfolding flush_rows(1) [OF clean v] using m by (auto simp: set_update_where)
  show "q \<in> set (pipeline_steps (committed v))" if q: "q \<in> set (pipeline_steps (committed w))" "q \<noteq> m"
  proof -
    have "st_id q \<noteq> st_id old" using distinct_key_eq [OF schema_okD(2) [OF sch] q(1) m(1)] q(2) m(2) by auto
    with q(1) show ?thesis unfolding flush_rows(1) [OF clean v] by (auto simp: set_update_where)
  qed
qed

lemma recompute_eq:
  "snd (recompute_document_status d w) = (case get_document d w of
     None \<Rightarrow> w | Some document \<Rightarrow> record_status d (derive_document_status (step_status_map d w)) document w)"
  by (simp add: recompute_document_status_def record_status_def Let_def split: option.split)

lemma record_status_rows:
  "clean w \<Longrightarrow> pipeline_steps (committed (record_status d new document w)) = pipeline_steps (committed w)"
  by (simp add: record_status_def clean_def)

lemma recompute_rows:
  "clean w \<Longrightarrow> pipeline_steps (committed (snd (recompute_document_status d w))) = pipeline_steps (committed w)"
  by (simp add: recompute_eq record_status_rows split: option.split)

lemma recompute_does:
  "clean w \<Longrightarrow> sound (committed w) \<Longrightarrow> does U w (snd (recompute_document_status d w))"
  by (simp add: recompute_eq does_nothing does_record_status split: option.split)

text \<open>A step in ERROR makes its document FAILED, and a FAILED document with such a step stays so.\<close>

lemma derive_with_error:
  assumes "schema_ok (working w)" "status_of d s (working w) = Some ERROR"
  shows "derive_document_status (step_status_map d w) = FAILED"
  using assms map_of_step_status_map [OF assms(1), of d s]
  by (force simp: derive_failed_iff dest: map_of_SomeD)

lemma find_document_record_status:
  assumes "clean w" "get_document e w = Some document"
  shows "find_document d (committed (record_status e new document w)) =
    (if d = e then Some (if doc_status document = new then document else document\<lparr>doc_status := new, doc_updated_at := clock w\<rparr>)
     else find_document d (committed w))"
proof -
  have doc: "find_document e (committed w) = Some document" using assms by (simp add: get_document_def clean_def)
  have id: "doc_id document = e" using doc by (auto dest: find_documentD)
  have "committed (record_status e new document w) =
      (if doc_status document = new then committed w else put_doc_status e new (clock w) (committed w))"
    using assms(1) by (simp add: record_status_def flush_document_status_def put_doc_status_def clean_def)
  then show ?thesis
    using doc id by (cases "find_document d (committed w)") (auto simp: find_document_put_doc_status dest: find_documentD)
qed

definition lost :: "pipeline_step \<Rightarrow> database \<Rightarrow> bool" where
  "lost r db \<longleftrightarrow> (\<exists>q. find_step (st_document_id r) (st_name r) db = Some q \<and> st_status q = ERROR) \<and>
     (\<exists>document. find_document (st_document_id r) db = Some document \<and> doc_status document = FAILED)"

text \<open>What one \<open>_fail\<close> of a scan does, whatever has become of the row.\<close>

lemma mark_failed_status:
  assumes clean: "clean w" and sound: "sound (committed w)" and old: "tracks (committed w) step" and st: "st_status step \<noteq> ERROR"
  shows "status_of (st_document_id step) (st_name step) (committed (mark_failed step reason w)) = Some ERROR"
    and "status_of d s (committed w) = Some ERROR \<Longrightarrow> status_of d s (committed (mark_failed step reason w)) = Some ERROR"
    and "documents (committed (mark_failed step reason w)) = documents (committed w)"
proof -
  let ?new = "step\<lparr>st_status := ERROR, st_error_text := Some reason, st_finished_at := Some (clock w)\<rparr>"
  have v: "mark_failed step reason w = commit (emit_event (st_document_id step) (step_event (st_name step) ERROR) (flush_step step ?new w))"
    by (simp add: mark_failed_def Let_def)
  have sch: "schema_ok (committed w)" using sound by (simp add: sound_def)
  have sch': "schema_ok (committed (mark_failed step reason w))"
    using doesD(2) [OF does_mark_failed [OF clean sound old]] by (simp add: sound_def)
  from old obtain m where m: "m \<in> set (pipeline_steps (committed w))" "st_id m = st_id step" "step_key m = step_key step"
    unfolding tracks_def by blast
  note rows = row_after_flush [OF clean sch m(1,2) v]
  have "?new \<noteq> step"
  proof
    assume "?new = step"
    from arg_cong [OF this, of st_status] st show False by simp
  qed
  then have err: "st_status (merge_step (clock w) step ?new m) = ERROR"
    using st unfolding merge_step_def by simp
  have here: "status_of (st_document_id step) (st_name step) (committed (mark_failed step reason w)) = Some ERROR"
    using status_of_row [OF sch' rows(1)] err m(3) by (simp add: step_key_def)
  then show "status_of (st_document_id step) (st_name step) (committed (mark_failed step reason w)) = Some ERROR" .
  show "status_of d s (committed (mark_failed step reason w)) = Some ERROR" if e: "status_of d s (committed w) = Some ERROR"
  proof -
    from e obtain q where q: "q \<in> set (pipeline_steps (committed w))" "st_document_id q = d" "st_name q = s" "st_status q = ERROR"
      using find_step_iff [OF sch] by (auto simp: status_of_def)
    show ?thesis
    proof (cases "q = m")
      case True
      with here q(2,3) m(3) show ?thesis by (simp add: step_key_def)
    next
      case False
      from status_of_row [OF sch' rows(2) [OF q(1) False]] q(2-4) show ?thesis by simp
    qed
  qed
  show "documents (committed (mark_failed step reason w)) = documents (committed w)"
    unfolding v flush_rows(1) [OF clean refl] by simp
qed

lemma document_of:
  assumes "schema_ok db" "status_of d s db = Some st"
  obtains document where "find_document d db = Some document"
proof -
  from assms(2) obtain r where "r \<in> set (pipeline_steps db)" "st_document_id r = d"
    using find_step_iff [OF assms(1)] by (auto simp: status_of_def)
  with schema_okD(6) [OF assms(1)] obtain q where "q \<in> set (documents db)" "doc_id q = d" by force
  with that show thesis using find_document_iff [OF assms(1)] by blast
qed

lemma recompute_fails:
  assumes clean: "clean w" and sch: "schema_ok (committed w)" and err: "status_of d s (committed w) = Some ERROR"
  shows "\<exists>document. find_document d (committed (snd (recompute_document_status d w))) = Some document \<and> doc_status document = FAILED"
proof -
  obtain document where doc: "find_document d (committed w) = Some document" by (rule document_of [OF sch err])
  have work: "working w = committed w" using clean by (simp add: clean_def)
  have "get_document d w = Some document" using doc by (simp add: get_document_def work)
  with find_document_record_status [OF clean this, of d FAILED] derive_with_error [of w d s] sch err
  show ?thesis by (simp add: recompute_eq work)
qed

lemma status_of_recompute:
  "clean w \<Longrightarrow> status_of d s (committed (snd (recompute_document_status e w))) = status_of d s (committed w)"
  by (simp add: status_of_def find_step_def recompute_rows)

lemma recompute_keeps_failed:
  assumes clean: "clean w" and sch: "schema_ok (committed w)" and "lost r (committed w)"
  shows "lost r (committed (snd (recompute_document_status d w)))"
proof -
  from assms(3) obtain document where doc: "find_document (st_document_id r) (committed w) = Some document" "doc_status document = FAILED"
    and err: "status_of (st_document_id r) (st_name r) (committed w) = Some ERROR" by (auto simp: lost_def status_of_def)
  have "status_of (st_document_id r) (st_name r) (committed (snd (recompute_document_status d w))) = Some ERROR"
    using err status_of_recompute [OF clean] by simp
  moreover have "\<exists>document. find_document (st_document_id r) (committed (snd (recompute_document_status d w))) = Some document \<and> doc_status document = FAILED"
  proof (cases "d = st_document_id r")
    case True
    with recompute_fails [OF clean sch err] show ?thesis by simp
  next
    case False
    with doc show ?thesis
      by (auto simp: recompute_eq find_document_record_status [OF clean] split: option.split)
  qed
  ultimately show ?thesis by (auto simp: lost_def status_of_def)
qed

lemma reaper_fail_lost:
  assumes clean: "clean w" and sound: "sound (committed w)" and old: "tracks (committed w) step" and st: "st_status step \<noteq> ERROR"
  shows "does {st_id step} w (mark_failed step reason w)" "clean (reaper_fail step reason w)" "sound (committed (reaper_fail step reason w))"
    and "keeps (committed w) (committed (reaper_fail step reason w))"
    and "lost step (committed (reaper_fail step reason w))"
    and "lost r (committed w) \<Longrightarrow> lost r (committed (reaper_fail step reason w))"
proof -
  let ?v = "mark_failed step reason w" and ?d = "st_document_id step"
  show one: "does {st_id step} w ?v" by (rule does_mark_failed [OF clean sound old])
  note v = doesD [OF one]
  note w' = doesD [OF recompute_does [OF v(1,2), of "{}" ?d]]
  have sch: "schema_ok (committed ?v)" using v(2) by (simp add: sound_def)
  show "clean (reaper_fail step reason w)" "sound (committed (reaper_fail step reason w))"
    using w' by (simp_all add: reaper_fail_eq)
  show "keeps (committed w) (committed (reaper_fail step reason w))"
    using keeps_trans [OF v(3) w'(3)] by (simp add: reaper_fail_eq)
  note failed = mark_failed_status [where reason = reason, OF clean sound old st]
  from recompute_fails [OF v(1) sch failed(1)] failed(1) status_of_recompute [OF v(1), of ?d "st_name step" ?d]
  show "lost step (committed (reaper_fail step reason w))"
    unfolding reaper_fail_eq by (auto simp: lost_def status_of_def)
  show "lost r (committed (reaper_fail step reason w))" if "lost r (committed w)"
  proof -
    have "lost r (committed ?v)"
      using that failed(2) [of "st_document_id r" "st_name r"] failed(3) by (auto simp: lost_def status_of_def find_document_def)
    then show ?thesis unfolding reaper_fail_eq by (rule recompute_keeps_failed [OF v(1) sch])
  qed
qed

lemma reap_callbacks_lost:
  assumes "clean w" "sound (committed w)" "\<forall>q \<in> set steps. tracks (committed w) q \<and> st_status q \<noteq> ERROR"
    and "r \<in> set steps \<or> lost r (committed w)"
  shows "lost r (committed (snd (reap_callbacks steps acted w)))"
  using assms
proof (induction steps arbitrary: acted w)
  case (Cons step steps)
  let ?w = "reaper_fail step ''partner callback timeout'' w"
  have step: "tracks (committed w) step" "st_status step \<noteq> ERROR" using Cons.prems(3) by simp_all
  note fail = reaper_fail_lost [where reason = "''partner callback timeout''", OF Cons.prems(1,2) step]
  have "\<forall>q \<in> set steps. tracks (committed ?w) q \<and> st_status q \<noteq> ERROR"
    using Cons.prems(3) keeps_tracks [OF fail(4)] by auto
  from Cons.IH [OF fail(2,3) this] Cons.prems(4) fail(5,6) show ?case by auto
qed simp

subsection \<open>A callback between two rows of a scan\<close>

text \<open>Nothing dies, and the broker is up.\<close>

fun smooth :: "happening \<Rightarrow> bool" where
  "smooth (Kill i) = False"
| "smooth (Meanwhile now outcomes) \<longleftrightarrow> outcomes = []"
| "smooth _ = True"

lemma get_step_after_failure:
  assumes clean: "clean w" and sch: "schema_ok (committed w)" and job: "get_step_by_job_id j w = Inr (Some r)"
    and q: "q \<in> set (pipeline_steps (committed w))" "q \<noteq> r"
  shows "get_step_by_job_id j (record_webhook new_id j' body (mark_failed q reason w)) = Inr (Some r)"
proof -
  have work: "working w = committed w" using clean by (simp add: clean_def)
  have rows: "filter (\<lambda>r. st_external_job_id r = Some j) (pipeline_steps (committed w)) = [r]"
    using job by (simp add: get_step_by_job_id_def scalar_one_or_none_Some work)
  have mine: "x = r" if "x \<in> set (pipeline_steps (committed w))" "st_external_job_id x = Some j" for x
  proof -
    have "x \<in> set (filter (\<lambda>r. st_external_job_id r = Some j) (pipeline_steps (committed w)))" using that by simp
    then show ?thesis unfolding rows by simp
  qed
  have "\<not> st_external_job_id x = Some j" if "x \<in> set (pipeline_steps (committed w))" "st_id x = st_id q" for x
    using mine [OF that(1)] q distinct_key_eq [OF schema_okD(2) [OF sch] that(1) q(1) that(2)] by auto
  then have "filter (\<lambda>r. st_external_job_id r = Some j) (update_where (\<lambda>x. st_id x = st_id q)
      (merge_step (clock w) q (q\<lparr>st_status := ERROR, st_error_text := Some reason, st_finished_at := Some (clock w)\<rparr>))
      (pipeline_steps (committed w))) = [r]"
    unfolding rows [symmetric] by (intro filter_update_where) (simp add: merge_step_def)
  then show ?thesis
    by (simp add: get_step_by_job_id_def scalar_one_or_none_Some record_webhook_def mark_failed_def Let_def work)
qed

lemma partner_commit_row:
  assumes clean: "clean w" and sch: "schema_ok (committed w)" and m: "m \<in> set (pipeline_steps (committed w))" "st_id m = st_id r"
  shows "merge_step (clock w) r (partner_row p (clock w) r) m \<in> set (pipeline_steps (committed (partner_commit p r w)))"
  unfolding partner_commit_def by (rule row_after_flush(1) [OF clean sch m refl])

lemma merge_partner_row:
  assumes "st_status r \<notin> {DONE, ERROR}"
  shows "st_status (merge_step now r (partner_row p t r) m) = (if wp_status p = COMPLETED then DONE else ERROR)"
    and "wp_status p = COMPLETED \<Longrightarrow> st_result m = st_result r \<Longrightarrow>
      st_result (merge_step now r (partner_row p t r) m) = Some (JObject (wp_result p))"
    and "wp_status p \<noteq> COMPLETED \<Longrightarrow> st_result (merge_step now r (partner_row p t r) m) = st_result m"
proof -
  have st: "st_status (partner_row p t r) = (if wp_status p = COMPLETED then DONE else ERROR)" by (simp add: partner_row_def)
  have "partner_row p t r \<noteq> r"
  proof
    assume "partner_row p t r = r"
    with st assms show False by (simp split: if_splits)
  qed
  with st assms show one: "st_status (merge_step now r (partner_row p t r) m) = (if wp_status p = COMPLETED then DONE else ERROR)"
    unfolding merge_step_def by auto
  show "st_result (merge_step now r (partner_row p t r) m) = Some (JObject (wp_result p))"
    if "wp_status p = COMPLETED" "st_result m = st_result r"
    using that \<open>partner_row p t r \<noteq> r\<close> unfolding merge_step_def by (simp add: partner_row_def)
  show "st_result (merge_step now r (partner_row p t r) m) = st_result m" if "wp_status p \<noteq> COMPLETED"
    using that \<open>partner_row p t r \<noteq> r\<close> unfolding merge_step_def by (simp add: partner_row_def)
qed

lemma accepted_call_body:
  "accepted_call env raw signature = Some p \<Longrightarrow> \<exists>body. env_parse_json env raw = Some body"
  by (auto simp: accepted_call_def model_validate_json_def bind_eq_Some_conv split: if_splits)

lemma scan_turns_to_first_failure:
  assumes clean: "clean w" and none: "lock_stale_steps [QUEUED, RUNNING] (clock w - microseconds (step_timeout_seconds cfg)) w = []"
    and stuck: "lock_stale_steps [AWAITING_CALLBACK] (clock w - microseconds (callback_sla_seconds cfg)) w = q # rest"
  shows "scan_turns cfg 4 (Selecting, w) =
    (OverdueFailed (st_document_id q) ReadSteps rest 1, mark_failed q ''partner callback timeout'' (commit w))"
proof -
  have "lock_stale_steps [AWAITING_CALLBACK] (clock w - microseconds (callback_sla_seconds cfg)) (commit w) = q # rest"
    using stuck by (simp add: lock_stale_steps_def)
  with none show ?thesis by (simp add: eval_nat_numeral select_for_update_def Let_def)
qed

lemma overdue_result_lost:
  assumes clean: "clean w" and sound: "sound (committed w)"
    and none: "lock_stale_steps [QUEUED, RUNNING] (now - microseconds (step_timeout_seconds (env_settings env))) w = []"
    and stuck: "lock_stale_steps [AWAITING_CALLBACK] (now - microseconds (callback_sla_seconds (env_settings env))) w = q # rest"
    and r: "r \<in> set rest" and call: "accepted_call env raw signature = Some p" "wp_status p = COMPLETED"
    and job: "get_step_by_job_id (wp_job_id p) w = Inr (Some r)"
  obtains hs1 c1 hs2 c2 st r1 where "overlaps env hs1 \<lparr>store = w, messages = M, running = []\<rparr> = Some c1"
    and "Callback new_id raw p (Answered (Inr \<lparr>wr_status = PROCESSED, wr_document_status = Some st\<rparr>)) \<in> set (running c1)"
    and "find_step (st_document_id r) (st_name r) (committed (store c1)) = Some r1" "st_status r1 = DONE" "st_result r1 = Some (JObject (wp_result p))"
    and "overlaps env hs2 c1 = Some c2" "running c2 = []" "lost r (committed (store c2))" "\<forall>h \<in> set (hs1 @ hs2). smooth h"
proof -
  let ?cfg = "env_settings env" and ?v = "w\<lparr>clock := now, faults := []\<rparr>" and ?reason = "''partner callback timeout''"
  define v0 where "v0 = commit ?v"
  define v1 where "v1 = mark_failed q ?reason v0"
  have sch: "schema_ok (committed w)" using sound by (simp add: sound_def)
  have v0: "clean v0" "committed v0 = committed w" "working v0 = committed w" using clean by (simp_all add: v0_def clean_def)
  have mem: "set (q # rest) \<subseteq> set (pipeline_steps (committed w))" "\<forall>x \<in> set (q # rest). st_status x = AWAITING_CALLBACK" "distinct (q # rest)"
  proof -
    have "set (q # rest) \<subseteq> set (pipeline_steps (working w)) \<and> (\<forall>x \<in> set (q # rest). st_status x = AWAITING_CALLBACK)"
      unfolding stuck [symmetric] by (auto simp: lock_stale_steps_def)
    then show "set (q # rest) \<subseteq> set (pipeline_steps (committed w))" "\<forall>x \<in> set (q # rest). st_status x = AWAITING_CALLBACK"
      using clean by (simp_all add: clean_def)
    show "distinct (q # rest)"
      using schema_okD(2) [OF sch] clean unfolding stuck [symmetric] by (simp add: lock_stale_steps_def distinct_map clean_def)
  qed
  have tracked: "tracks (committed w) x" if "x \<in> set (q # rest)" for x
    using that mem(1,2) unfolding tracks_def by (metis step_status.distinct(5) subsetD)
  have "q \<noteq> r" using mem(3) r by auto
  have one: "does {st_id q} v0 v1" unfolding v1_def
    by (rule does_mark_failed) (use v0 sound tracked in simp_all)
  obtain body where body: "env_parse_json env raw = Some body" using accepted_call_body [OF call(1)] by blast
  define v2 where "v2 = record_webhook new_id (wp_job_id p) body v1"
  note c1 = doesD [OF one]
  note c2 = doesD [OF does_record_webhook [OF c1(1,2), of "{}" new_id "wp_job_id p" body, folded v2_def]]
  have found: "get_step_by_job_id (wp_job_id p) v2 = Inr (Some r)"
    unfolding v2_def v1_def
    by (rule get_step_after_failure) (use v0 sch job clean mem(1) \<open>q \<noteq> r\<close> in \<open>simp_all add: get_step_by_job_id_def clean_def\<close>)
  have r': "r \<in> set (pipeline_steps (committed v2))"
  proof -
    have "r \<in> set (pipeline_steps (committed v1))"
      unfolding v1_def mark_failed_def Let_def
      by (rule row_after_flush(2) [OF _ _ _ _ refl, where m = q]) (use v0 sch mem(1) r \<open>q \<noteq> r\<close> in auto)
    then show ?thesis using c1(1) by (simp add: v2_def record_webhook_def clean_def)
  qed
  have st_r: "st_status r = AWAITING_CALLBACK" using mem(2) r by simp
  define v3 where "v3 = partner_commit p r v2"
  define new where "new = derive_document_status (step_status_map (st_document_id r) v3)"
  define v4 where "v4 = snd (recompute_document_status (st_document_id r) v3)"
  have two: "does {st_id r} v2 v3"
    unfolding v3_def partner_commit_def
  proof (rule does_row [where d = "st_document_id r" and ev = "step_event EXTERNAL_CALL (if wp_status p = COMPLETED then DONE else ERROR)", OF c2(1,2)])
    show "tracks (committed v2) r" using r' st_r by (auto simp: tracks_def)
    show "st_status (partner_row p (clock v2) r) \<noteq> PENDING" by (simp add: partner_row_def)
  qed simp
  note c3 = doesD [OF two]
  note c4 = doesD [OF recompute_does [OF c3(1,2), of "{}" "st_document_id r", folded v4_def]]
  have answer: "apply_partner_result (env_parse_json env) new_id raw p v1 =
      (Inr \<lparr>wr_status = PROCESSED, wr_document_status = Some new\<rparr>, v4)"
    using apply_partner_result_found [where parse_json = "env_parse_json env", OF body found [unfolded v2_def]] st_r
    by (simp add: v2_def [symmetric] v3_def [symmetric] v4_def new_def Let_def case_prod_beta recompute_document_status_def
        split: option.split)
  define r1 where "r1 = merge_step (clock v2) r (partner_row p (clock v2) r) r"
  have row: "r1 \<in> set (pipeline_steps (committed v4))"
    using partner_commit_row [OF c2(1) _ r' refl, of p] c2(2) recompute_rows [OF c3(1)]
    by (simp add: r1_def v4_def v3_def sound_def)
  have r1: "st_status r1 = DONE" "st_result r1 = Some (JObject (wp_result p))" "st_document_id r1 = st_document_id r" "st_name r1 = st_name r"
    using call(2) merge_partner_row(1,2) [where r = r and p = p and now = "clock v2" and t = "clock v2" and m = r] st_r by (simp_all add: r1_def merge_step_simps(2,3))
  define d where "d = st_document_id q"
  define v5 where "v5 = snd (recompute_document_status d v4)"
  note c5 = doesD [OF recompute_does [OF c4(1,2), of "{}" d, folded v5_def]]
  define v6 where "v6 = snd (reap_callbacks rest 1 v5)"
  have keep: "keeps (committed w) (committed v5)"
    using keeps_trans [OF keeps_trans [OF keeps_trans [OF keeps_trans [OF c1(3) c2(3)] c3(3)] c4(3)] c5(3)] v0(2) by simp
  have lost: "lost r (committed v6)"
    unfolding v6_def
    by (rule reap_callbacks_lost [OF c5(1,2)]) (use tracked keeps_tracks [OF keep] mem(2) r in auto)
  have sch4: "schema_ok (committed v4)" using c4(2) by (simp add: sound_def)
  have step1: "find_step (st_document_id r) (st_name r) (committed v4) = Some r1"
    using find_step_iff [OF sch4] row r1(3,4) by simp
  define ph where "ph = OverdueFailed d ReadSteps rest 1"
  let ?answered = "Callback new_id raw p (Answered (Inr \<lparr>wr_status = PROCESSED, wr_document_status = Some new\<rparr>))"
  have "scan_turns ?cfg 4 (Selecting, ?v) = (ph, v1)"
    unfolding ph_def d_def v1_def v0_def
    by (rule scan_turns_to_first_failure) (use clean none stuck in \<open>simp_all add: clean_def lock_stale_steps_def\<close>)
  with overlaps_scan [of env 4 good_draws ?v M Selecting] obtain M1 where
    M1: "overlaps env (replicate 4 (Advance 0 good_draws)) \<lparr>store = ?v, messages = M, running = [Reaper Selecting]\<rparr> =
      Some \<lparr>store = v1, messages = M1, running = [Reaper ph]\<rparr>" by auto
  have "call_turns (env_parse_json env) new_id raw p 6 (Arrived, v1) =
      (Answered (Inr \<lparr>wr_status = PROCESSED, wr_document_status = Some new\<rparr>), v4)"
    unfolding call_turns_are_apply_partner_result answer by simp
  with overlaps_call [of ph env 6 good_draws v1 M1 new_id raw p Arrived] obtain M2 where
    M2: "overlaps env (replicate 6 (Advance 1 good_draws)) \<lparr>store = v1, messages = M1, running = [Reaper ph, Callback new_id raw p Arrived]\<rparr> =
      Some \<lparr>store = v4, messages = M2, running = [Reaper ph, ?answered]\<rparr>" by (auto simp: ph_def)
  obtain n where n: "scan_turns ?cfg n (Overdue rest 1 [], v5) = (Scanned (Inr (fst (reap_callbacks rest 1 v5))), v6)"
    using scan_turns_overdue [of rest ?cfg 1 "[]" v5] by (auto simp: v6_def case_prod_beta)
  have "scan_turns ?cfg (3 + n) (ph, v4) = (Scanned (Inr (fst (reap_callbacks rest 1 v5))), v6)"
    unfolding scan_turns_add ph_def scan_turns_failed v5_def [symmetric] by (rule n)
  with overlaps_scan [of env "3 + n" good_draws v4 M2 ph] obtain M3 where
    M3: "overlaps env (replicate (3 + n) (Advance 0 good_draws)) \<lparr>store = v4, messages = M2, running = [Reaper ph]\<rparr> =
      Some \<lparr>store = v6, messages = M3, running = [Reaper (Scanned (Inr (fst (reap_callbacks rest 1 v5))))]\<rparr>" by auto
  show thesis
  proof (rule that)
    show "overlaps env ([Meanwhile now [], Launch] @ replicate 4 (Advance 0 good_draws) @ [Receive new_id raw signature] @
        replicate 6 (Advance 1 good_draws)) \<lparr>store = w, messages = M, running = []\<rparr> =
        Some \<lparr>store = v4, messages = M2, running = [Reaper ph, ?answered]\<rparr>"
      using M1 M2 call(1) by (simp add: overlaps_append)
    show "?answered \<in> set (running \<lparr>store = v4, messages = M2, running = [Reaper ph, ?answered]\<rparr>)" by simp
    show "find_step (st_document_id r) (st_name r) (committed (store \<lparr>store = v4, messages = M2, running = [Reaper ph, ?answered]\<rparr>)) = Some r1"
      using step1 by simp
    show "overlaps env ([Leave 1] @ replicate (3 + n) (Advance 0 good_draws) @ [Leave 0])
        \<lparr>store = v4, messages = M2, running = [Reaper ph, ?answered]\<rparr> = Some \<lparr>store = v6, messages = M3, running = []\<rparr>"
      using M3 by (simp add: overlaps_append drop_nth_def)
  qed (use r1(1,2) lost in auto)
qed

subsection \<open>Two callbacks for the same job\<close>

lemma call_turn_effects:
  assumes "call_turn parse_json new_id raw p ph w = (ph', w')"
  shows "sent_of (new_effects w w') = []"
proof -
  have rec: "\<exists>es. trace (snd (recompute_turn d r w)) = trace w @ es \<and> sent_of es = []" for d r
    by (induction d r w rule: recompute_turn.induct) (simp_all add: record_status_def)
  have "\<exists>es. trace w' = trace w @ es \<and> sent_of es = []"
  proof (cases ph)
    case (CallDeriving d r)
    with assms rec [of d r] show ?thesis by (auto split: prod.splits)
  qed (use assms in \<open>auto simp: record_call_def record_webhook_def partner_commit_def split: option.splits\<close>)
  then show ?thesis by (auto simp: new_effects_def)
qed

lemma happen_call:
  assumes "i < length prs" "prs ! i = Callback new_id raw p ph" "\<forall>pr \<in> set prs. locks pr = {}"
    and "call_turn (env_parse_json env) new_id raw p ph w = (ph', w')"
  shows "happen env (Advance i dr) \<lparr>store = w, messages = M, running = prs\<rparr> =
    Some \<lparr>store = w', messages = M, running = prs[i := Callback new_id raw p ph']\<rparr>"
proof -
  have "\<forall>pr \<in> set (drop_nth i prs). locks pr = {}" using assms(3) set_drop_nth [of i prs] by blast
  then have "locked_by_others i \<lparr>store = w, messages = M, running = prs\<rparr> = {}" by (simp add: locked_by_others_def)
  with assms call_turn_effects [OF assms(4)] show ?thesis by (simp add: advance_def)
qed

abbreviation processed :: "document_status \<Rightarrow> call_phase" where
  "processed st \<equiv> Answered (Inr \<lparr>wr_status = PROCESSED, wr_document_status = Some st\<rparr>)"

text \<open>The end of a callback, in three turns that nothing interrupts.\<close>

lemma happen_deriving:
  assumes "i < length prs" "prs ! i = Callback new_id raw p (CallDeriving d ReadSteps)" "\<forall>pr \<in> set prs. locks pr = {}"
  shows "overlaps env (replicate 3 (Advance i dr)) \<lparr>store = w, messages = M, running = prs\<rparr> =
    Some \<lparr>store = snd (recompute_document_status d w), messages = M,
      running = prs[i := Callback new_id raw p (processed (fst (recompute_document_status d w)))]\<rparr>"
proof -
  define new where "new = derive_document_status (step_status_map d w)"
  have none: "\<forall>pr \<in> set (prs[i := Callback new_id raw p ph]). locks pr = {}" for ph
    using assms(3) set_update_subset_insert [of prs i] by fastforce
  have step: "happen env (Advance i dr) \<lparr>store = w, messages = M, running = prs[i := Callback new_id raw p ph]\<rparr> =
      Some \<lparr>store = w', messages = M, running = prs[i := Callback new_id raw p ph']\<rparr>"
    if "call_turn (env_parse_json env) new_id raw p ph w = (ph', w')" for ph ph' w w'
    using happen_call [where prs = "prs[i := Callback new_id raw p ph]", OF _ _ none that] assms(1) by simp
  have same: "prs[i := Callback new_id raw p (CallDeriving d ReadSteps)] = prs"
    using assms(1,2) by (metis list_update_id)
  have last: "call_turn (env_parse_json env) new_id raw p (CallDeriving d (WriteDocument new (get_document d w))) w =
      (processed (fst (recompute_document_status d w)), snd (recompute_document_status d w))"
    by (simp add: recompute_document_status_def record_status_def new_def Let_def split: option.split)
  from step [of "CallDeriving d ReadSteps" w "CallDeriving d (ReadDocument new)" w, unfolded same]
    step [of "CallDeriving d (ReadDocument new)" w "CallDeriving d (WriteDocument new (get_document d w))" w] step [OF last]
  show ?thesis by (simp add: numeral_3_eq_3 new_def del: happen.simps)
qed

text \<open>Two callbacks that both look the step up before either of them updates it.\<close>

lemma simultaneous_calls:
  assumes clean: "clean w" and sound: "sound (committed w)"
    and call: "accepted_call env raw1 sig1 = Some p" "accepted_call env raw2 sig2 = Some q" "wp_job_id q = wp_job_id p"
    and job: "get_step_by_job_id (wp_job_id p) w = Inr (Some r)" "st_status r \<notin> {DONE, ERROR}"
  obtains hs c st st' m where "overlaps env hs \<lparr>store = w, messages = M, running = []\<rparr> = Some c"
    and "running c = [Callback id1 raw1 p (processed st), Callback id2 raw2 q (processed st')]"
    and "find_step (st_document_id r) (st_name r) (committed (store c)) = Some m"
    and "st_status m = (if wp_status q = COMPLETED then DONE else ERROR)"
    and "wp_status p = COMPLETED \<Longrightarrow> wp_status q \<noteq> COMPLETED \<Longrightarrow> st_result m = Some (JObject (wp_result p))"
    and "\<forall>h \<in> set hs. smooth h"
proof -
  let ?parse = "env_parse_json env"
  obtain body1 where body1: "?parse raw1 = Some body1" using accepted_call_body [OF call(1)] by blast
  obtain body2 where body2: "?parse raw2 = Some body2" using accepted_call_body [OF call(2)] by blast
  define w1 where "w1 = record_webhook id1 (wp_job_id p) body1 w"
  define w2 where "w2 = record_webhook id2 (wp_job_id q) body2 w1"
  define w3 where "w3 = partner_commit p r w2"
  define w4 where "w4 = partner_commit q r w3"
  define w5 where "w5 = snd (recompute_document_status (st_document_id r) w4)"
  define w6 where "w6 = snd (recompute_document_status (st_document_id r) w5)"
  note c1 = doesD [OF does_record_webhook [OF clean sound, of "{}" id1 "wp_job_id p" body1, folded w1_def]]
  note c2 = doesD [OF does_record_webhook [OF c1(1,2), of "{}" id2 "wp_job_id q" body2, folded w2_def]]
  have rows: "pipeline_steps (working w1) = pipeline_steps (working w)" "pipeline_steps (working w2) = pipeline_steps (working w)"
    by (simp_all add: w1_def w2_def record_webhook_def)
  have up1: "look_up p w2 = Applying r" and up2: "look_up q w2 = Applying r"
    using job call(3) rows by (simp_all add: look_up_def get_step_by_job_id_def)
  have up1: "look_up p w2 = Applying r" by (rule up1)
  have tr: "tracks (committed w2) r" by (rule look_up_tracks [OF c2(1,2) up1])
  have does_call: "does {st_id r} v (partner_commit x r v)" if "clean v" "sound (committed v)" "tracks (committed v) r" for v x
    unfolding partner_commit_def
  proof (rule does_row [where d = "st_document_id r" and ev = "step_event EXTERNAL_CALL (if wp_status x = COMPLETED then DONE else ERROR)", OF that])
    show "st_status (partner_row x (clock v) r) \<noteq> PENDING" by (simp add: partner_row_def)
  qed simp
  note c3 = doesD [OF does_call [OF c2(1,2) tr, of p, folded w3_def]]
  note c4 = doesD [OF does_call [OF c3(1,2) keeps_tracks [OF c3(3) tr], of q, folded w4_def]]
  note c5 = doesD [OF recompute_does [OF c4(1,2), of "{}" "st_document_id r", folded w5_def]]
  note c6 = doesD [OF recompute_does [OF c5(1,2), of "{}" "st_document_id r", folded w6_def]]
  have r: "r \<in> set (pipeline_steps (committed w2))"
  proof -
    have "r \<in> set (filter (\<lambda>x. st_external_job_id x = Some (wp_job_id p)) (pipeline_steps (working w2)))"
      using job(1) rows(2) by (simp add: get_step_by_job_id_def scalar_one_or_none_Some)
    then show ?thesis using c2(1) by (simp add: clean_def)
  qed
  define m1 where "m1 = merge_step (clock w2) r (partner_row p (clock w2) r) r"
  define m where "m = merge_step (clock w3) r (partner_row q (clock w3) r) m1"
  have "m1 \<in> set (pipeline_steps (committed w3))"
    unfolding m1_def w3_def by (rule partner_commit_row [OF c2(1) _ r refl]) (use c2(2) in \<open>simp add: sound_def\<close>)
  then have "m \<in> set (pipeline_steps (committed w4))"
    unfolding m_def w4_def by (intro partner_commit_row [OF c3(1)]) (use c3(2) in \<open>simp_all add: sound_def m1_def\<close>)
  then have m: "find_step (st_document_id r) (st_name r) (committed w6) = Some m"
    using find_step_iff [of "committed w6"] c6(2) recompute_rows [OF c4(1)] recompute_rows [OF c5(1)]
    by (simp add: w5_def w6_def sound_def m_def m1_def)
  define hs where "hs = [Receive id1 raw1 sig1, Receive id2 raw2 sig2] @ [Advance 0 good_draws, Advance 1 good_draws, Advance 0 good_draws,
    Advance 1 good_draws, Advance 0 good_draws, Advance 1 good_draws] @ replicate 3 (Advance 0 good_draws) @ replicate 3 (Advance 1 good_draws)"
  let ?one = "Callback id1 raw1 p" and ?two = "Callback id2 raw2 q"
  have step: "happen env (Advance 0 good_draws) \<lparr>store = v, messages = M, running = [?one ph, ?two ph2]\<rparr> =
      Some \<lparr>store = v', messages = M, running = [?one ph', ?two ph2]\<rparr>"
    if "call_turn ?parse id1 raw1 p ph v = (ph', v')" for ph ph2 ph' v v'
    using happen_call [where i = 0 and prs = "[?one ph, ?two ph2]", OF _ _ _ that] by simp
  have step2: "happen env (Advance 1 good_draws) \<lparr>store = v, messages = M, running = [?one ph, ?two ph2]\<rparr> =
      Some \<lparr>store = v', messages = M, running = [?one ph, ?two ph']\<rparr>"
    if "call_turn ?parse id2 raw2 q ph2 v = (ph', v')" for ph ph2 ph' v v'
    using happen_call [where i = 1 and prs = "[?one ph, ?two ph2]", OF _ _ _ that] by simp
  have first: "overlaps env [Receive id1 raw1 sig1, Receive id2 raw2 sig2] \<lparr>store = w, messages = M, running = []\<rparr> =
      Some \<lparr>store = w, messages = M, running = [?one Arrived, ?two Arrived]\<rparr>"
    using call by simp
  have mid: "overlaps env [Advance 0 good_draws, Advance 1 good_draws, Advance 0 good_draws, Advance 1 good_draws, Advance 0 good_draws, Advance 1 good_draws]
      \<lparr>store = w, messages = M, running = [?one Arrived, ?two Arrived]\<rparr> =
      Some \<lparr>store = w4, messages = M, running = [?one (CallDeriving (st_document_id r) ReadSteps), ?two (CallDeriving (st_document_id r) ReadSteps)]\<rparr>"
    using step [of Arrived w LookingUp w1 Arrived] step2 [of Arrived w1 LookingUp w2 LookingUp]
      step [of LookingUp w2 "Applying r" w2 LookingUp] step2 [of LookingUp w2 "Applying r" w2 "Applying r"]
      step [of "Applying r" w2 "CallDeriving (st_document_id r) ReadSteps" w3 "Applying r"]
      step2 [of "Applying r" w3 "CallDeriving (st_document_id r) ReadSteps" w4 "CallDeriving (st_document_id r) ReadSteps"]
      body1 body2 up1 up2
    by (simp add: record_call_def w1_def [symmetric] w2_def [symmetric] w3_def [symmetric] w4_def [symmetric] del: happen.simps)
  have last: "overlaps env (replicate 3 (Advance 0 good_draws) @ replicate 3 (Advance 1 good_draws)) \<lparr>store = w4, messages = M,
      running = [?one (CallDeriving (st_document_id r) ReadSteps), ?two (CallDeriving (st_document_id r) ReadSteps)]\<rparr> =
    Some \<lparr>store = w6, messages = M, running = [?one (processed (fst (recompute_document_status (st_document_id r) w4))),
      ?two (processed (fst (recompute_document_status (st_document_id r) w5)))]\<rparr>"
    unfolding overlaps_append
    by (subst happen_deriving [where i = 0], simp, simp, simp, simp only: option.case list_update.simps nat.case)
      (subst happen_deriving [where i = 1], simp_all add: w5_def w6_def)
  show thesis
  proof (rule that)
    show "overlaps env hs \<lparr>store = w, messages = M, running = []\<rparr> = Some \<lparr>store = w6, messages = M,
        running = [?one (processed (fst (recompute_document_status (st_document_id r) w4))),
          ?two (processed (fst (recompute_document_status (st_document_id r) w5)))]\<rparr>"
      using first mid last unfolding hs_def overlaps_append by simp
    show "st_status m = (if wp_status q = COMPLETED then DONE else ERROR)"
      unfolding m_def by (rule merge_partner_row(1) [OF job(2)])
    show "st_result m = Some (JObject (wp_result p))" if "wp_status p = COMPLETED" "wp_status q \<noteq> COMPLETED"
      using that merge_partner_row(2) [OF job(2), of p r] merge_partner_row(3) [OF job(2), of q] by (simp add: m_def m1_def)
  qed (use m in \<open>simp_all add: hs_def\<close>)
qed

end
