(* ===== verification/Finality.thy ===== *)
theory Finality
  imports Overwrites
begin

section \<open>What no overlap can change any more\<close>

text \<open>
  Rows are overwritten by processes that have read them before they were finished, and
  only by these. What is finished when no process remembers an earlier version stays so, whatever
  overlaps from then on: no process reads a finished row in order to update it.
\<close>

subsection \<open>Facts that last\<close>

lemma upload_committed:
  assumes "clean w"
  shows "committed (snd (upload_document cfg abspath d ids user filename data w)) =
    uploaded cfg abspath d ids user (upload_name filename) (clock w) (committed w)"
proof (cases "faults w = [] \<or> \<not> hd (faults w)")
  case True
  from upload_document_up [OF assms this] show ?thesis by (simp add: after_upload_def Let_def)
next
  case False
  then obtain fs where "faults w = True # fs" by (cases "faults w") auto
  from upload_document_down [OF assms this] show ?thesis by (simp add: after_upload_def Let_def)
qed

text \<open>A fact about the database, with what it asks of the processes, that no turn and no upload ends.\<close>

locale lasting =
  fixes env :: deployment
    and fact :: "database \<Rightarrow> bool"
    and heeds :: "process \<Rightarrow> bool"
  assumes worker: "heeds (Worker p Received)"
    and callback: "accepted_call env raw signature = Some q \<Longrightarrow> heeds (Callback new_id raw q Arrived)"
    and scan: "heeds (Reaper Selecting)"
    and turn: "clean w \<Longrightarrow> sound (committed w) \<Longrightarrow> process_ok (committed w) pr \<Longrightarrow> locked_rows (committed w) pr \<Longrightarrow>
      may_draw dr pr (committed w) \<Longrightarrow> fact (committed w) \<Longrightarrow> heeds pr \<Longrightarrow> process_turn env locked dr pr w = (pr', w') \<Longrightarrow> fact (committed w') \<and> heeds pr'"
    and upload: "clean w \<Longrightarrow> sound (committed w) \<Longrightarrow> fresh_ids d ids (committed w) \<Longrightarrow> fact (committed w) \<Longrightarrow>
      fact (uploaded cfg abspath d ids user name now (committed w))"
begin

definition lasts :: "overlap \<Rightarrow> bool" where
  "lasts c \<longleftrightarrow> fact (committed (store c)) \<and> (\<forall>pr \<in> set (running c). heeds pr)"

lemma happen_lasts:
  assumes ok: "overlap_ok c" and h: "happen env h c = Some c'" and last: "lasts c"
  shows "lasts c'"
proof -
  note inv = overlap_okD [OF ok]
  have fct: "fact (committed (store c))" and all: "\<And>pr. pr \<in> set (running c) \<Longrightarrow> heeds pr" using last by (auto simp: lasts_def)
  show ?thesis
  proof (cases h)
    case (Take p)
    with h fct all worker show ?thesis by (auto simp: lasts_def split: if_splits)
  next
    case (Receive new_id raw signature)
    with h fct all callback show ?thesis by (auto simp: lasts_def split: option.splits)
  next
    case Launch
    with h fct all scan show ?thesis by (auto simp: lasts_def)
  next
    case (Advance i dr)
    let ?pr = "running c ! i"
    obtain pr' w' where t: "process_turn env (locked_by_others i c) dr ?pr (store c) = (pr', w')" by force
    with h Advance have i: "i < length (running c)" "may_draw dr ?pr (committed (store c))"
      and c': "store c' = w'" "running c' = (running c)[i := pr']"
      by (auto simp: advance_def split: if_splits)
    have mem: "?pr \<in> set (running c)" using i(1) by simp
    from turn [OF inv(1,2) inv(4) [OF mem] inv(5) [OF mem] i(2) fct all [OF mem] t] all c' set_update_subset_insert [of "running c" i pr']
    show ?thesis by (auto simp: lasts_def)
  next
    case (Leave i)
    with h fct all set_drop_nth [of i "running c"] show ?thesis by (auto simp: lasts_def split: if_splits)
  next
    case (Kill i)
    with h fct all set_drop_nth [of i "running c"] show ?thesis by (auto simp: lasts_def split: if_splits)
  next
    case (Accept op)
    from h Accept obtain d ids user filename data where op: "op = Upload d ids user filename data"
      and "fresh_ids d ids (committed (store c))" by (cases op) (auto split: if_splits)
    from upload [OF inv(1,2) this(2) fct] upload_committed [OF inv(1)] h Accept op all show ?thesis
      by (auto simp: lasts_def split: if_splits)
  next
    case (Meanwhile now outcomes)
    with h fct all show ?thesis by (auto simp: lasts_def)
  qed
qed

lemma overlaps_lasts:
  assumes "overlaps env hs c = Some c'" "overlap_ok c" "lasts c"
  shows "lasts c'"
  using assms
proof (induction hs arbitrary: c)
  case (Cons h hs)
  then obtain c1 where c1: "happen env h c = Some c1" "overlaps env hs c1 = Some c'" by (auto split: option.splits)
  from Cons.IH [OF c1(2) happen_ok(1) [OF Cons.prems(2) c1(1)] happen_lasts [OF Cons.prems(2) c1(1) Cons.prems(3)]] show ?case .
qed simp

end

subsection \<open>Finished rows\<close>

text \<open>The rows that a process has read and may still update.\<close>

fun remembered :: "process \<Rightarrow> uuid set" where
  "remembered (Worker p (Loaded loaded row)) = {st_id row}"
| "remembered (Worker p (Starting loaded row document)) = {st_id row}"
| "remembered (Worker p (Executing loaded row document)) = {st_id row}"
| "remembered (Callback new_id raw p (Applying step)) = {st_id step}"
| "remembered (Reaper (InFlight rest acted now own)) = st_id ` set rest"
| "remembered (Reaper (InFlightFailed d r rest acted now)) = st_id ` set rest"
| "remembered (Reaper (Overdue rest acted own)) = st_id ` set rest"
| "remembered (Reaper (OverdueFailed d r rest acted)) = st_id ` set rest"
| "remembered _ = {}"

lemma updates_remembered: "updates cfg pr \<subseteq> remembered pr"
proof (cases pr)
  case (Worker p ph)
  then show ?thesis by (cases ph) auto
next
  case (Callback new_id raw p ph)
  then show ?thesis by (cases ph) auto
next
  case (Reaper ph)
  then show ?thesis by (cases "(cfg, ph)" rule: scan_updates.cases) auto
qed

text \<open>What a turn adds to a process' memory are rows that are not finished.\<close>

lemma remembered_worker:
  assumes clean: "clean w" and sch: "schema_ok (committed w)" and turn: "turn cfg dr p ph w = (ph', w')" and i: "i \<in> remembered (Worker p ph')"
  shows "i \<in> remembered (Worker p ph) \<or> (\<exists>m \<in> set (pipeline_steps (committed w)). st_id m = i \<and> st_status m \<notin> {DONE, ERROR})"
proof (cases ph)
  case Received
  with turn have "ph' = check_row (payload_step p) (payload_document_id p) w" by auto
  with i obtain row where row: "map_of (load_steps (payload_document_id p) w) (payload_step p) = Some row"
    "st_status row \<notin> TERMINAL_FOR_RUN" "i = st_id row"
    by (auto simp: check_row_def split: option.splits if_splits)
  with load_steps_lookup [OF clean sch] find_step_iff [OF sch] show ?thesis
    by (auto simp: TERMINAL_FOR_RUN_def)
next
  case (Loaded loaded row)
  with turn i show ?thesis by (auto simp: check_document_def split: option.splits if_splits)
next
  case (Starting loaded row document)
  with turn i show ?thesis by (auto simp: mark_running_def Let_def)
next
  case (Executing loaded row document)
  with turn i show ?thesis
    by (auto simp: run_and_save_def record_failure_def Let_def split: sum.splits if_splits prod.splits)
next
  case (Claiming ts document)
  with turn i show ?thesis by (cases ts) (auto split: prod.splits if_splits)
qed (use turn i in \<open>auto split: prod.splits sum.splits\<close>)

lemma remembered_call:
  assumes clean: "clean w" and turn: "call_turn parse_json new_id raw p ph w = (ph', w')" and i: "i \<in> remembered (Callback new_id raw p ph')"
  shows "\<exists>m \<in> set (pipeline_steps (committed w)). st_id m = i \<and> st_status m \<notin> {DONE, ERROR}"
proof (cases ph)
  case Arrived
  with turn i show ?thesis by (auto simp: record_call_def split: option.splits)
next
  case LookingUp
  with turn have "ph' = look_up p w" by auto
  with i obtain step where step: "get_step_by_job_id (wp_job_id p) w = Inr (Some step)" "st_status step \<notin> {DONE, ERROR}" "i = st_id step"
    by (auto simp: look_up_def split: sum.splits option.splits if_splits)
  then have "step \<in> set (filter (\<lambda>r. st_external_job_id r = Some (wp_job_id p)) (pipeline_steps (committed w)))"
    using clean by (simp add: get_step_by_job_id_def scalar_one_or_none_Some clean_def)
  with step show ?thesis by auto
next
  case (CallDeriving d r)
  have "remembered (Callback new_id raw p (conclude d r')) = {}" for r' by (cases r') simp_all
  with CallDeriving turn i show ?thesis by (auto split: prod.splits)
qed (use turn i in auto)

lemma remembered_scan:
  assumes clean: "clean w" and turn: "scan_turn cfg locked ph w = (ph', w')" and i: "i \<in> remembered (Reaper ph')"
  shows "i \<in> remembered (Reaper ph) \<or> (\<exists>m \<in> set (pipeline_steps (committed w)). st_id m = i \<and> st_status m \<notin> {DONE, ERROR})"
proof (cases ph)
  case Selecting
  with turn i clean show ?thesis by (force simp: Let_def select_for_update_def lock_stale_steps_def clean_def)
next
  case (SelectingOverdue acted now)
  with turn i clean show ?thesis by (force simp: Let_def select_for_update_def lock_stale_steps_def clean_def)
next
  case (InFlight rest acted now own)
  with turn i show ?thesis by (cases rest) (auto split: if_splits prod.splits sum.splits)
next
  case (Overdue rest acted own)
  with turn i show ?thesis by (cases rest) auto
next
  case (InFlightFailed d r rest acted now)
  with turn i show ?thesis by (auto split: prod.splits recompute.splits)
next
  case (OverdueFailed d r rest acted)
  with turn i show ?thesis by (auto split: prod.splits recompute.splits)
qed (use turn i in auto)

lemma remembered_turn:
  assumes "clean w" "schema_ok (committed w)" "process_turn env locked dr pr w = (pr', w')" "i \<in> remembered pr'"
  shows "i \<in> remembered pr \<or> (\<exists>m \<in> set (pipeline_steps (committed w)). st_id m = i \<and> st_status m \<notin> {DONE, ERROR})"
proof (cases pr)
  case (Worker p ph)
  with assms remembered_worker [OF assms(1,2)] show ?thesis by (auto split: prod.splits)
next
  case (Callback new_id raw p ph)
  with assms remembered_call [OF assms(1)] show ?thesis by (auto split: prod.splits)
next
  case (Reaper ph)
  with assms remembered_scan [OF assms(1)] show ?thesis by (auto split: prod.splits)
qed

definition finished_rows :: "pipeline_step set \<Rightarrow> database \<Rightarrow> bool" where
  "finished_rows F db \<longleftrightarrow> F \<subseteq> set (pipeline_steps db) \<and> (\<forall>q \<in> F. st_status q \<in> {DONE, ERROR})"

definition forgets :: "pipeline_step set \<Rightarrow> process \<Rightarrow> bool" where
  "forgets F pr \<longleftrightarrow> remembered pr \<inter> st_id ` F = {}"

lemma finished_rows_turn:
  assumes clean: "clean w" and sound: "sound (committed w)" and does: "does (updates cfg pr) w w'"
    and fact: "finished_rows F (committed w)" and forgets: "forgets F pr"
    and turn: "process_turn env locked dr pr w = (pr', w')"
  shows "finished_rows F (committed w')" "forgets F pr'"
proof -
  have sch: "schema_ok (committed w)" using sound by (simp add: sound_def)
  have rows: "q \<in> set (pipeline_steps (committed w))" "st_status q \<in> {DONE, ERROR}" "st_id q \<notin> remembered pr" if "q \<in> F" for q
    using that fact forgets by (auto simp: finished_rows_def forgets_def)
  from does obtain es where mv: "moves (updates cfg pr) (committed w) (committed w') es" by (auto simp: does_def)
  have "q \<in> set (pipeline_steps (committed w'))" if "q \<in> F" for q
    by (rule movesD(4) [OF mv rows(1) [OF that]]) (use rows(2,3) [OF that] updates_remembered [of cfg pr] in auto)
  with fact show "finished_rows F (committed w')" by (auto simp: finished_rows_def)
  have "st_id q \<notin> remembered pr'" if "q \<in> F" for q
  proof
    assume "st_id q \<in> remembered pr'"
    from remembered_turn [OF clean sch turn this] rows [OF that] obtain m
      where "m \<in> set (pipeline_steps (committed w))" "st_id m = st_id q" "st_status m \<notin> {DONE, ERROR}" by blast
    with rows [OF that] distinct_key_eq [OF schema_okD(2) [OF sch]] show False by metis
  qed
  then show "forgets F pr'" by (auto simp: forgets_def)
qed

lemma finished_rows_uploaded:
  "finished_rows F db \<Longrightarrow> finished_rows F (uploaded cfg abspath d ids user name now db)"
  by (auto simp: finished_rows_def uploaded_def add_document_def)

interpretation finished: lasting env "finished_rows F" "forgets F" for env F
proof unfold_locales
  fix w pr dr locked pr' w'
  assume "clean w" "sound (committed w)" "process_ok (committed w) pr" "locked_rows (committed w) pr" "finished_rows F (committed w)"
    "forgets F pr" "process_turn env locked dr pr w = (pr', w')"
  with process_turn_ok(1) finished_rows_turn show "finished_rows F (committed w') \<and> forgets F pr'" by metis
qed (simp_all add: forgets_def finished_rows_uploaded)

subsection \<open>Final documents\<close>

text \<open>The rows that determine a document's status once and for all.\<close>

definition determined_by :: "pipeline_step set \<Rightarrow> uuid \<Rightarrow> document_status \<Rightarrow> bool" where
  "determined_by F d st \<longleftrightarrow>
     st = FAILED \<and> (\<exists>r \<in> F. st_document_id r = d \<and> st_status r = ERROR) \<or>
     st = READY \<and> (\<forall>s. \<exists>r \<in> F. st_document_id r = d \<and> st_name r = s \<and> st_status r = DONE)"

lemma determined_status:
  assumes "sound db" "finished_rows F db" "determined_by F d st"
  shows "derive_document_status (document_statuses d db) = st"
proof -
  have sch: "schema_ok db" using assms(1) by (simp add: sound_def)
  have "status_of (st_document_id r) (st_name r) db = Some (st_status r)" if "r \<in> F" for r
    using assms(2) that status_of_row [OF sch] by (auto simp: finished_rows_def)
  then have "st = FAILED \<and> (\<exists>s. status_of d s db = Some ERROR) \<or> st = READY \<and> (\<forall>s. status_of d s db = Some DONE)"
    using assms(3) unfolding determined_by_def by metis
  then show ?thesis by (auto simp: derive_status [OF sch])
qed

lemma determined_map:
  assumes "clean w" "sound (committed w)" "finished_rows F (committed w)" "determined_by F d st"
  shows "derive_document_status (step_status_map d w) = st"
  using determined_status [OF assms(2-4)] assms(1,2) step_status_map_eq [of w d]
  by (simp add: clean_def sound_def document_statuses_def)

text \<open>A process that works on the document has derived this status, and updates it, if at all, from
  the row as it is.\<close>

fun derives_same :: "document \<Rightarrow> recompute \<Rightarrow> bool" where
  "derives_same q (ReadDocument new) \<longleftrightarrow> new = doc_status q"
| "derives_same q (WriteDocument new (Some document)) \<longleftrightarrow> new = doc_status q \<and> document = q"
| "derives_same q _ \<longleftrightarrow> True"

fun stops :: "document \<Rightarrow> phase \<Rightarrow> bool" where
  "stops q (Loaded loaded row) \<longleftrightarrow> doc_status q = FAILED"
| "stops q Received \<longleftrightarrow> True"
| "stops q (Replying a) \<longleftrightarrow> True"
| "stops q (Raising e) \<longleftrightarrow> True"
| "stops q _ \<longleftrightarrow> False"

fun minds :: "uuid \<Rightarrow> document \<Rightarrow> process \<Rightarrow> bool" where
  "minds d q (Worker p ph) \<longleftrightarrow> (payload_document_id p = d \<longrightarrow> stops q ph)"
| "minds d q (Callback new_id raw p (CallDeriving e r)) \<longleftrightarrow> (e = d \<longrightarrow> derives_same q r)"
| "minds d q (Reaper (InFlightFailed e r rest acted now)) \<longleftrightarrow> (e = d \<longrightarrow> derives_same q r)"
| "minds d q (Reaper (OverdueFailed e r rest acted)) \<longleftrightarrow> (e = d \<longrightarrow> derives_same q r)"
| "minds d q _ \<longleftrightarrow> True"

lemma record_status_other:
  assumes "clean w" "d \<noteq> e"
  shows "find_document d (committed (record_status e new document w)) = find_document d (committed w)"
proof -
  have "committed (record_status e new document w) =
      (if doc_status document = new then committed w else put_doc_status e new (clock w) (committed w))"
    using assms(1) by (simp add: record_status_def flush_document_status_def put_doc_status_def clean_def)
  then show ?thesis
    using assms(2) by (cases "find_document d (committed w)") (auto simp: find_document_put_doc_status dest: find_documentD)
qed

lemma recompute_turn_minds:
  assumes clean: "clean w" and fin: "derive_document_status (step_status_map d w) = doc_status q"
    and doc: "find_document d (committed w) = Some q" and r: "e = d \<longrightarrow> derives_same q r"
    and turn: "recompute_turn e r w = (r', w')"
  shows "find_document d (committed w') = Some q" "e = d \<longrightarrow> derives_same q r'"
proof -
  have "get_document d w = Some q" using doc clean by (simp add: get_document_def clean_def)
  with assms record_status_other [OF clean, of d e]
  have "find_document d (committed w') = Some q \<and> (e = d \<longrightarrow> derives_same q r')"
    by (cases "(e, r, w)" rule: recompute_turn.cases) (auto simp: record_status_def)
  then show "find_document d (committed w') = Some q" "e = d \<longrightarrow> derives_same q r'" by simp_all
qed

lemma find_document_same: "documents db' = documents db \<Longrightarrow> find_document d db' = find_document d db"
  by (simp add: find_document_def)

lemma worker_minds:
  assumes clean: "clean w" and sound: "sound (committed w)" and fin: "finished_rows F (committed w)" "determined_by F d (doc_status q)"
    and doc: "find_document d (committed w) = Some q" and ph: "payload_document_id p = d \<longrightarrow> stops q ph"
    and turn: "turn cfg dr p ph w = (ph', w')" and clean': "clean w'"
  shows "find_document d (committed w') = Some q \<and> (payload_document_id p = d \<longrightarrow> stops q ph')"
proof -
  have work: "working w = committed w" "working w' = committed w'" using clean clean' by (simp_all add: clean_def)
  have sch: "schema_ok (committed w)" using sound by (simp add: sound_def)
  have same: "find_document d (committed w') = Some q" if "documents (working w') = documents (working w)"
    using that doc work find_document_same by metis
  show ?thesis
  proof (cases ph)
    case Received
    have "stops q (check_row (payload_step p) d w)" if "payload_document_id p = d"
    proof (cases "doc_status q = FAILED")
      case False
      with fin(2) have "\<forall>s. \<exists>r \<in> F. st_document_id r = d \<and> st_name r = s \<and> st_status r = DONE" by (auto simp: determined_by_def)
      then obtain r where "r \<in> F" "st_document_id r = d" "st_name r = payload_step p" "st_status r = DONE" by blast
      with fin(1) have "find_step d (payload_step p) (committed w) = Some r" by (auto simp: finished_rows_def find_step_iff [OF sch])
      with \<open>st_status r = DONE\<close> show ?thesis
        using load_steps_lookup [OF clean sch, of d "payload_step p"] by (simp add: check_row_def TERMINAL_FOR_RUN_def)
    qed (auto simp: check_row_def split: option.split)
    with Received turn doc show ?thesis by auto
  next
    case (Loaded loaded row)
    with ph doc turn work show ?thesis by (auto simp: check_document_def get_document_def)
  next
    case (Starting loaded row document)
    with turn have "w' = snd (mark_running (payload_step p) (payload_document_id p) row w)" by (auto split: prod.splits)
    with same ph Starting show ?thesis by simp
  next
    case (Executing loaded row document)
    with turn have "documents (working w') = documents (working w)"
      by (auto simp: run_and_save_def record_failure_def save_output_defs Let_def split: sum.splits if_splits)
    with same ph Executing show ?thesis by simp
  next
    case (Claiming ts document)
    with turn have "documents (working w') = documents (working w)"
      by (cases ts) (auto split: prod.splits dest!: arg_cong [where f = snd])
    with same ph Claiming show ?thesis by simp
  next
    case (Sending t ts document)
    obtain r w1 where pub: "publish_step (payload_document_id p) t w = (r, w1)" by force
    from publish_step_frame(1) [of "payload_document_id p" t w] pub have "committed w1 = committed w" by simp
    with Sending turn pub ph doc show ?thesis by (auto split: sum.splits)
  next
    case (Recording new document)
    with turn ph doc record_status_other [OF clean, of d "payload_document_id p" new document] show ?thesis by auto
  qed (use turn ph doc in auto)
qed

lemma partner_commit_documents: "clean w \<Longrightarrow> documents (committed (partner_commit p step w)) = documents (committed w)"
  by (simp add: partner_commit_def clean_def)

lemma mark_failed_documents: "clean w \<Longrightarrow> documents (committed (mark_failed step reason w)) = documents (committed w)"
  by (simp add: mark_failed_def Let_def clean_def)

lemma document_turn:
  assumes clean: "clean w" and sound: "sound (committed w)" and fin: "finished_rows F (committed w)" "determined_by F d (doc_status q)"
    and doc: "find_document d (committed w) = Some q" and pr: "minds d q pr"
    and turn: "process_turn env locked dr pr w = (pr', w')" and clean': "clean w'"
  shows "find_document d (committed w') = Some q \<and> minds d q pr'"
proof -
  have same: "find_document d db = Some q" if "documents db = documents (committed w)" for db
    using doc that by (simp add: find_document_def)
  have failed: "find_document d (committed (mark_failed step reason w)) = Some q" for step reason
    by (rule same [OF mark_failed_documents [OF clean]])
  note rec = recompute_turn_minds [OF clean determined_map [OF clean sound fin] doc]
  show ?thesis
  proof (cases pr)
    case (Worker p ph)
    obtain ph' where t: "turn (env_settings env) dr p ph w = (ph', w')" and pr': "pr' = Worker p ph'"
      using Worker turn by (auto split: prod.splits)
    from worker_minds [OF clean sound fin doc _ t clean'] pr Worker pr' show ?thesis by simp
  next
    case (Callback new_id raw p ph)
    show ?thesis
    proof (cases ph)
      case Arrived
      have "documents (committed (record_webhook new_id (wp_job_id p) body w)) = documents (committed w)" for body
        using clean by (simp add: record_webhook_def clean_def)
      then have "find_document d (committed (record_webhook new_id (wp_job_id p) body w)) = Some q" for body by (rule same)
      with Callback Arrived turn doc show ?thesis by (auto simp: record_call_def split: option.splits)
    next
      case LookingUp
      with Callback turn doc show ?thesis by (auto simp: look_up_def split: sum.splits option.splits)
    next
      case (Applying step)
      with Callback turn same [OF partner_commit_documents [OF clean]] show ?thesis by auto
    next
      case (CallDeriving e r)
      have "minds d q (Callback new_id raw p (conclude e r')) \<longleftrightarrow> (e = d \<longrightarrow> derives_same q r')" for r'
        by (cases r') auto
      moreover obtain r' where t: "recompute_turn e r w = (r', w')" and pr': "pr' = Callback new_id raw p (conclude e r')"
        using Callback CallDeriving turn by (auto split: prod.splits)
      ultimately show ?thesis using rec [OF _ t] pr Callback CallDeriving by simp
    qed (use Callback turn doc in auto)
  next
    case (Reaper ph)
    show ?thesis
    proof (cases ph)
      case (InFlight rest acted now own)
      have pub: "committed w1 = committed w" if "publish_step e s w = (r, w1)" for e s r w1
        using publish_step_frame(1) [of e s w] that by simp
      show ?thesis
      proof (cases rest)
        case Nil
        with Reaper InFlight turn doc clean show ?thesis by (auto simp: clean_def)
      next
        case (Cons step rest')
        with Reaper InFlight turn doc pub failed show ?thesis
          by (auto split: if_splits prod.splits sum.splits)
      qed
    next
      case (Overdue rest acted own)
      with Reaper turn doc failed show ?thesis by (cases rest) auto
    next
      case (InFlightFailed e r rest acted now)
      obtain r' where t: "recompute_turn e r w = (r', w')" using Reaper InFlightFailed turn by (auto split: prod.splits)
      with rec [OF _ t] pr Reaper InFlightFailed turn show ?thesis by (cases r') auto
    next
      case (OverdueFailed e r rest acted)
      obtain r' where t: "recompute_turn e r w = (r', w')" using Reaper OverdueFailed turn by (auto split: prod.splits)
      with rec [OF _ t] pr Reaper OverdueFailed turn show ?thesis by (cases r') auto
    qed (use Reaper turn doc in \<open>auto simp: Let_def\<close>)
  qed
qed

definition final_document :: "pipeline_step set \<Rightarrow> uuid \<Rightarrow> document \<Rightarrow> database \<Rightarrow> bool" where
  "final_document F d q db \<longleftrightarrow> finished_rows F db \<and> determined_by F d (doc_status q) \<and> find_document d db = Some q"

interpretation final: lasting env "final_document F d q" "\<lambda>pr. forgets F pr \<and> minds d q pr" for env F d q
proof unfold_locales
  fix w pr dr locked pr' w'
  assume a: "clean w" "sound (committed w)" "process_ok (committed w) pr" "locked_rows (committed w) pr" "final_document F d q (committed w)"
    "forgets F pr \<and> minds d q pr" "process_turn env locked dr pr w = (pr', w')"
  note does = process_turn_ok(1) [OF a(1-4,7)]
  from a(5,6) finished_rows_turn [OF a(1,2) does _ _ a(7), of F] document_turn [OF a(1,2) _ _ _ _ a(7) doesD(1) [OF does], of F d q]
  show "final_document F d q (committed w') \<and> forgets F pr' \<and> minds d q pr'" by (auto simp: final_document_def)
next
  fix w :: world and cfg abspath d' ids user name now
  assume "fresh_ids d' ids (committed w)" "final_document F d q (committed w)"
  then show "final_document F d q (uploaded cfg abspath d' ids user name now (committed w))"
    using finished_rows_uploaded by (auto simp: final_document_def uploaded_def find_document_def add_document_def find_append)
qed (simp_all add: forgets_def)

end
