(* ===== verification/AnsweredJobs.thy ===== *)
theory AnsweredJobs
  imports Finality
begin

section \<open>A job that has been answered\<close>

text \<open>
  Once a callback has ended the step of a job, the step's row is the only one with this job and
  stays as it is, and every other callback for the job either still has to look it up or was
  answered as a duplicate.
\<close>

text \<open>Which rows a turn gives a job.\<close>

definition only_job :: "string \<Rightarrow> pipeline_step \<Rightarrow> database \<Rightarrow> bool" where
  "only_job j r db \<longleftrightarrow> st_external_job_id r = Some j \<and> (\<forall>m \<in> set (pipeline_steps db). st_external_job_id m = Some j \<longrightarrow> st_id m = st_id r)"

lemma only_job_update:
  assumes "only_job j r db" "pipeline_steps db' = update_where P f (pipeline_steps db)"
    and "\<And>m. m \<in> set (pipeline_steps db) \<Longrightarrow> st_external_job_id (f m) = Some j \<Longrightarrow> st_external_job_id m = Some j"
    and "\<And>m. st_id (f m) = st_id m"
  shows "only_job j r db'"
  using assms(1,3,4) unfolding only_job_def assms(2) by (force simp: set_update_where)

lemma only_job_flush:
  assumes "only_job j r (committed w)" "clean w" "st_external_job_id new = st_external_job_id old \<or> st_external_job_id new \<noteq> Some j"
  shows "only_job j r (working (flush_step old new w))"
proof (rule only_job_update [OF assms(1)])
  show "pipeline_steps (working (flush_step old new w)) =
      update_where (\<lambda>m. st_id m = st_id old) (merge_step (clock w) old new) (pipeline_steps (committed w))"
    using assms(2) by (simp add: clean_def)
  show "st_external_job_id m = Some j" if "st_external_job_id (merge_step (clock w) old new m) = Some j" for m
    using that assms(3) by (auto simp: merge_step_def split: if_splits)
qed simp

lemma only_job_same: "only_job j r db \<Longrightarrow> pipeline_steps db' = pipeline_steps db \<Longrightarrow> only_job j r db'"
  by (simp add: only_job_def)

lemma recompute_turn_rows:
  "clean w \<Longrightarrow> pipeline_steps (committed (snd (recompute_turn d r w))) = pipeline_steps (committed w)"
  by (cases "(d, r, w)" rule: recompute_turn.cases) (simp_all add: record_status_rows)

lemma worker_job:
  assumes clean: "clean w" and job: "only_job j r (committed w)" and draw: "draw_ok dr (p, ph) (committed w)"
    and row: "r \<in> set (pipeline_steps (committed w))" and turn: "turn cfg dr p ph w = (ph', w')"
  shows "only_job j r (committed w')"
proof (cases ph)
  case (Starting loaded row document)
  with turn have "w' = snd (mark_running (payload_step p) (payload_document_id p) row w)" by (auto split: prod.splits)
  with job clean show ?thesis by (auto simp: mark_running_def Let_def intro!: only_job_flush)
next
  case (Executing loaded row document)
  have used: "\<not> job_unused j (committed w)" using job row by (auto simp: only_job_def job_unused_def)
  show ?thesis
  proof (cases "run_step dr (payload_step p) loaded")
    case (Inl e)
    with Executing turn job clean show ?thesis
      by (auto simp: run_and_save_def record_failure_def Let_def split: if_splits intro!: only_job_flush)
  next
    case (Inr out)
    have "output_job_id out \<noteq> Some j" if "payload_step p = EXTERNAL_CALL"
      using run_step_shape(2) [OF Inr that] draw used Executing that by (auto simp: fresh_job_def)
    with Executing turn Inr job clean show ?thesis
      by (auto simp: run_and_save_def save_output_defs Let_def split: if_splits intro!: only_job_flush)
  qed
next
  case (Claiming ts document)
  show ?thesis
  proof (cases ts)
    case Nil
    with Claiming turn job show ?thesis by auto
  next
    case (Cons t ts')
    let ?w = "snd (claim_step (payload_document_id p) t w)"
    have "only_job j r (committed ?w)"
    proof (rule only_job_update [OF job])
      show "pipeline_steps (committed ?w) = update_where (claimable (payload_document_id p) t)
          (\<lambda>m. m\<lparr>st_status := QUEUED, st_updated_at := clock w\<rparr>) (pipeline_steps (committed w))"
        using clean by (simp add: claim_step_def claim_pending_step_def clean_def Let_def)
    qed simp_all
    moreover have "w' = ?w" using Claiming Cons turn by (auto split: prod.splits)
    ultimately show ?thesis by simp
  qed
next
  case (Sending t ts document)
  obtain x w1 where pub: "publish_step (payload_document_id p) t w = (x, w1)" by force
  from publish_step_frame(1) [of "payload_document_id p" t w] pub have "committed w1 = committed w" by simp
  with Sending turn pub job show ?thesis by (auto split: sum.splits)
next
  case (Recording new document)
  with turn job record_status_rows [OF clean] only_job_same show ?thesis by auto
qed (use turn job in auto)

lemma process_job:
  assumes clean: "clean w" and job: "only_job j r (committed w)" and draw: "may_draw dr pr (committed w)"
    and row: "r \<in> set (pipeline_steps (committed w))" and turn: "process_turn env locked dr pr w = (pr', w')"
  shows "only_job j r (committed w')"
proof (cases pr)
  case (Worker p ph)
  then obtain ph' where "turn (env_settings env) dr p ph w = (ph', w')" using turn by (auto split: prod.splits)
  from worker_job [OF clean job _ row this] draw Worker show ?thesis by simp
next
  case (Callback new_id raw p ph)
  show ?thesis
  proof (cases ph)
    case Arrived
    have "pipeline_steps (committed (record_webhook new_id (wp_job_id p) body w)) = pipeline_steps (committed w)" for body
      using clean by (simp add: record_webhook_def clean_def)
    with Callback Arrived turn job only_job_same show ?thesis by (auto simp: record_call_def split: option.splits)
  next
    case (Applying step)
    have "only_job j r (committed (partner_commit p step w))"
      using job clean unfolding partner_commit_def by (auto simp: partner_row_def intro!: only_job_flush)
    with Callback Applying turn show ?thesis by auto
  next
    case (CallDeriving d x)
    with Callback turn job recompute_turn_rows [OF clean, of d x] only_job_same show ?thesis by (auto split: prod.splits)
  qed (use Callback turn job in auto)
next
  case (Reaper ph)
  have failed: "only_job j r (committed (mark_failed step reason w))" for step reason
    using job clean by (auto simp: mark_failed_def Let_def intro!: only_job_flush)
  show ?thesis
  proof (cases ph)
    case (InFlight rest acted now own)
    have pub: "committed w1 = committed w" if "publish_step e s w = (x, w1)" for e s x w1
      using publish_step_frame(1) [of e s w] that by simp
    show ?thesis
    proof (cases rest)
      case Nil
      with Reaper InFlight turn job clean show ?thesis by (auto simp: clean_def)
    next
      case (Cons step rest')
      with Reaper InFlight turn job pub failed show ?thesis by (auto split: if_splits prod.splits sum.splits)
    qed
  next
    case (Overdue rest acted own)
    with Reaper turn job failed show ?thesis by (cases rest) auto
  next
    case (InFlightFailed d x rest acted now)
    with Reaper turn job recompute_turn_rows [OF clean, of d x] only_job_same show ?thesis by (auto split: prod.splits)
  next
    case (OverdueFailed d x rest acted)
    with Reaper turn job recompute_turn_rows [OF clean, of d x] only_job_same show ?thesis by (auto split: prod.splits)
  qed (use Reaper turn job in \<open>auto simp: Let_def\<close>)
qed

definition duplicate_answer :: "pyexn + webhook_response" where
  "duplicate_answer = Inr \<lparr>wr_status = DUPLICATE_IGNORED, wr_document_status = None\<rparr>"

fun ignored :: "deployment \<Rightarrow> string \<Rightarrow> process \<Rightarrow> bool" where
  "ignored env j (Callback new_id raw p ph) \<longleftrightarrow>
     (wp_job_id p = j \<longrightarrow> env_parse_json env raw \<noteq> None \<and> ph \<in> {Arrived, LookingUp, Answered duplicate_answer})"
| "ignored env j _ \<longleftrightarrow> True"

definition answered_job :: "string \<Rightarrow> pipeline_step \<Rightarrow> database \<Rightarrow> bool" where
  "answered_job j r db \<longleftrightarrow> finished_rows {r} db \<and> only_job j r db"

lemma answered_job_same: "pipeline_steps db' = pipeline_steps db \<Longrightarrow> answered_job j r db' = answered_job j r db"
  by (simp add: answered_job_def finished_rows_def only_job_def)

lemma singleton_row: "set xs = {x} \<Longrightarrow> distinct xs \<Longrightarrow> xs = [x]"
  by (cases xs) (auto simp: subset_singleton_iff dest: equalityD1)

lemma answered_lookup:
  assumes clean: "clean w" and sound: "sound (committed w)" and job: "answered_job j r (committed w)"
  shows "get_step_by_job_id j w = Inr (Some r)"
proof -
  let ?rows = "filter (\<lambda>m. st_external_job_id m = Some j) (pipeline_steps (committed w))"
  have dist: "distinct (map st_id (pipeline_steps (committed w)))" using sound schema_okD(2) by (simp add: sound_def)
  then have d: "distinct ?rows" by (simp add: distinct_map)
  have r: "r \<in> set (pipeline_steps (committed w))" "st_external_job_id r = Some j" using job by (simp_all add: answered_job_def finished_rows_def only_job_def)
  have "m = r" if "m \<in> set ?rows" for m
  proof -
    from that job have "m \<in> set (pipeline_steps (committed w))" "st_id m = st_id r" by (simp_all add: answered_job_def only_job_def)
    with distinct_key_eq [OF dist _ r(1)] show ?thesis by blast
  qed
  then have "set ?rows \<subseteq> {r}" by blast
  moreover have "r \<in> set ?rows" using r by simp
  ultimately have "set ?rows = {r}" by blast
  then have "?rows = [r]" using d by (rule singleton_row)
  with clean show ?thesis by (simp add: get_step_by_job_id_def clean_def)
qed

interpretation answered: lasting env "answered_job j r" "\<lambda>pr. forgets {r} pr \<and> ignored env j pr" for env j r
proof unfold_locales
  fix w pr dr locked pr' w'
  assume a: "clean w" "sound (committed w)" "process_ok (committed w) pr" "locked_rows (committed w) pr" "may_draw dr pr (committed w)"
    "answered_job j r (committed w)" "forgets {r} pr \<and> ignored env j pr" "process_turn env locked dr pr w = (pr', w')"
  note does = process_turn_ok(1) [OF a(1-4,8)]
  have fin: "finished_rows {r} (committed w)" and job: "only_job j r (committed w)" and row: "r \<in> set (pipeline_steps (committed w))"
    using a(6) by (simp_all add: answered_job_def finished_rows_def)
  have "ignored env j pr'"
  proof (cases pr)
    case (Callback new_id raw p ph)
    have "look_up p w = Answered duplicate_answer" if "wp_job_id p = j"
      using answered_lookup [OF a(1,2,6)] fin that by (simp add: look_up_def duplicate_answer_def finished_rows_def)
    with Callback a(7,8) show ?thesis by (auto simp: record_call_def split: option.splits prod.splits)
  qed (use a(8) in \<open>auto split: prod.splits\<close>)
  with finished_rows_turn [OF a(1,2) does fin _ a(8)] process_job [OF a(1) job a(5) row a(8)] a(7)
  show "answered_job j r (committed w') \<and> forgets {r} pr' \<and> ignored env j pr'" by (simp add: answered_job_def)
next
  fix raw signature new_id and q :: webhook_payload
  assume "accepted_call env raw signature = Some q"
  then show "forgets {r} (Callback new_id raw q Arrived) \<and> ignored env j (Callback new_id raw q Arrived)"
    by (cases "env_parse_json env raw") (auto simp: forgets_def accepted_call_def model_validate_json_def split: if_splits)
next
  fix w :: world and cfg abspath d ids user name now
  assume "answered_job j r (committed w)"
  then show "answered_job j r (uploaded cfg abspath d ids user name now (committed w))"
    using finished_rows_uploaded
    by (auto simp: answered_job_def only_job_def uploaded_def add_document_def new_steps_def new_step_def)
qed (simp_all add: forgets_def)

end
