(* ===== verification/Duplicates.thy ===== *)
theory Duplicates
  imports FanIn Progress
begin

section \<open>Two messages for the same step\<close>

text \<open>
  The reaper publishes a stale QUEUED step again although its first message may still be in the
  queue. Two workers can then load the same row before either of them has marked it RUNNING; the
  UPDATEs of \<open>handle\<close> are addressed by primary key alone, so the second worker's write over
  what the first one has stored meanwhile.
\<close>

subsection \<open>Writing over a row that has changed\<close>

lemma flush_step_stored:
  assumes ok: "schema_ok (working w)" and m: "m \<in> set (pipeline_steps (working w))" "st_id m = st_id old"
  shows "working (flush_step old new w) = put_step (merge_step (clock w) old new m) (working w)"
proof -
  have eq: "q = m" if "q \<in> set (pipeline_steps (working w))" "st_id q = st_id old" for q
    using distinct_key_eq [OF schema_okD(2) [OF ok] that(1) m(1)] that(2) m(2) by simp
  have "update_where (\<lambda>q. st_id q = st_id old) (merge_step (clock w) old new) (pipeline_steps (working w)) =
      update_where (\<lambda>q. st_id q = st_id (merge_step (clock w) old new m)) (\<lambda>_. merge_step (clock w) old new m) (pipeline_steps (working w))"
    unfolding update_where_def using eq m(2) by (intro map_cong) auto
  then show ?thesis by (simp add: flush_step_def put_step_def)
qed

text \<open>The state in which a step's row is \<open>m\<close>; \<open>db0\<close> is the database at the start.\<close>

definition row_is :: "database \<Rightarrow> payload \<Rightarrow> pipeline_step \<Rightarrow> world \<Rightarrow> bool" where
  "row_is db0 p m w \<longleftrightarrow> clean w \<and> schema_ok (committed w) \<and> current_row (committed w) p = Some m \<and>
     set (pipeline_steps (committed w)) \<subseteq> insert m (set (pipeline_steps db0))"

lemma row_is_flush:
  assumes w: "row_is db0 p m w" and id: "st_id old = st_id m"
    and v: "working v = working (flush_step old new w)"
  shows "row_is db0 p (merge_step (clock w) old new m) (commit v)"
proof -
  let ?m = "merge_step (clock w) old new m"
  have work: "working w = committed w" and sch: "schema_ok (committed w)" and m: "current_row (committed w) p = Some m"
    and sub: "set (pipeline_steps (committed w)) \<subseteq> insert m (set (pipeline_steps db0))"
    using w by (simp_all add: row_is_def clean_def)
  have mem: "m \<in> set (pipeline_steps (committed w))" "step_key m = key_of p"
    using m find_step_iff [OF sch] by (auto simp: step_key_def)
  have db: "working v = put_step ?m (committed w)"
    using flush_step_stored [of w m old new] sch mem(1) id by (simp add: v work)
  have nv: "new_version (committed w) m ?m" using mem(1) by (simp add: new_version_def)
  show ?thesis
    using schema_ok_put_step [OF sch nv] find_step_put_step [OF sch nv] mem(2) set_put_step [OF sch nv] sub
    by (auto simp: row_is_def clean_def db)
qed

lemma row_is_unused:
  assumes "row_is db0 p m w" "job_unused j db0" "st_external_job_id m \<noteq> Some j"
  shows "job_unused j (committed w)"
  using assms by (auto simp: row_is_def job_unused_def)

text \<open>A worker that starts from a row that it has loaded earlier.\<close>

definition started_row :: "timestamp \<Rightarrow> pipeline_step \<Rightarrow> pipeline_step" where
  "started_row now r = r\<lparr>st_status := RUNNING,
     st_started_at := (case st_started_at r of None \<Rightarrow> Some now | Some t \<Rightarrow> Some t)\<rparr>"

lemma turn_starting:
  assumes "row_is db0 p m w" "st_id r = st_id m"
  obtains w' where "turn cfg dr p (Starting loaded r document) w =
      (Executing (AList.update (payload_step p) (started_row (clock w) r) loaded) (started_row (clock w) r) document, w')"
    and "row_is db0 p (merge_step (clock w) r (started_row (clock w) r) m) w'" "clock w' = clock w"
    and "trace w' = trace w @ [Committed (committed w') [(payload_document_id p, step_event (payload_step p) RUNNING)]]"
proof -
  let ?v = "emit_event (payload_document_id p) (step_event (payload_step p) RUNNING) (flush_step r (started_row (clock w) r) w)"
  have "row_is db0 p (merge_step (clock w) r (started_row (clock w) r) m) (commit ?v)"
    by (rule row_is_flush [OF assms]) simp
  moreover have "pending w = []" using assms(1) by (simp add: row_is_def clean_def)
  ultimately show ?thesis
    by (intro that [of "commit ?v"]) (simp_all add: mark_running_def started_row_def Let_def)
qed

lemma turn_calling:
  assumes "row_is db0 p m w" "st_id row = st_id m" "payload_step p = EXTERNAL_CALL"
    and "run_step dr EXTERNAL_CALL loaded = Inr out" "output_job_id out = Some j"
  obtains w' where "turn cfg dr p (Executing loaded row document) w = (Replying ACK, w')"
    and "row_is db0 p (merge_step (clock w) row (row\<lparr>st_external_job_id := Some j, st_status := AWAITING_CALLBACK\<rparr>) m) w'"
    and "clock w' = clock w"
    and "trace w' = trace w @ [Committed (committed w') [(payload_document_id p, step_event EXTERNAL_CALL AWAITING_CALLBACK)]]"
proof -
  let ?row = "row\<lparr>st_external_job_id := Some j, st_status := AWAITING_CALLBACK\<rparr>"
  let ?v = "emit_event (payload_document_id p) (step_event EXTERNAL_CALL AWAITING_CALLBACK) (flush_step row ?row w)"
  have "row_is db0 p (merge_step (clock w) row ?row m) (commit ?v)"
    by (rule row_is_flush [OF assms(1,2)]) simp
  moreover have "pending w = []" using assms(1) by (simp add: row_is_def clean_def)
  ultimately show ?thesis
    using assms(3-5) by (intro that [of "commit ?v"]) (simp_all add: run_and_save_def save_output_defs Let_def)
qed

subsection \<open>The two workers\<close>

lemma two_workers:
  assumes "turn cfg dr p a v = (a', v')" "trace v' = trace v @ [Committed db ns] \<or> v' = v"
  shows "draw_ok dr (p, a) (committed v) \<Longrightarrow>
      proceed cfg (Turn 0 dr) \<lparr>shared = v, queue = Q, busy = [(p, a), b]\<rparr> = Some \<lparr>shared = v', queue = Q, busy = [(p, a'), b]\<rparr>"
    and "draw_ok dr (p, a) (committed v) \<Longrightarrow>
      proceed cfg (Turn 1 dr) \<lparr>shared = v, queue = Q, busy = [b, (p, a)]\<rparr> = Some \<lparr>shared = v', queue = Q, busy = [b, (p, a')]\<rparr>"
proof -
  have "sent_of (new_effects v v') = []" using assms(2) by (auto simp: new_effects_def)
  with assms(1) show "draw_ok dr (p, a) (committed v) \<Longrightarrow>
      proceed cfg (Turn 0 dr) \<lparr>shared = v, queue = Q, busy = [(p, a), b]\<rparr> = Some \<lparr>shared = v', queue = Q, busy = [(p, a'), b]\<rparr>"
    and "draw_ok dr (p, a) (committed v) \<Longrightarrow>
      proceed cfg (Turn 1 dr) \<lparr>shared = v, queue = Q, busy = [b, (p, a)]\<rparr> = Some \<lparr>shared = v', queue = Q, busy = [b, (p, a')]\<rparr>"
    by (simp_all add: turn_of_def)
qed

abbreviation drawn_job :: "draws \<Rightarrow> string" where
  "drawn_job dr \<equiv> ''j_'' @ take 16 (uuid_hex (job_uuid dr))"

definition double_call :: "payload \<Rightarrow> draws \<Rightarrow> draws \<Rightarrow> choice list" where
  "double_call p dr1 dr2 = [TakeMessage p, TakeMessage p, Turn 0 dr1, Turn 0 dr1, Turn 1 dr2, Turn 1 dr2,
     Turn 0 dr1, Turn 0 dr1, Turn 1 dr2, Turn 1 dr2]"

lemma merge_step_fields:
  "st_status (merge_step now old new m) = (if st_status new = st_status old then st_status m else st_status new)"
  "st_external_job_id (merge_step now old new m) =
    (if st_external_job_id new = st_external_job_id old then st_external_job_id m else st_external_job_id new)"
  by (simp_all add: merge_step_def)

lemma started_row_simps [simp]:
  "st_id (started_row now r) = st_id r" "st_status (started_row now r) = RUNNING"
  "st_external_job_id (started_row now r) = st_external_job_id r"
  by (simp_all add: started_row_def)

lemma double_call_runs:
  assumes clean: "clean w" and ok: "pipeline_ok cfg (committed w)"
    and p: "payload_step p = EXTERNAL_CALL" and r: "current_row (committed w) p = Some r" "st_status r = QUEUED"
    and doc: "find_document (payload_document_id p) (committed w) = Some q" "doc_status q \<noteq> FAILED"
    and good: "\<not> step_fails dr1" "\<not> step_fails dr2" and jobs: "drawn_job dr1 \<noteq> drawn_job dr2"
      "job_unused (drawn_job dr1) (committed w)" "job_unused (drawn_job dr2) (committed w)"
    and two: "2 \<le> count M p"
  obtains w1 w2 m1 m2 es where "schedule cfg (double_call p dr1 dr2) \<lparr>shared = w, queue = M, busy = []\<rparr> =
      Some \<lparr>shared = w2, queue = M - {#p#} - {#p#}, busy = [(p, Replying ACK), (p, Replying ACK)]\<rparr>"
    and "row_is (committed w) p m1 w1" "st_external_job_id m1 = Some (drawn_job dr1)" "st_status m1 = AWAITING_CALLBACK"
    and "row_is (committed w) p m2 w2" "st_external_job_id m2 = Some (drawn_job dr2)" "st_status m2 = AWAITING_CALLBACK"
    and "trace w2 = trace w @ es" "committed w1 \<in> set (committed_of es)"
proof -
  let ?d = "payload_document_id p" and ?j1 = "drawn_job dr1" and ?j2 = "drawn_job dr2"
  define loaded where "loaded = load_steps ?d w"
  define row where "row = started_row (clock w) r"
  define called where "called j = row\<lparr>st_external_job_id := Some j, st_status := AWAITING_CALLBACK\<rparr>" for j
  note sch = pipeline_okD(1) [OF ok]
  have mem: "r \<in> set (pipeline_steps (committed w))" "st_document_id r = ?d" "st_name r = EXTERNAL_CALL"
    using r(1) p find_step_iff [OF sch] by auto
  have none: "st_external_job_id r = None"
    using pipeline_okD(5) [OF ok mem(1)] r(2) by (auto simp: step_row_ok_def)
  have parents: "\<forall>u \<in> parents PIPELINE EXTERNAL_CALL. status_of ?d u (committed w) = Some DONE"
    using pipeline_okD(6) [OF ok mem(1)] r(2) mem by (simp add: parents_done_def)
  have "\<exists>out. run_step dr EXTERNAL_CALL (AList.update EXTERNAL_CALL row loaded) = Inr out \<and> output_job_id out = Some (drawn_job dr)"
    if "\<not> step_fails dr" for dr
  proof -
    have "find_step ?d EXTERNAL_CALL (committed w) \<noteq> None" using r(1) p by simp
    with run_step_fails_iff [OF clean ok this parents, of dr row] that obtain out where
      "run_step dr EXTERNAL_CALL (AList.update EXTERNAL_CALL row loaded) = Inr out"
      unfolding loaded_def by (cases "run_step dr EXTERNAL_CALL (AList.update EXTERNAL_CALL row (load_steps ?d w))") auto
    with run_step_shape(2) [OF this] show ?thesis by simp
  qed
  then obtain out1 out2 where out: "run_step dr1 EXTERNAL_CALL (AList.update EXTERNAL_CALL row loaded) = Inr out1" "output_job_id out1 = Some ?j1"
    "run_step dr2 EXTERNAL_CALL (AList.update EXTERNAL_CALL row loaded) = Inr out2" "output_job_id out2 = Some ?j2"
    using good by metis
  have read: "turn cfg dr p Received w = (Loaded loaded r, w)" "turn cfg dr p (Loaded loaded r) w = (Starting loaded r q, w)" for dr
    using r p doc clean map_of_load_steps [OF clean ok, of ?d EXTERNAL_CALL]
    by (simp_all add: check_row_def check_document_def loaded_def TERMINAL_FOR_RUN_def get_document_def clean_def)
  have r0: "row_is (committed w) p r w" using clean sch r(1) by (auto simp: row_is_def)
  obtain v1 where v1: "turn cfg dr1 p (Starting loaded r q) w = (Executing (AList.update EXTERNAL_CALL row loaded) row q, v1)"
    "row_is (committed w) p (merge_step (clock w) r row r) v1" "clock v1 = clock w" and t1: "\<exists>ns. trace v1 = trace w @ [Committed (committed v1) ns]"
    by (rule turn_starting [OF r0 refl, of cfg dr1 loaded q, folded row_def]) (use p in auto)
  define n1 where "n1 = merge_step (clock w) r row r"
  obtain w1 where w1: "turn cfg dr1 p (Executing (AList.update EXTERNAL_CALL row loaded) row q) v1 = (Replying ACK, w1)"
    "row_is (committed w) p (merge_step (clock w) row (called ?j1) n1) w1" "clock w1 = clock w"
    and t2: "\<exists>ns. trace w1 = trace v1 @ [Committed (committed w1) ns]"
    by (rule turn_calling [where row = row and cfg = cfg and document = q, OF v1(2) _ p out(1,2), folded n1_def])
      (use v1(3) in \<open>auto simp: row_def called_def n1_def\<close>)
  define m1 where "m1 = merge_step (clock w) row (called ?j1) n1"
  obtain v2 where v2: "turn cfg dr2 p (Starting loaded r q) w1 = (Executing (AList.update EXTERNAL_CALL row loaded) row q, v2)"
    "row_is (committed w) p (merge_step (clock w) r row m1) v2" "clock v2 = clock w" and t3: "\<exists>ns. trace v2 = trace w1 @ [Committed (committed v2) ns]"
    by (rule turn_starting [OF w1(2), of r cfg dr2 loaded q, folded m1_def, unfolded w1(3), folded row_def])
      (use p in \<open>auto simp: row_def n1_def m1_def called_def\<close>)
  define n2 where "n2 = merge_step (clock w) r row m1"
  obtain w2 where w2: "turn cfg dr2 p (Executing (AList.update EXTERNAL_CALL row loaded) row q) v2 = (Replying ACK, w2)"
    "row_is (committed w) p (merge_step (clock w) row (called ?j2) n2) w2"
    and t4: "\<exists>ns. trace w2 = trace v2 @ [Committed (committed w2) ns]"
    by (rule turn_calling [where row = row and cfg = cfg and document = q, OF v2(2) _ p out(3,4), folded n2_def])
      (use v2(3) in \<open>auto simp: row_def called_def n2_def m1_def n1_def\<close>)
  define m2 where "m2 = merge_step (clock w) row (called ?j2) n2"
  have job: "st_external_job_id n1 = None" "st_external_job_id m1 = Some ?j1" "st_external_job_id n2 = Some ?j1"
    "st_external_job_id m2 = Some ?j2" "st_status m1 = AWAITING_CALLBACK" "st_status m2 = AWAITING_CALLBACK"
    by (simp_all add: n1_def m1_def n2_def m2_def merge_step_fields row_def called_def none)
  have draw1: "job_unused ?j1 (committed v1)"
    by (rule row_is_unused [OF v1(2) jobs(2)]) (simp add: job(1) flip: n1_def)
  have draw2: "job_unused ?j2 (committed v2)"
    by (rule row_is_unused [OF v2(2) jobs(3)]) (use job(3) jobs(1) in \<open>simp flip: n2_def\<close>)
  have take: "p \<in># M" "p \<in># M - {#p#}" using two by (auto simp: in_diff_count simp flip: count_greater_zero_iff)
  obtain ns1 ns2 ns3 ns4 where tr: "trace v1 = trace w @ [Committed (committed v1) ns1]" "trace w1 = trace v1 @ [Committed (committed w1) ns2]"
    "trace v2 = trace w1 @ [Committed (committed v2) ns3]" "trace w2 = trace v2 @ [Committed (committed w2) ns4]"
    using t1 t2 t3 t4 by blast
  have fresh: "draw_ok dr1 (p, Executing l x y) (committed v1)" "draw_ok dr2 (p, Executing l x y) (committed v2)" for l x y
    using draw1 draw2 by (simp_all add: fresh_job_def)
  note A = two_workers(1) [where p = p] and B = two_workers(2) [where p = p]
  have "schedule cfg (double_call p dr1 dr2) \<lparr>shared = w, queue = M, busy = []\<rparr> =
      Some \<lparr>shared = w2, queue = M - {#p#} - {#p#}, busy = [(p, Replying ACK), (p, Replying ACK)]\<rparr>"
    unfolding double_call_def
    by (simp add: take A [OF read(1)] A [OF read(2)] B [OF read(1)] B [OF read(2)]
        A [OF v1(1) disjI1 [OF tr(1)]] A [OF w1(1) disjI1 [OF tr(2)] fresh(1)]
        B [OF v2(1) disjI1 [OF tr(3)]] B [OF w2(1) disjI1 [OF tr(4)] fresh(2)] del: proceed.simps(2) One_nat_def)
  moreover have "committed w1 \<in> set (committed_of [Committed (committed v1) ns1, Committed (committed w1) ns2,
      Committed (committed v2) ns3, Committed (committed w2) ns4])" by simp
  moreover have "trace w2 = trace w @ [Committed (committed v1) ns1, Committed (committed w1) ns2,
      Committed (committed v2) ns3, Committed (committed w2) ns4]" by (simp add: tr)
  ultimately show thesis
    using that w1(2) w2(2) job unfolding m1_def [symmetric] m2_def [symmetric] by blast
qed

end
