(* ===== verification/Scans.thy ===== *)
theory Scans
  imports DocumentStatus Progress
begin

section \<open>One scan of the reaper, exactly\<close>

text \<open>
  While the broker is up, a scan sends one message for each stale QUEUED step and turns each
  overdue call into an error with its document FAILED; it changes no other row.
\<close>

lemma reap_in_flight_up:
  assumes "faults w = []" "\<forall>q \<in> set rows. st_attempts q < step_max_attempts cfg"
  shows "reap_in_flight cfg rows acted w =
    (Inr (acted + int (length (filter (\<lambda>q. st_status q = QUEUED) rows))),
     w\<lparr>trace := trace w @ map (\<lambda>q. Published \<lparr>payload_document_id = st_document_id q, payload_step = st_name q\<rparr>)
       (filter (\<lambda>q. st_status q = QUEUED) rows)\<rparr>)"
  using assms by (induction rows arbitrary: acted w) (simp_all add: publish_step_up)

lemma sent_of_published: "sent_of (map (\<lambda>q. Published (f q)) rows) = map f rows"
  by (induction rows) simp_all

lemma reaper_fail_frame [simp]:
  "sent_of (trace (reaper_fail r reason w)) = sent_of (trace w)" "faults (reaper_fail r reason w) = faults w"
  by (simp_all add: reaper_fail_def Let_def)

definition timed_out :: "pipeline_step \<Rightarrow> pipeline_step \<Rightarrow> bool" where
  "timed_out r r' \<longleftrightarrow> step_key r' = step_key r \<and> st_status r' = ERROR \<and> st_error_text r' = Some ''partner callback timeout'' \<and>
     st_attempts r' = st_attempts r \<and> st_external_job_id r' = st_external_job_id r"

lemma reaper_fail_timed_out:
  assumes "clean w" "pipeline_ok cfg (committed w)" "1 \<le> step_max_attempts cfg"
    and "r \<in> set (pipeline_steps (committed w))" "st_status r = AWAITING_CALLBACK"
  obtains r' where "r' \<in> set (pipeline_steps (committed (reaper_fail r ''partner callback timeout'' w)))" "timed_out r r'"
proof -
  obtain r' w1 where r': "new_version (committed w) r r'" "committed w1 = put_step r' (committed w)"
    "loaded_from r' (r\<lparr>st_status := ERROR, st_error_text := Some ''partner callback timeout'', st_finished_at := Some (clock w)\<rparr>)"
    "refines cfg {st_document_id r} w w1"
    and eq: "reaper_fail r ''partner callback timeout'' w = snd (recompute_document_status (st_document_id r) w1)"
    by (rule reaper_fail_committed [OF assms(1,2,4), of "''partner callback timeout''"]) (use assms(5) in auto)
  note rec = recompute_document_status_db(2) [OF refines_clean [OF r'(4)] refines_ok [OF r'(4) assms(2,3)], of "st_document_id r"]
  have "r' \<in> set (pipeline_steps (committed (reaper_fail r ''partner callback timeout'' w)))"
    using set_put_step [OF pipeline_okD(1) [OF assms(2)] r'(1)] by (simp add: eq rec r'(2))
  moreover obtain t where "r' = r\<lparr>st_status := ERROR, st_error_text := Some ''partner callback timeout'', st_finished_at := Some (clock w), st_updated_at := t\<rparr>"
    using r'(3) unfolding loaded_from_def by metis
  then have "timed_out r r'" by (simp add: timed_out_def step_key_def)
  ultimately show thesis by (rule that)
qed

lemma reaper_fail_job_unused:
  assumes "clean w" "pipeline_ok cfg (committed w)" "1 \<le> step_max_attempts cfg"
    and "r \<in> set (pipeline_steps (committed w))" "st_status r = AWAITING_CALLBACK" "job_unused j (committed w)"
  shows "job_unused j (committed (reaper_fail r reason w))"
proof -
  obtain r' w1 where r': "new_version (committed w) r r'" "committed w1 = put_step r' (committed w)"
    "loaded_from r' (r\<lparr>st_status := ERROR, st_error_text := Some reason, st_finished_at := Some (clock w)\<rparr>)"
    "refines cfg {st_document_id r} w w1"
    and eq: "reaper_fail r reason w = snd (recompute_document_status (st_document_id r) w1)"
    by (rule reaper_fail_committed [OF assms(1,2,4), of reason]) (use assms(5) in auto)
  note rec = recompute_document_status_db(2) [OF refines_clean [OF r'(4)] refines_ok [OF r'(4) assms(2,3)], of "st_document_id r"]
  obtain t where "r' = r\<lparr>st_status := ERROR, st_error_text := Some reason, st_finished_at := Some (clock w), st_updated_at := t\<rparr>"
    using r'(3) unfolding loaded_from_def by metis
  then have "st_external_job_id r' = st_external_job_id r" by simp
  then show ?thesis
    using set_put_step [OF pipeline_okD(1) [OF assms(2)] r'(1)] assms(4,6) by (auto simp: job_unused_def eq rec r'(2))
qed

lemma reap_callbacks_exact:
  assumes "clean w" "pipeline_ok cfg (committed w)" and att: "1 \<le> step_max_attempts cfg"
    and "\<forall>q \<in> set rows. q \<in> set (pipeline_steps (committed w)) \<and> st_status q = AWAITING_CALLBACK"
    and "distinct rows"
  shows "fst (reap_callbacks rows acted w) = acted + int (length rows) \<and>
    sent_of (trace (snd (reap_callbacks rows acted w))) = sent_of (trace w) \<and>
    (\<forall>p \<in> set (pipeline_steps (committed w)) - set rows. p \<in> set (pipeline_steps (committed (snd (reap_callbacks rows acted w))))) \<and>
    (\<forall>q \<in> set rows. in_sync (st_document_id q) (committed (snd (reap_callbacks rows acted w))) \<and>
      (\<exists>q' \<in> set (pipeline_steps (committed (snd (reap_callbacks rows acted w)))). timed_out q q')) \<and>
    (\<forall>j. job_unused j (committed w) \<longrightarrow> job_unused j (committed (snd (reap_callbacks rows acted w))))"
  using assms
proof (induction rows arbitrary: acted w)
  case (Cons q rows)
  have q: "q \<in> set (pipeline_steps (committed w))" "st_status q \<in> {QUEUED, RUNNING, AWAITING_CALLBACK}" "st_status q = AWAITING_CALLBACK"
    using Cons.prems(4) by simp_all
  let ?w = "reaper_fail q ''partner callback timeout'' w"
  note fail = reaper_fail_db [OF Cons.prems(1,2) att q(1,2), where reason = "''partner callback timeout''"]
  have rest: "\<forall>p \<in> set rows. p \<in> set (pipeline_steps (committed ?w)) \<and> st_status p = AWAITING_CALLBACK" and dist: "distinct rows"
    using fail(2) Cons.prems(4,5) by (metis distinct.simps(2) list.set_intros(2), simp)
  note clean1 = refines_clean [OF fail(1)] and ok1 = refines_ok [OF fail(1) Cons.prems(2) att]
  note IH = Cons.IH [OF clean1 ok1 att rest dist, of "acted + 1"]
  obtain q' where q': "q' \<in> set (pipeline_steps (committed ?w))" "timed_out q q'"
    by (rule reaper_fail_timed_out [OF Cons.prems(1,2) att q(1,3)])
  have "q' \<notin> set rows" using rest q'(2) by (auto simp: timed_out_def)
  with IH q' have head: "\<exists>q' \<in> set (pipeline_steps (committed (snd (reap_callbacks rows (acted + 1) ?w)))). timed_out q q'" by blast
  have "in_sync (st_document_id q) (committed (snd (reap_callbacks rows (acted + 1) ?w)))"
    by (rule reap_callbacks_in_sync [OF clean1 ok1 att rest dist fail(3)])
  with IH head fail(2) reaper_fail_job_unused [OF Cons.prems(1,2) att q(1,3)] show ?case by auto
qed simp

text \<open>The rows that a scan acts on.\<close>

definition stale_queued :: "settings \<Rightarrow> world \<Rightarrow> pipeline_step list" where
  "stale_queued cfg w = filter (\<lambda>r. st_status r = QUEUED \<and> st_updated_at r < clock w - microseconds (step_timeout_seconds cfg))
     (pipeline_steps (committed w))"

definition overdue :: "settings \<Rightarrow> world \<Rightarrow> pipeline_step list" where
  "overdue cfg w = filter (\<lambda>r. st_status r = AWAITING_CALLBACK \<and> st_updated_at r < clock w - microseconds (callback_sla_seconds cfg))
     (pipeline_steps (committed w))"

lemma scan_exact:
  assumes clean: "clean w" and ok: "pipeline_ok cfg (committed w)" and att: "1 \<le> step_max_attempts cfg" and up: "faults w = []"
  defines "w' \<equiv> iteration cfg w"
  shows "fst (session_scope (run_once cfg) w) = Inr (int (length (stale_queued cfg w) + length (overdue cfg w)))"
    and "sent_of (trace w') = sent_of (trace w) @ map (\<lambda>r. \<lparr>payload_document_id = st_document_id r, payload_step = st_name r\<rparr>) (stale_queued cfg w)"
    and "\<And>r. r \<in> set (pipeline_steps (committed w)) \<Longrightarrow> r \<notin> set (overdue cfg w) \<Longrightarrow> r \<in> set (pipeline_steps (committed w'))"
    and "\<And>r. r \<in> set (overdue cfg w) \<Longrightarrow> \<exists>r'. find_step (st_document_id r) (st_name r) (committed w') = Some r' \<and> timed_out r r'"
    and "\<And>r. r \<in> set (overdue cfg w) \<Longrightarrow> map_option doc_status (find_document (st_document_id r) (committed w')) = Some FAILED"
    and "\<And>j. job_unused j (committed w) \<Longrightarrow> job_unused j (committed w')"
proof -
  have work: "open_session w = w" by (rule open_session_clean [OF clean])
  define stale where "stale = lock_stale_steps [QUEUED, RUNNING] (clock w - microseconds (step_timeout_seconds cfg)) w"
  have "\<forall>q \<in> set stale. st_attempts q < step_max_attempts cfg"
    using pipeline_okD(5) [OF ok] clean by (auto simp: stale_def lock_stale_steps_def clean_def step_row_ok_def)
  note loop = reap_in_flight_up [OF up this, of 0]
  have queued: "filter (\<lambda>q. st_status q = QUEUED) stale = stale_queued cfg w"
    using clean by (auto simp: stale_def stale_queued_def lock_stale_steps_def clean_def intro!: filter_cong)
  define w1 where "w1 = w\<lparr>trace := trace w @ map (\<lambda>q. Published \<lparr>payload_document_id = st_document_id q, payload_step = st_name q\<rparr>) (stale_queued cfg w)\<rparr>"
  have flight: "reap_in_flight cfg stale 0 w = (Inr (int (length (stale_queued cfg w))), w1)"
    unfolding loop queued by (simp add: w1_def)
  have w2: "clean (commit w1)" "committed (commit w1) = committed w" "clock (commit w1) = clock w"
    "sent_of (trace (commit w1)) = sent_of (trace w) @ map (\<lambda>r. \<lparr>payload_document_id = st_document_id r, payload_step = st_name r\<rparr>) (stale_queued cfg w)"
    using clean by (simp_all add: w1_def clean_def sent_of_published)
  have stuck: "lock_stale_steps [AWAITING_CALLBACK] (clock w - microseconds (callback_sla_seconds cfg)) (commit w1) = overdue cfg w"
    using clean by (simp add: lock_stale_steps_def overdue_def w1_def clean_def)
  have run: "run_once cfg w = (case reap_callbacks (overdue cfg w) (int (length (stale_queued cfg w))) (commit w1) of (acted, w3) \<Rightarrow> (Inr acted, w3))"
    using flight stuck by (simp add: run_once_def Let_def stale_def)
  have scope: "session_scope (run_once cfg) w = run_once cfg w"
    using session_scope_refines [where body = "run_once cfg", OF clean] refines_run_once [OF clean ok att] by blast
  have rows: "\<forall>q \<in> set (overdue cfg w). q \<in> set (pipeline_steps (committed (commit w1))) \<and> st_status q = AWAITING_CALLBACK"
    unfolding w2(2) by (simp add: overdue_def)
  have dist: "distinct (overdue cfg w)"
    using schema_okD(2) [OF pipeline_okD(1) [OF ok]] by (simp add: overdue_def distinct_map)
  note exact = reap_callbacks_exact [OF w2(1) _ att rows dist, of "int (length (stale_queued cfg w))", unfolded w2(2), OF ok]
  have w': "w' = snd (reap_callbacks (overdue cfg w) (int (length (stale_queued cfg w))) (commit w1))"
    unfolding w'_def iteration_def scope run by (simp add: case_prod_beta)
  show "fst (session_scope (run_once cfg) w) = Inr (int (length (stale_queued cfg w) + length (overdue cfg w)))"
    unfolding scope run using exact by (simp add: case_prod_beta)
  show "sent_of (trace w') = sent_of (trace w) @ map (\<lambda>r. \<lparr>payload_document_id = st_document_id r, payload_step = st_name r\<rparr>) (stale_queued cfg w)"
    unfolding w' using exact w2(4) by simp
  show "r \<in> set (pipeline_steps (committed w'))" if "r \<in> set (pipeline_steps (committed w))" "r \<notin> set (overdue cfg w)" for r
    unfolding w' using exact that by simp
  show "job_unused j (committed w')" if "job_unused j (committed w)" for j
    unfolding w' using exact that by simp
  have ok': "schema_ok (committed w')"
    using refines_ok [OF refines_iteration [OF clean ok att] ok att] pipeline_okD(1) by (simp add: w'_def)
  fix r assume r: "r \<in> set (overdue cfg w)"
  with exact obtain r' where r': "r' \<in> set (pipeline_steps (committed w'))" "timed_out r r'" and sync: "in_sync (st_document_id r) (committed w')"
    unfolding w' by blast
  have key: "st_document_id r' = st_document_id r" "st_name r' = st_name r" using r'(2) by (simp_all add: timed_out_def step_key_def)
  then have find: "find_step (st_document_id r) (st_name r) (committed w') = Some r'" using find_step_iff [OF ok'] r'(1) by simp
  with r'(2) show "\<exists>r'. find_step (st_document_id r) (st_name r) (committed w') = Some r' \<and> timed_out r r'" by blast
  have "st_document_id r' \<in> doc_id ` set (documents (committed w'))" by (rule schema_okD(6) [OF ok' r'(1)])
  then obtain q where q: "find_document (st_document_id r) (committed w') = Some q"
    using find_document_iff [OF ok', of "st_document_id r"] key by auto
  have "status_of (st_document_id r) (st_name r) (committed w') = Some ERROR" using find r'(2) by (simp add: status_of_def timed_out_def)
  with sync q have "doc_status q = FAILED" by (auto simp: in_sync_def derive_status [OF ok'])
  with q show "map_option doc_status (find_document (st_document_id r) (committed w')) = Some FAILED" by simp
qed

end
