(* ===== verification/Draining.thy ===== *)
theory Draining
  imports FanIn
begin

section \<open>The queues run empty\<close>

text \<open>
  Retries put messages back and finished steps send new ones, so it takes a measure to see that
  workers come to an end: each step has a number of tries left, one of which pays for each message that
  is sent or comes back, and a message pays for the turns of the worker that has it.
\<close>

definition tries :: "settings \<Rightarrow> pipeline_step \<Rightarrow> nat" where
  "tries cfg r = (case st_status r of
     PENDING \<Rightarrow> nat (step_max_attempts cfg - st_attempts r) + 1
   | QUEUED \<Rightarrow> nat (step_max_attempts cfg - st_attempts r)
   | RUNNING \<Rightarrow> nat (step_max_attempts cfg - st_attempts r)
   | _ \<Rightarrow> 0)"

definition tries_left :: "settings \<Rightarrow> database \<Rightarrow> nat" where
  "tries_left cfg db = sum_list (map (tries cfg) (pipeline_steps db))"

text \<open>What a worker still owes: its turns, its answer, and the message that it returns.\<close>

fun owed :: "phase \<Rightarrow> nat" where
  "owed (Replying RETRY) = 19"
| "owed (Raising e) = 19"
| "owed ph = remaining ph + 1"

definition workload :: "settings \<Rightarrow> cluster \<Rightarrow> nat" where
  "workload cfg c = 18 * tries_left cfg (committed (shared c)) + 18 * (size (queue c) + size (unsent (busy c))) +
     sum_list (map (owed \<circ> snd) (busy c))"

subsection \<open>Tries are used up\<close>

lemma step_move_tries:
  assumes "step_move cfg db r r' evs"
  shows "tries cfg r' \<le> tries cfg r"
    and "st_status r = PENDING \<Longrightarrow> tries cfg r' + 1 \<le> tries cfg r"
    and "st_status r = RUNNING \<Longrightarrow> st_status r' = QUEUED \<Longrightarrow> tries cfg r' + 1 \<le> tries cfg r"
  using assms by (cases rule: step_move.cases; auto simp: tries_def split: step_status.split)+

lemma tries_left_put_step:
  assumes "pipeline_ok cfg db" "r \<in> set (pipeline_steps db)" "step_move cfg db r r' evs"
  shows "tries_left cfg (put_step r' db) + tries cfg r = tries_left cfg db + tries cfg r'"
proof -
  note sch = pipeline_okD(1) [OF assms(1)]
  obtain ys zs where rows: "pipeline_steps db = ys @ r # zs" using split_list [OF assms(2)] by blast
  have ids: "distinct (map st_id (ys @ r # zs))" using schema_okD(2) [OF sch] rows by simp
  have "st_id r' = st_id r" using step_move_key [OF assms(3)] by simp
  then have "pipeline_steps (put_step r' db) = ys @ r' # zs"
    using ids by (auto simp: put_step_def update_where_def rows image_iff intro!: map_idI)
  then show ?thesis by (simp add: tries_left_def rows)
qed

lemma tries_left_turn:
  assumes tx: "turn_tx cfg p db db'" and ok: "pipeline_ok cfg db" and N: "claimed_in db db' N"
  shows "tries_left cfg db' + size N \<le> tries_left cfg db"
  using tx
proof (cases rule: turn_tx.cases)
  case nothing
  note same = this
  with N have "N = {#}" by (intro multiset_eqI) (simp add: claimed_in_def)
  with same show ?thesis by simp
next
  case (status st now)
  then have "N = {#}" using N by (intro multiset_eqI) (simp add: claimed_in_def unclaimed_def)
  with status show ?thesis by (simp add: tries_left_def)
next
  case (row r r' evs)
  note sch = pipeline_okD(1) [OF ok]
  let ?x = "\<lparr>payload_document_id = st_document_id r, payload_step = st_name r\<rparr>"
  have same: "status_of (payload_document_id x) (payload_step x) db' = status_of (payload_document_id x) (payload_step x) db" if "x \<noteq> ?x" for x
    using that row(1) status_of_put_step [OF sch pipeline_ok_step(2) [OF ok row(2,3)]] step_move_key [OF row(3)]
    by (cases x) (auto simp: step_key_def)
  have "status_of (st_document_id r) (st_name r) db = Some (st_status r)" by (rule status_of_row [OF sch row(2)])
  then have own: "unclaimed db ?x \<longleftrightarrow> st_status r = PENDING" by (simp add: unclaimed_def)
  have "count N x = 0" if "x \<noteq> ?x" for x using N same [OF that] by (simp add: claimed_in_def unclaimed_def)
  moreover have "count N ?x \<le> (if st_status r = PENDING then 1 else 0)" using N own by (simp add: claimed_in_def)
  moreover have "size N = count N ?x" if "\<And>x. x \<noteq> ?x \<Longrightarrow> count N x = 0"
  proof -
    have "set_mset N \<subseteq> {?x}" using that by (metis not_in_iff singletonI subsetI)
    then show ?thesis by (cases "set_mset N = {}") (auto simp: size_multiset_overloaded_eq subset_singleton_iff)
  qed
  ultimately have "size N \<le> (if st_status r = PENDING then 1 else 0)" by metis
  with tries_left_put_step [OF ok row(2,3)] step_move_tries(1,2) [OF row(3)] row(1) show ?thesis
    by (auto split: if_splits)
qed

text \<open>A retry costs a try, and nothing else brings a message back but a broker that is down.\<close>

lemma turn_retries:
  assumes clean: "clean w" and ok: "pipeline_ok cfg (committed w)" and ph: "phase_ok (committed w) p ph"
    and turn: "turn cfg dr p ph w = (Replying RETRY, w')" and rem: "remaining ph \<noteq> 0"
  shows "tries_left cfg (committed w') + 1 \<le> tries_left cfg (committed w)"
    and "unclaimed (committed w) x \<Longrightarrow> unclaimed (committed w') x"
proof -
  obtain loaded row document where exec: "ph = Executing loaded row document"
    using turn rem by (cases "(cfg, dr, p, ph, w)" rule: turn.cases)
      (auto simp: check_row_def check_document_def split: option.splits if_splits prod.splits sum.splits)
  with ph obtain r where r: "current_row (committed w) p = Some r" "loaded_from r row" "st_status r = RUNNING" by auto
  then have mem: "r \<in> set (pipeline_steps (committed w))" "st_document_id r = payload_document_id p"
    using find_step_iff [OF pipeline_okD(1) [OF ok]] by auto
  from turn exec obtain e where fail: "record_failure cfg (payload_document_id p) row e document w = (Replying RETRY, w')"
    by (auto simp: run_and_save_def split: sum.splits prod.splits if_splits)
  obtain r' evs where r': "step_move cfg (committed w) r r' evs" "committed w' = put_step r' (committed w)" "st_status r' = QUEUED"
    using record_failure_db [OF clean ok mem(1) r(2) mem(2) r(3) fail] by auto
  show "tries_left cfg (committed w') + 1 \<le> tries_left cfg (committed w)"
    using tries_left_put_step [OF ok mem(1) r'(1)] step_move_tries(3) [OF r'(1) r(3) r'(3)] r'(2) by simp
  show "unclaimed (committed w') x" if "unclaimed (committed w) x"
    using turn_tx_own(3) [OF ok r(1) _ r'(1) that] r(3) r'(2) by simp
qed

lemma turn_raises:
  assumes "turn cfg dr p ph w = (Raising e, w')" "remaining ph \<noteq> 0"
  obtains t ts document where "ph = Sending t ts document"
  using assms by (cases "(cfg, dr, p, ph, w)" rule: turn.cases)
    (auto simp: check_row_def check_document_def run_and_save_def record_failure_def Let_def
      split: option.splits if_splits prod.splits sum.splits)

subsection \<open>The workload shrinks\<close>

fun idles :: "choice \<Rightarrow> cluster \<Rightarrow> bool" where
  "idles (Turn i dr) c \<longleftrightarrow> remaining (snd (busy c ! i)) = 0"
| "idles (Die i) c \<longleftrightarrow> True"
| "idles (Environment now outcomes) c \<longleftrightarrow> True"
| "idles _ c \<longleftrightarrow> False"

text \<open>How much happens in a schedule: messages taken, turns, answers.\<close>

fun effort :: "settings \<Rightarrow> choice list \<Rightarrow> cluster \<Rightarrow> nat" where
  "effort cfg [] c = 0"
| "effort cfg (x # xs) c =
     (case proceed cfg x c of None \<Rightarrow> 0 | Some c' \<Rightarrow> (if idles x c then 0 else 1) + effort cfg xs c')"

fun is_death :: "choice \<Rightarrow> bool" where
  "is_death (Die i) \<longleftrightarrow> True"
| "is_death _ \<longleftrightarrow> False"

lemma owed_remaining: "ph \<noteq> Replying RETRY \<Longrightarrow> (\<And>e. ph \<noteq> Raising e) \<Longrightarrow> owed ph = remaining ph + 1"
  by (cases ph rule: owed.cases) auto

lemma owed_pos: "1 \<le> owed ph"
  by (cases ph rule: owed.cases) simp_all

lemma workload_turn:
  assumes ok: "cluster_ok cfg c" and att: "1 \<le> step_max_attempts cfg" and step: "proceed cfg (Turn i dr) c = Some c'"
    and busy: "remaining (snd (busy c ! i)) \<noteq> 0"
  shows "workload cfg c' + 1 \<le> workload cfg c"
proof -
  let ?db = "committed (shared c)" and ?db' = "committed (shared c')"
  obtain ys p ph zs ph' N where at: "busy c ! i = (p, ph)" "queue c' = queue c + mset (sent_of (new_effects (shared c) (shared c')))"
    and b: "busy c = ys @ (p, ph) # zs" "busy c' = ys @ (p, ph') # zs"
    and turn: "turn cfg dr p ph (shared c) = (ph', shared c')" and sound: "sound_turn cfg p ph (shared c) ph' (shared c')"
    and N: "claimed_in ?db ?db' N"
    and acc: "held c' = held c + N \<and> issued c' = issued c + N \<or>
      N = {#} \<and> faults (shared c) \<noteq> [] \<and> held c = held c' + mset (about_to_send (p, ph)) \<and>
      issued c = issued c' + mset (about_to_send (p, ph))"
    by (rule proceed_turn_at [OF ok att step])
  note inv = cluster_okD [OF ok]
  have tx: "turn_tx cfg p ?db ?db'" using sound by (simp add: sound_turn_def)
  have ph: "phase_ok ?db p ph" using inv(6) b(1) by simp
  have rem: "remaining ph \<noteq> 0" using busy at(1) by simp
  have less: "remaining ph' + 1 \<le> remaining ph" using turn_remaining [of cfg dr p ph "shared c"] turn rem by simp
  have owed: "owed ph = remaining ph + 1" using rem by (intro owed_remaining) auto
  let ?msgs = "\<lambda>c. size (queue c) + size (unsent (busy c))"
  have size: "size (held c') = ?msgs c' + length (busy c')" "size (held c) = ?msgs c + length (busy c)"
    by (simp_all add: held_def)
  have len: "length (busy c') = length (busy c)" by (simp add: b)
  have tries: "tries_left cfg ?db' + size N \<le> tries_left cfg ?db" by (rule tries_left_turn [OF tx inv(2) N])
  have msgs: "?msgs c' = ?msgs c + size N \<or> N = {#} \<and> ?msgs c = ?msgs c' + length (about_to_send (p, ph))"
    using acc size len by (elim disjE conjE) simp_all
  have work: "workload cfg c = 18 * tries_left cfg ?db + 18 * ?msgs c + sum_list (map (owed \<circ> snd) (ys @ zs)) + owed ph"
      "workload cfg c' = 18 * tries_left cfg ?db' + 18 * ?msgs c' + sum_list (map (owed \<circ> snd) (ys @ zs)) + owed ph'"
    by (simp_all add: workload_def b)
  consider (retry) "ph' = Replying RETRY" | (raise) e where "ph' = Raising e" | (other) "ph' \<noteq> Replying RETRY" "\<And>e. ph' \<noteq> Raising e"
    by blast
  then show ?thesis
  proof cases
    case retry
    note r = turn_retries [OF inv(1,2) ph turn [unfolded retry] rem]
    have "N = {#}" using N r(2) by (intro multiset_eqI) (auto simp: claimed_in_def)
    with msgs r(1) owed less retry show ?thesis unfolding work by auto
  next
    case raise
    then obtain t ts document where send: "ph = Sending t ts document" using turn_raises turn rem by metis
    have "\<exists>e. publish_step (payload_document_id p) t (shared c) = (Inl e, shared c')"
      using turn send raise by (auto split: prod.splits sum.splits)
    then have "trace (shared c') = trace (shared c)" using publish_step_trace [of "payload_document_id p" t "shared c"] by auto
    then have "?msgs c = ?msgs c' + 1" using at(2) send raise by (simp add: b new_effects_def)
    with tries raise owed less show ?thesis unfolding work by auto
  next
    case other
    then have "owed ph' = remaining ph' + 1" by (rule owed_remaining)
    with msgs tries owed less show ?thesis unfolding work by auto
  qed
qed

lemma workload_take:
  assumes "proceed cfg (TakeMessage p) c = Some c'"
  shows "workload cfg c' + 1 = workload cfg c"
proof -
  from assms have p: "p \<in># queue c" and c': "c' = c\<lparr>queue := queue c - {#p#}, busy := busy c @ [(p, Received)]\<rparr>"
    by (auto split: if_splits)
  have "size (queue c) = size (queue c') + 1" using multi_member_split [OF p] by (auto simp: c')
  then show ?thesis by (simp add: workload_def c')
qed

lemma workload_leave:
  assumes "i < length (busy c)" "busy c ! i = (p, ph)" "c' = c\<lparr>queue := queue c + M, busy := drop_nth i (busy c)\<rparr>"
  shows "workload cfg c' + owed ph + 18 * length (about_to_send (p, ph)) = workload cfg c + 18 * size M"
proof -
  obtain ys zs where b: "busy c = ys @ (p, ph) # zs" "drop_nth i (busy c) = ys @ zs"
    using busy_split [OF assms(1)] assms(2) by metis
  show ?thesis by (simp add: workload_def assms(3) b(1) b(2) [unfolded b(1)])
qed

text \<open>A worker that has its answer stays as it is.\<close>

lemma workload_idle:
  assumes "proceed cfg (Turn i dr) c = Some c'" "remaining (snd (busy c ! i)) = 0"
  shows "workload cfg c' = workload cfg c"
proof -
  from assms(1) have i: "i < length (busy c)" and c': "c' = turn_of cfg i dr c" by (auto split: if_splits)
  obtain p ph where pi: "busy c ! i = (p, ph)" by force
  obtain r where "ph = reply_phase r" using assms(2) pi remaining_zero by auto
  then have "turn cfg dr p ph (shared c) = (ph, shared c)" by (auto simp: reply_phase_def split: sum.split)
  moreover have "(busy c)[i := (p, ph)] = busy c" using pi by (metis list_update_id)
  ultimately have "c' = c" by (simp add: c' turn_of_def pi new_effects_def)
  then show ?thesis by simp
qed

lemma workload_proceed:
  assumes ok: "cluster_ok cfg c" and att: "1 \<le> step_max_attempts cfg" and step: "proceed cfg x c = Some c'"
  shows "workload cfg c' + (if idles x c then 0 else 1) \<le> workload cfg c + (if is_death x then 18 else 0)"
proof (cases x)
  case (TakeMessage p)
  with workload_take step show ?thesis by fastforce
next
  case (Turn i dr)
  show ?thesis
  proof (cases "remaining (snd (busy c ! i)) = 0")
    case True
    with Turn workload_idle step show ?thesis by simp
  next
    case False
    with Turn workload_turn [OF ok att _ False] step show ?thesis by simp
  qed
next
  case (Reply i)
  obtain p ph where pi: "busy c ! i = (p, ph)" by force
  from step Reply pi obtain M where i: "i < length (busy c)" and M: "returned p ph = Some M"
    and c': "c' = c\<lparr>queue := queue c + M, busy := drop_nth i (busy c)\<rparr>" by (auto split: if_splits)
  have "18 * size M + 1 \<le> owed ph" using M by (cases "(p, ph)" rule: returned.cases) auto
  with workload_leave [OF i pi c', of cfg] Reply show ?thesis by simp
next
  case (Die i)
  obtain p ph where pi: "busy c ! i = (p, ph)" by force
  from step Die pi have i: "i < length (busy c)" and c': "c' = c\<lparr>queue := queue c + {#p#}, busy := drop_nth i (busy c)\<rparr>"
    by (auto split: if_splits)
  with workload_leave [OF i pi c', of cfg] Die show ?thesis by simp
next
  case (Environment now outcomes)
  with step show ?thesis by (auto simp: workload_def)
qed

lemma effort_bound:
  assumes "schedule cfg xs c = Some c'" "cluster_ok cfg c" "1 \<le> step_max_attempts cfg"
  shows "effort cfg xs c + workload cfg c' \<le> workload cfg c + 18 * length (filter is_death xs)"
  using assms
proof (induction xs arbitrary: c)
  case (Cons x xs)
  then obtain c1 where c1: "proceed cfg x c = Some c1" "schedule cfg xs c1 = Some c'" by (auto split: option.splits)
  from Cons.IH [OF c1(2) cluster_ok_proceed [OF Cons.prems(2,3) c1(1)] Cons.prems(3)]
    workload_proceed [OF Cons.prems(2,3) c1(1)] c1(1) show ?case by (auto split: if_splits)
qed simp

lemma workload_zero:
  assumes "workload cfg c = 0"
  shows "queue c = {#}" "busy c = []"
proof -
  show "queue c = {#}" using assms by (simp add: workload_def)
  show "busy c = []"
  proof (rule ccontr)
    assume "busy c \<noteq> []"
    then obtain x xs where "busy c = x # xs" by (cases "busy c") auto
    with assms owed_pos [of "snd x"] show False by (simp add: workload_def)
  qed
qed

end
