(* ===== verification/ConcurrentGuarantees.thy ===== *)
theory ConcurrentGuarantees
  imports Duplicates Traffic Scans Draining
begin

section \<open>What holds when several workers run at a time\<close>

text \<open>
  The properties of the workers that share the database: what no schedule can break, what a
  reliable schedule achieves, and that every schedule comes to an end.
  The runs start from any state that the system reaches.
\<close>

subsection \<open>Runs from a reachable state\<close>

definition idle_cluster :: "world \<Rightarrow> payload multiset \<Rightarrow> cluster" where
  "idle_cluster w M = \<lparr>shared = w, queue = M, busy = []\<rparr>"

lemma idle_cluster_simps [simp]:
  "shared (idle_cluster w M) = w" "queue (idle_cluster w M) = M" "busy (idle_cluster w M) = []"
  "held (idle_cluster w M) = M" "issued (idle_cluster w M) = mset (sent_of (trace w))"
  by (simp_all add: idle_cluster_def held_def issued_def)

lemma reachable_cluster_ok:
  assumes "reachable env (w, M)" "1 \<le> step_max_attempts (env_settings env)" "\<forall>x. count M x \<le> 1"
  shows "cluster_ok (env_settings env) (idle_cluster w M)"
  using reachable_system_ok [OF assms(1,2)] reachable_honest [OF assms(1,2)] assms(3)
  by (simp add: system_ok_def cluster_ok_def)

lemma schedule_append:
  "schedule cfg (xs @ ys) c = (case schedule cfg xs c of None \<Rightarrow> None | Some c' \<Rightarrow> schedule cfg ys c')"
  by (induction cfg xs c rule: schedule.induct) (auto split: option.splits)

lemma activities_append:
  "activities env (xs @ ys) c = (case activities env xs c of None \<Rightarrow> None | Some c' \<Rightarrow> activities env ys c')"
  by (induction env xs c rule: activities.induct) (auto split: option.splits)

text \<open>What was sent in a run without workers at either end.\<close>

lemma sent_in_run:
  assumes "activities env xs (idle_cluster w M) = Some c" "cluster_ok (env_settings env) (idle_cluster w M)" "1 \<le> step_max_attempts (env_settings env)"
  shows "count (mset (sent_of (new_effects w (shared c)))) x + count (unsent (busy c)) x \<le>
      (if \<not> deliverable x (committed w) \<and> deliverable x (committed (shared c)) then 1 else 0)"
    and "\<forall>a \<in> set xs. steady a \<Longrightarrow> faults w = [] \<Longrightarrow> count (mset (sent_of (new_effects w (shared c)))) x + count (unsent (busy c)) x =
      (if \<not> deliverable x (committed w) \<and> deliverable x (committed (shared c)) then 1 else 0)"
proof -
  have "count (issued c) x = count (mset (sent_of (trace w))) x + (count (mset (sent_of (new_effects w (shared c)))) x + count (unsent (busy c)) x)"
    using activities_database(1) [OF assms] by (auto simp: issued_def new_effects_def)
  with activities_issued [OF assms, of x]
  show "count (mset (sent_of (new_effects w (shared c)))) x + count (unsent (busy c)) x \<le>
      (if \<not> deliverable x (committed w) \<and> deliverable x (committed (shared c)) then 1 else 0)"
    and "\<forall>a \<in> set xs. steady a \<Longrightarrow> faults w = [] \<Longrightarrow> count (mset (sent_of (new_effects w (shared c)))) x + count (unsent (busy c)) x =
      (if \<not> deliverable x (committed w) \<and> deliverable x (committed (shared c)) then 1 else 0)"
    by (simp_all add: arrived_def)
qed

text \<open>A run of the demo: one worker handles the first step, then two workers take turns on metadata
  and chunking and look for ready successors at the same time, then one calls the partner.\<close>

abbreviation demo_message :: "step_name \<Rightarrow> payload" where
  "demo_message s \<equiv> \<lparr>payload_document_id = 7, payload_step = s\<rparr>"

definition lone_worker :: "nat \<Rightarrow> step_name \<Rightarrow> choice list" where
  "lone_worker n s = TakeMessage (demo_message s) # replicate n (Turn 0 good_draws) @ [Reply 0]"

definition demo_schedule :: "choice list" where
  "demo_schedule = lone_worker 12 OCR @ [TakeMessage (demo_message METADATA), TakeMessage (demo_message CHUNKING)] @
     concat (replicate 10 [Turn 0 good_draws, Turn 1 good_draws]) @ [Reply 1, Reply 0] @ lone_worker 4 EXTERNAL_CALL"

lemma demo_schedule_runs:
  obtains c where "schedule default_settings demo_schedule (idle_cluster uploaded_world {#demo_message OCR#}) = Some c"
    and "busy c = []" "queue c = {#}" "\<forall>s. status_of 7 s (committed (shared c)) = Some (if s = EXTERNAL_CALL then AWAITING_CALLBACK else DONE)"
proof -
  have "case schedule default_settings demo_schedule (idle_cluster uploaded_world {#demo_message OCR#}) of
      None \<Rightarrow> False
    | Some c \<Rightarrow> busy c = [] \<and> queue c = {#} \<and>
        list_all (\<lambda>s. status_of 7 s (committed (shared c)) = Some (if s = EXTERNAL_CALL then AWAITING_CALLBACK else DONE)) all_step_names"
    by code_simp
  then obtain c where c: "schedule default_settings demo_schedule (idle_cluster uploaded_world {#demo_message OCR#}) = Some c"
    "busy c = []" "queue c = {#}"
    "list_all (\<lambda>s. status_of 7 s (committed (shared c)) = Some (if s = EXTERNAL_CALL then AWAITING_CALLBACK else DONE)) all_step_names"
    by (auto split: option.splits)
  have "status_of 7 s (committed (shared c)) = Some (if s = EXTERNAL_CALL then AWAITING_CALLBACK else DONE)" for s
    using c(4) by (cases s) (simp_all add: all_step_names_def)
  then show thesis by (intro that [OF c(1-3)]) blast
qed

lemma demo_reaches: "reachable demo_env (uploaded_world, {#demo_message OCR#})"
  using demo_initial demo_run unfolding reachable_def by blast

lemma demo_schedule_reliable: "\<forall>y \<in> set demo_schedule. reliable y"
  by (simp add: demo_schedule_def lone_worker_def)

subsection \<open>Any schedule\<close>

text \<open>
  C2: Several workers never spoil the state. From any state that the system reaches in which
  no step has two messages in the queues, whatever order the workers' turns come in, with uploads
  and partner calls between them, workers dying and the broker failing at any point: the database
  stays well formed and every document status tells the truth, finished steps stay as they are,
  each step has at most one message (queued, in a worker's hands, or about to be sent) and none
  while it is PENDING, and the run sends a message only for a step that is claimed, or uploaded
  ready to run, in it, and only once.
\<close>

theorem concurrent_workers_keep_the_state_consistent:
  assumes "reachable env (w, M)" "1 \<le> step_max_attempts (env_settings env)" "\<forall>x. count M x \<le> 1"
    and "activities env xs (idle_cluster w M) = Some c"
  shows "pipeline_ok (env_settings env) (committed (shared c)) \<and> honest (committed (shared c)) \<and>
    (\<forall>d s q. find_step d s (committed w) = Some q \<and> st_status q \<in> {DONE, ERROR} \<longrightarrow>
      find_step d s (committed (shared c)) = Some q) \<and>
    (\<forall>x. count (held c) x \<le> 1 \<and> (x \<in># held c \<longrightarrow> deliverable x (committed (shared c)))) \<and>
    (\<forall>x. count (mset (sent_of (new_effects w (shared c)))) x \<le>
      (if \<not> deliverable x (committed w) \<and> deliverable x (committed (shared c)) then 1 else 0))"
proof -
  note ok = reachable_cluster_ok [OF assms(1-3)]
  note run = assms(4) ok assms(2)
  have "count (mset (sent_of (new_effects w (shared c)))) x \<le>
      (if \<not> deliverable x (committed w) \<and> deliverable x (committed (shared c)) then 1 else 0)" for x
    using sent_in_run(1) [OF run, of x] by linarith
  with activities_ok [OF run] activities_database(2) [OF run] show ?thesis by (auto simp: cluster_ok_def)
qed

text \<open>A worker dies after it has claimed and announced a successor, before it publishes the message;
  then the partner calls with a job that nobody knows.\<close>

abbreviation deadly_run :: "choice list" where
  "deadly_run \<equiv> TakeMessage (demo_message OCR) # replicate 6 (Turn 0 good_draws) @ [Die 0]"

abbreviation stray_call :: activity where
  "stray_call \<equiv> Serve (PartnerCall 99 ''unknown'' (demo_signature ''unknown''))"

theorem concurrent_workers_keep_the_state_consistent_witness:
  "\<exists>c. activities demo_env (map Work deadly_run @ [stray_call]) (idle_cluster uploaded_world {#demo_message OCR#}) = Some c \<and>
    pipeline_ok default_settings (committed (shared c)) \<and> count (held c) (demo_message METADATA) \<le> 1"
proof -
  let ?run = "schedule default_settings deadly_run (idle_cluster uploaded_world {#demo_message OCR#})"
  have "case ?run of None \<Rightarrow> False | Some c \<Rightarrow> status_of 7 METADATA (committed (shared c)) = Some QUEUED \<and> sent_of (new_effects uploaded_world (shared c)) = []"
    by code_simp
  then obtain b where "?run = Some b" by (auto split: option.splits)
  then have "activities demo_env (map Work deadly_run @ [stray_call]) (idle_cluster uploaded_world {#demo_message OCR#}) =
      Some (after_serving demo_env (PartnerCall 99 ''unknown'' (demo_signature ''unknown'')) b)"
    by (simp only: activities_append activities_work demo_env_simps) simp
  moreover have "\<forall>x. count {#demo_message OCR#} x \<le> 1" by simp
  note concurrent_workers_keep_the_state_consistent [OF demo_reaches _ this, of "map Work deadly_run @ [stray_call]"
    "after_serving demo_env (PartnerCall 99 ''unknown'' (demo_signature ''unknown'')) b"]
  ultimately show ?thesis by (simp only: demo_env_simps demo_att) blast
qed

subsection \<open>Reliable schedules\<close>

text \<open>
  C4: The fan-in fires exactly once: not zero times, not twice. Take a step that is PENDING and
  not ready in a state that the system reaches, and any order of the turns of any number of
  workers, such as the two that finish metadata and chunking at the same time, with uploads and
  partner calls between them, in which no worker dies and the broker stays up. When all workers
  are free again, the step has left PENDING and its message has
  been sent once if its predecessors are all DONE; otherwise it is PENDING and nothing was sent.
\<close>

theorem fan_in_fires_exactly_once:
  assumes "reachable env (w, M)" "1 \<le> step_max_attempts (env_settings env)" "\<forall>x. count M x \<le> 1" "faults w = []"
    and "activities env xs (idle_cluster w M) = Some c" "\<forall>a \<in> set xs. steady a" "busy c = []"
    and "status_of d t (committed w) = Some PENDING" "\<exists>u \<in> parents PIPELINE t. status_of d u (committed w) \<noteq> Some DONE"
  shows "(status_of d t (committed (shared c)) = Some PENDING) =
      (\<exists>u \<in> parents PIPELINE t. status_of d u (committed (shared c)) \<noteq> Some DONE) \<and>
    count (mset (sent_of (new_effects w (shared c)))) \<lparr>payload_document_id = d, payload_step = t\<rparr> =
      (if \<forall>u \<in> parents PIPELINE t. status_of d u (committed (shared c)) = Some DONE then 1 else 0)"
proof -
  let ?x = "\<lparr>payload_document_id = d, payload_step = t\<rparr>"
  note ok = reachable_cluster_ok [OF assms(1-3)]
  note run = assms(5) ok assms(2)
  have "claim_covered ?x (idle_cluster w M)" using assms(9) by (auto simp: claim_covered_def triggerable_def)
  then have "claim_covered ?x c" using activities_covered(1) [OF run assms(6)] assms(4) by simp
  then have fired: "\<exists>u \<in> parents PIPELINE t. status_of d u (committed (shared c)) \<noteq> Some DONE"
    if "status_of d t (committed (shared c)) = Some PENDING"
    using that assms(7) by (auto simp: claim_covered_def attended_def unclaimed_def triggerable_def)
  have kept: "status_of d t (committed (shared c)) = Some PENDING"
    if "\<exists>u \<in> parents PIPELINE t. status_of d u (committed (shared c)) \<noteq> Some DONE"
  proof (rule ccontr)
    assume no: "status_of d t (committed (shared c)) \<noteq> Some PENDING"
    have "find_step d t (committed w) \<noteq> None" using assms(8) by (auto simp: status_of_def)
    then have "find_step d t (committed (shared c)) \<noteq> None" using activities_database(3) [OF run] by simp
    then obtain r where r: "find_step d t (committed (shared c)) = Some r" by auto
    note inv = cluster_okD(2) [OF activities_ok [OF run]]
    from r no have "r \<in> set (pipeline_steps (committed (shared c)))" "st_document_id r = d" "st_name r = t" "st_status r \<noteq> PENDING"
      using find_step_iff [OF pipeline_okD(1) [OF inv]] by (auto simp: status_of_def)
    with pipeline_okD(6) [OF inv] that show False by (auto simp: parents_done_def)
  qed
  have iff: "(status_of d t (committed (shared c)) = Some PENDING) =
      (\<exists>u \<in> parents PIPELINE t. status_of d u (committed (shared c)) \<noteq> Some DONE)"
    using fired kept by blast
  moreover have "count (mset (sent_of (new_effects w (shared c)))) ?x =
      (if \<forall>u \<in> parents PIPELINE t. status_of d u (committed (shared c)) = Some DONE then 1 else 0)"
  proof -
    have "find_step d t (committed w) \<noteq> None" using assms(8) by (auto simp: status_of_def)
    then have "find_step d t (committed (shared c)) \<noteq> None" using activities_database(3) [OF run] by simp
    then have "deliverable ?x (committed (shared c)) \<longleftrightarrow> status_of d t (committed (shared c)) \<noteq> Some PENDING"
      by (auto simp: deliverable_def status_of_def)
    moreover have "\<not> deliverable ?x (committed w)" using assms(8) by (auto simp: deliverable_def status_of_def)
    ultimately show ?thesis
      using sent_in_run(2) [OF run assms(6,4), of ?x] assms(7) iff by auto
  qed
  ultimately show ?thesis by blast
qed

theorem fan_in_fires_exactly_once_witness:
  "\<exists>c. activities demo_env (map Work demo_schedule) (idle_cluster uploaded_world {#demo_message OCR#}) = Some c \<and>
    count (mset (sent_of (new_effects uploaded_world (shared c)))) (demo_message EXTERNAL_CALL) = 1"
proof -
  obtain c where c: "activities demo_env (map Work demo_schedule) (idle_cluster uploaded_world {#demo_message OCR#}) = Some c"
    "busy c = []" "\<forall>s. status_of 7 s (committed (shared c)) = Some (if s = EXTERNAL_CALL then AWAITING_CALLBACK else DONE)"
    by (rule demo_schedule_runs) (simp add: activities_work)
  have "status_of 7 s (committed uploaded_world) = Some (start_statuses s)" for s
    using uploaded_on_track by (simp add: on_track_def)
  with demo_reaches show ?thesis
    using fan_in_fires_exactly_once [of demo_env uploaded_world "{#demo_message OCR#}" "map Work demo_schedule" c 7 EXTERNAL_CALL]
      c demo_schedule_reliable by (simp add: start_statuses_def enum_simps)
qed

text \<open>A document with which nobody has anything to do.\<close>

lemma rested_document:
  assumes ok: "pipeline_ok cfg db" and q: "find_document d db = Some q" "in_sync d db"
    and rest: "\<And>s. status_of d s db = Some PENDING \<or> settled d s db"
    and ready: "\<And>s. status_of d s db = Some PENDING \<Longrightarrow> \<exists>u \<in> parents PIPELINE s. status_of d u db \<noteq> Some DONE"
  shows "doc_status q = FAILED \<and> (\<exists>s. status_of d s db = Some ERROR) \<or>
    doc_status q = PROCESSING \<and> (\<forall>s. status_of d s db = Some (if s = EXTERNAL_CALL then AWAITING_CALLBACK else DONE)) \<or>
    doc_status q = READY \<and> (\<forall>s. status_of d s db = Some DONE)"
proof -
  from q have st: "doc_status q = (if \<exists>s. status_of d s db = Some ERROR then FAILED
      else if status_of d EXTERNAL_CALL db = Some DONE then READY else PROCESSING)"
    by (simp add: in_sync_def derive_status [OF pipeline_okD(1) [OF ok]])
  show ?thesis
  proof (cases "\<exists>s. status_of d s db = Some ERROR")
    case True
    with st show ?thesis by auto
  next
    case False
    with st have "doc_status q \<noteq> FAILED" by simp
    with rest q(1) False have each: "status_of d s db \<in> {Some PENDING, Some AWAITING_CALLBACK, Some DONE}" for s
      by (fastforce simp: settled_def)
    note waiting = waiting_is_external [OF ok, of d]
    have ocr: "status_of d OCR db = Some DONE" using each [of OCR] ready [of OCR] waiting [of OCR] by (auto simp: enum_simps)
    have mid: "status_of d METADATA db = Some DONE" "status_of d CHUNKING db = Some DONE"
      using each [of METADATA] each [of CHUNKING] ready [of METADATA] ready [of CHUNKING] waiting [of METADATA] waiting [of CHUNKING] ocr
      by (auto simp: enum_simps)
    have "status_of d EXTERNAL_CALL db \<in> {Some AWAITING_CALLBACK, Some DONE}"
      using each [of EXTERNAL_CALL] ready [of EXTERNAL_CALL] mid by (auto simp: enum_simps)
    then consider "status_of d EXTERNAL_CALL db = Some AWAITING_CALLBACK" | "status_of d EXTERNAL_CALL db = Some DONE" by auto
    then show ?thesis
    proof cases
      case 1
      then have "status_of d s db = Some (if s = EXTERNAL_CALL then AWAITING_CALLBACK else DONE)" for s
        using ocr mid by (cases s) simp_all
      with st False 1 show ?thesis by simp
    next
      case 2
      then have "status_of d s db = Some DONE" for s using ocr mid by (cases s) simp_all
      with st False 2 show ?thesis by simp
    qed
  qed
qed

text \<open>
  C10: Nothing is left behind while no worker dies and the broker stays up. Take a document of a
  state that the system reaches whose status is the derived one, whose QUEUED and RUNNING steps
  have their messages in the queues, and none of whose PENDING steps is ready, or one that is
  uploaded later. When the workers, in any number and any order, have emptied the queues and are
  free, then, whatever the partner has answered in between, the document is FAILED and one of
  its steps is in ERROR, or READY and all its steps are DONE, or metadata, chunking and OCR are
  DONE and only the partner's answer is missing.
\<close>

theorem drained_queues_leave_nothing_behind:
  assumes "reachable env (w, M)" "1 \<le> step_max_attempts (env_settings env)" "\<forall>x. count M x \<le> 1" "faults w = []"
    and "activities env xs (idle_cluster w M) = Some c" "\<forall>a \<in> set xs. steady a" "busy c = []" "queue c = {#}"
    and "in_sync d (committed w)"
    and "\<forall>s. status_of d s (committed w) \<in> {Some QUEUED, Some RUNNING} \<longrightarrow> \<lparr>payload_document_id = d, payload_step = s\<rparr> \<in># M"
    and "\<forall>s. status_of d s (committed w) = Some PENDING \<longrightarrow> (\<exists>u \<in> parents PIPELINE s. status_of d u (committed w) \<noteq> Some DONE)"
    and "find_document d (committed (shared c)) = Some q"
  shows "doc_status q = FAILED \<and> (\<exists>s. status_of d s (committed (shared c)) = Some ERROR) \<or>
    doc_status q = PROCESSING \<and> (\<forall>s. status_of d s (committed (shared c)) = Some (if s = EXTERNAL_CALL then AWAITING_CALLBACK else DONE)) \<or>
    doc_status q = READY \<and> (\<forall>s. status_of d s (committed (shared c)) = Some DONE)"
proof -
  let ?db = "committed (shared c)"
  note ok = reachable_cluster_ok [OF assms(1-3)]
  note run = assms(5) ok assms(2)
  note ok' = activities_ok [OF run]
  note inv = cluster_okD [OF ok']
  from inv(2) have pok: "pipeline_ok (env_settings env) ?db" .
  note sch = pipeline_okD(1) [OF pok]
  have start: "row_covered \<lparr>payload_document_id = d, payload_step = s\<rparr> (idle_cluster w M)" for s
  proof -
    have "message_covered \<lparr>payload_document_id = d, payload_step = s\<rparr> (idle_cluster w M)" if "status_of d s (committed w) = Some st" for st
      using that assms(10) by (cases st) (auto simp: message_covered_def unclaimed_def settled_def)
    then show ?thesis by (auto simp: row_covered_def status_of_def)
  qed
  have claims: "claim_covered \<lparr>payload_document_id = d, payload_step = s\<rparr> (idle_cluster w M)" for s
    using assms(11) by (auto simp: claim_covered_def unclaimed_def triggerable_def)
  have "status_covered d (idle_cluster w M)" using assms(9) by (simp add: status_covered_def)
  note covered = activities_covered [OF run assms(6)]
  have sync: "in_sync d ?db" using covered(2) [of d] assms(4,7,9) by (simp add: status_covered_def attended_def)
  have exists: "find_step d s ?db \<noteq> None" for s
    using pipeline_okD(3) [OF pok] find_documentD [OF assms(12)] unfolding four_steps_def by blast
  have "held c = {#}" using assms(7,8) by (simp add: held_def)
  then have rest: "status_of d s ?db = Some PENDING \<or> settled d s ?db" for s
    using covered(3) [OF _ start [of s]] assms(4) exists [of s] by (simp add: row_covered_def message_covered_def unclaimed_def)
  have ready: "\<exists>u \<in> parents PIPELINE s. status_of d u ?db \<noteq> Some DONE" if "status_of d s ?db = Some PENDING" for s
  proof -
    have "claim_covered \<lparr>payload_document_id = d, payload_step = s\<rparr> c" using covered(1) [OF _ claims [of s]] assms(4) by simp
    with that assms(7) show ?thesis by (auto simp: claim_covered_def attended_def unclaimed_def triggerable_def)
  qed
  show ?thesis by (rule rested_document [OF pok assms(12) sync rest ready])
qed

theorem drained_queues_leave_nothing_behind_witness:
  "\<exists>c q. activities demo_env (map Work demo_schedule) (idle_cluster uploaded_world {#demo_message OCR#}) = Some c \<and>
    find_document 7 (committed (shared c)) = Some q \<and> doc_status q = PROCESSING"
proof -
  obtain c where c: "activities demo_env (map Work demo_schedule) (idle_cluster uploaded_world {#demo_message OCR#}) = Some c"
    "busy c = []" "queue c = {#}"
    "\<forall>s. status_of 7 s (committed (shared c)) = Some (if s = EXTERNAL_CALL then AWAITING_CALLBACK else DONE)"
    by (rule demo_schedule_runs) (simp add: activities_work)
  have st: "status_of 7 s (committed uploaded_world) = Some (start_statuses s)" and sync: "in_sync 7 (committed uploaded_world)" for s
    using uploaded_on_track by (simp_all add: on_track_def)
  have "\<forall>x. count {#demo_message OCR#} x \<le> 1" by simp
  note ok = activities_ok [OF c(1) reachable_cluster_ok [OF demo_reaches _ this]]
  have row: "find_step 7 OCR (committed (shared c)) \<noteq> None" using c(4) by (auto simp: status_of_def)
  have "pipeline_ok default_settings (committed (shared c))" using cluster_okD(2) [OF ok] by simp
  then obtain q where q: "find_document 7 (committed (shared c)) = Some q" by (rule document_of_row [OF _ row])
  have "doc_status q = FAILED \<and> (\<exists>s. status_of 7 s (committed (shared c)) = Some ERROR) \<or>
    doc_status q = PROCESSING \<and> (\<forall>s. status_of 7 s (committed (shared c)) = Some (if s = EXTERNAL_CALL then AWAITING_CALLBACK else DONE)) \<or>
    doc_status q = READY \<and> (\<forall>s. status_of 7 s (committed (shared c)) = Some DONE)"
  proof (rule drained_queues_leave_nothing_behind [OF demo_reaches _ _ _ c(1) _ c(2,3) sync _ _ q])
    show "\<forall>s. status_of 7 s (committed uploaded_world) = Some PENDING \<longrightarrow>
        (\<exists>u \<in> parents PIPELINE s. status_of 7 u (committed uploaded_world) \<noteq> Some DONE)"
    proof (intro allI impI)
      fix s assume "status_of 7 s (committed uploaded_world) = Some PENDING"
      then show "\<exists>u \<in> parents PIPELINE s. status_of 7 u (committed uploaded_world) \<noteq> Some DONE"
        by (cases s) (simp_all add: st start_statuses_def enum_simps)
    qed
    show "\<forall>s. status_of 7 s (committed uploaded_world) \<in> {Some QUEUED, Some RUNNING} \<longrightarrow> demo_message s \<in># {#demo_message OCR#}"
      by (simp add: st start_statuses_def)
  qed (simp_all add: demo_schedule_reliable)
  then have "doc_status q = PROCESSING" using c(4) by (auto split: if_splits)
  with c(1) q show ?thesis by blast
qed

subsection \<open>Duplicate messages\<close>

text \<open>No step of a document whose partner call is queued is in ERROR.\<close>

lemma queued_call_not_failed:
  assumes ok: "pipeline_ok cfg db" and hon: "honest db"
    and r: "find_step d EXTERNAL_CALL db = Some r" "st_status r = QUEUED"
  obtains q where "find_document d db = Some q" "doc_status q \<noteq> FAILED"
proof -
  note sch = pipeline_okD(1) [OF ok]
  have row: "r \<in> set (pipeline_steps db)" "st_document_id r = d" using r(1) find_step_iff [OF sch] by auto
  then obtain q where q: "find_document d db = Some q"
    using schema_okD(6) [OF sch row(1)] find_document_iff [OF sch, of d] by auto
  have up: "\<forall>u \<in> parents PIPELINE s. status_of d u db = Some DONE" if "status_of d s db \<in> {Some QUEUED, Some DONE}" for s
  proof -
    from that obtain p where "p \<in> set (pipeline_steps db)" "st_document_id p = d" "st_name p = s" "st_status p \<noteq> PENDING"
      using find_step_iff [OF sch] by (auto simp: status_of_def)
    with pipeline_okD(6) [OF ok] show ?thesis by (auto simp: parents_done_def)
  qed
  have ext: "status_of d EXTERNAL_CALL db = Some QUEUED" using r by (simp add: status_of_def)
  have mid: "status_of d METADATA db = Some DONE" "status_of d CHUNKING db = Some DONE"
    using up [of EXTERNAL_CALL] ext by (simp_all add: enum_simps)
  have ocr: "status_of d OCR db = Some DONE" using up [of METADATA] mid by (simp add: enum_simps)
  have "status_of d s db \<noteq> Some ERROR" for s using ext mid ocr by (cases s) simp_all
  with hon find_documentD [OF q] have "doc_status q \<noteq> FAILED" unfolding honest_def by blast
  with q show thesis by (rule that)
qed

text \<open>A scan sends a late call's message again.\<close>

lemma late_call_republished:
  assumes "reachable env (w, M)" "1 \<le> step_max_attempts (env_settings env)"
    and "find_step d EXTERNAL_CALL (committed w) = Some r" "st_status r = QUEUED"
    and "\<lparr>payload_document_id = d, payload_step = EXTERNAL_CALL\<rparr> \<in># M"
    and "st_updated_at r < now - microseconds (step_timeout_seconds (env_settings env))"
  defines "w' \<equiv> iteration (env_settings env) (w\<lparr>clock := now, faults := []\<rparr>)"
  obtains M' q where "reachable env (w', M')" "clean w'" "pipeline_ok (env_settings env) (committed w')"
    and "find_step d EXTERNAL_CALL (committed w') = Some r"
    and "find_document d (committed w') = Some q" "doc_status q \<noteq> FAILED"
    and "2 \<le> count M' \<lparr>payload_document_id = d, payload_step = EXTERNAL_CALL\<rparr>"
    and "\<And>j. job_unused j (committed w) \<Longrightarrow> job_unused j (committed w')"
proof -
  let ?cfg = "env_settings env" and ?x = "\<lparr>payload_document_id = d, payload_step = EXTERNAL_CALL\<rparr>"
  let ?v = "w\<lparr>clock := now, faults := []\<rparr>"
  define M' where "M' = M + mset (sent_of (new_effects ?v w'))"
  have sys: "clean w" "pipeline_ok ?cfg (committed w)"
    using reachable_system_ok [OF assms(1,2)] by (simp_all add: system_ok_def)
  have "clean ?v" "pipeline_ok ?cfg (committed ?v)" using sys by (simp_all add: clean_def)
  note scan = scan_exact [OF this assms(2), simplified, folded w'_def]
  have path: "\<exists>es. trace w' = trace w @ es"
    using refines_iteration [OF \<open>clean ?v\<close> \<open>pipeline_ok ?cfg (committed ?v)\<close> assms(2)] unfolding w'_def
    by (rule refinesE) auto
  have "reachable env (w', M')"
    using reachable_steps [OF assms(1) r_into_rtranclp [of "system_step env",
      OF system_step.complete [where op = Scan and v = w and now = now and fs = "[]" and M = M, OF refl _ refl]]] by (simp add: w'_def M'_def)
  note reach = this and sys' = reachable_system_ok [OF this assms(2)] and hon = reachable_honest [OF this assms(2)]
  have ok: "clean w'" "pipeline_ok ?cfg (committed w')" using sys' by (simp_all add: system_ok_def)
  note sch = pipeline_okD(1) [OF sys(2)] and sch' = pipeline_okD(1) [OF ok(2)]
  have row: "r \<in> set (pipeline_steps (committed w))" "st_document_id r = d" "st_name r = EXTERNAL_CALL"
    using assms(3) find_step_iff [OF sch] by auto
  have "r \<notin> set (overdue ?cfg ?v)" using assms(4) by (simp add: overdue_def)
  with scan(3) row(1) have "r \<in> set (pipeline_steps (committed w'))" by blast
  then have row': "current_row (committed w') ?x = Some r" using find_step_iff [OF sch'] row(2,3) by simp
  have "r \<in> set (stale_queued ?cfg ?v)" using row(1) assms(4,6) by (simp add: stale_queued_def)
  then have "?x \<in> set (sent_of (new_effects ?v w'))"
    using scan(2) path row(2,3) by (force simp: new_effects_def)
  then have two: "2 \<le> count M' ?x"
    using assms(5) by (simp add: M'_def Suc_le_eq flip: count_greater_zero_iff set_mset_mset)
  obtain q where q: "find_document d (committed w') = Some q" "doc_status q \<noteq> FAILED"
    by (rule queued_call_not_failed [OF ok(2) _ _ assms(4)]) (use hon row' in simp_all)
  with that reach ok row' two scan(6) show thesis by simp
qed

text \<open>
  C5: The workers come to an end. From any state that the system reaches with at most one message
  for each step, every schedule of workers, however they take turns, whether the steps succeed or fail and
  the broker is up or not, makes at most 18 actions (taking a message, a turn, an answer) for each
  message that is there, for each try that a step has left, and for each worker that dies; once it has
  made that many, the queues are empty and no worker is busy. So retries, and the messages that
  finished steps send, cannot keep the workers busy for ever.
\<close>

theorem workers_come_to_an_end:
  assumes "reachable env (w, M)" "1 \<le> step_max_attempts (env_settings env)" "\<forall>x. count M x \<le> 1"
    and "schedule (env_settings env) xs (idle_cluster w M) = Some c"
  shows "effort (env_settings env) xs (idle_cluster w M) \<le>
      18 * (size M + tries_left (env_settings env) (committed w) + length (filter is_death xs)) \<and>
    (effort (env_settings env) xs (idle_cluster w M) =
      18 * (size M + tries_left (env_settings env) (committed w) + length (filter is_death xs)) \<longrightarrow> queue c = {#} \<and> busy c = [])"
proof -
  have "workload (env_settings env) (idle_cluster w M) = 18 * (size M + tries_left (env_settings env) (committed w))"
    by (simp add: workload_def)
  with effort_bound [OF assms(4) reachable_cluster_ok [OF assms(1-3)] assms(2)]
  have "effort (env_settings env) xs (idle_cluster w M) + workload (env_settings env) c \<le>
      18 * (size M + tries_left (env_settings env) (committed w) + length (filter is_death xs))" by simp
  with workload_zero show ?thesis by fastforce
qed

theorem workers_come_to_an_end_witness:
  "effort default_settings demo_schedule (idle_cluster uploaded_world {#demo_message OCR#}) \<le> 18 * (1 + 23)"
proof -
  have "tries_left default_settings (committed uploaded_world) = 23" by code_simp
  moreover have "filter is_death demo_schedule = []" by (simp add: demo_schedule_def lone_worker_def)
  moreover obtain c where "schedule default_settings demo_schedule (idle_cluster uploaded_world {#demo_message OCR#}) = Some c"
    by (rule demo_schedule_runs)
  moreover have "\<forall>x. count {#demo_message OCR#} x \<le> 1" by simp
  ultimately show ?thesis using workers_come_to_an_end [OF demo_reaches, of demo_schedule] by simp
qed

text \<open>
  C18: A duplicate message calls the partner twice. Take a call of the partner that is QUEUED
  with its message still in the queue, in any state that the system reaches. When it gets older
  than the step timeout, a scan publishes it a second time, and there is a schedule of two
  workers without a death or a broker failure in which both call the partner: the row waits first
  for the job that the first worker has started and, at the end, for the second one, so that the
  answer to the first job finds no step.
\<close>

theorem duplicates_call_the_partner_twice:
  assumes "reachable env (w, M)" "1 \<le> step_max_attempts (env_settings env)"
    and "find_step d EXTERNAL_CALL (committed w) = Some r" "st_status r = QUEUED"
    and "\<lparr>payload_document_id = d, payload_step = EXTERNAL_CALL\<rparr> \<in># M"
    and "st_updated_at r < now - microseconds (step_timeout_seconds (env_settings env))"
    and "\<not> step_fails dr1" "\<not> step_fails dr2" "drawn_job dr1 \<noteq> drawn_job dr2"
      "job_unused (drawn_job dr1) (committed w)" "job_unused (drawn_job dr2) (committed w)"
  shows "\<exists>w' M' xs c. w' = iteration (env_settings env) (w\<lparr>clock := now, faults := []\<rparr>) \<and> reachable env (w', M') \<and>
    schedule (env_settings env) xs (idle_cluster w' M') = Some c \<and> (\<forall>y \<in> set xs. reliable y) \<and> busy c = [] \<and>
    (\<exists>db \<in> set (committed_of (new_effects w' (shared c))). \<exists>r1. find_step d EXTERNAL_CALL db = Some r1 \<and>
      st_status r1 = AWAITING_CALLBACK \<and> st_external_job_id r1 = Some (drawn_job dr1)) \<and>
    (\<exists>r2. find_step d EXTERNAL_CALL (committed (shared c)) = Some r2 \<and>
      st_status r2 = AWAITING_CALLBACK \<and> st_external_job_id r2 = Some (drawn_job dr2)) \<and>
    get_step_by_job_id (drawn_job dr1) (shared c) = Inr None"
proof -
  let ?cfg = "env_settings env" and ?x = "\<lparr>payload_document_id = d, payload_step = EXTERNAL_CALL\<rparr>"
  define w' where "w' = iteration ?cfg (w\<lparr>clock := now, faults := []\<rparr>)"
  obtain M' q where reach: "reachable env (w', M')" and ok: "clean w'" "pipeline_ok ?cfg (committed w')"
    and row': "current_row (committed w') ?x = Some r" and q: "find_document d (committed w') = Some q" "doc_status q \<noteq> FAILED"
    and two: "2 \<le> count M' ?x" and unused: "\<And>j. job_unused j (committed w) \<Longrightarrow> job_unused j (committed w')"
    by (rule late_call_republished [OF assms(1-6), folded w'_def], rule that) simp_all
  note unused = unused [OF assms(10)] unused [OF assms(11)]
  obtain w1 w2 m1 m2 es where run: "schedule ?cfg (double_call ?x dr1 dr2) \<lparr>shared = w', queue = M', busy = []\<rparr> =
      Some \<lparr>shared = w2, queue = M' - {#?x#} - {#?x#}, busy = [(?x, Replying ACK), (?x, Replying ACK)]\<rparr>"
    and m1: "row_is (committed w') ?x m1 w1" "st_external_job_id m1 = Some (drawn_job dr1)" "st_status m1 = AWAITING_CALLBACK"
    and m2: "row_is (committed w') ?x m2 w2" "st_external_job_id m2 = Some (drawn_job dr2)" "st_status m2 = AWAITING_CALLBACK"
    and es: "trace w2 = trace w' @ es" "committed w1 \<in> set (committed_of es)"
    by (rule double_call_runs [OF ok _ row' assms(4) _ q(2) assms(7-9) unused two]) (use q(1) in simp_all)
  let ?c = "\<lparr>shared = w2, queue = M' - {#?x#} - {#?x#}, busy = []\<rparr>"
  have "schedule ?cfg (double_call ?x dr1 dr2 @ [Reply 1, Reply 0]) (idle_cluster w' M') = Some ?c"
    unfolding schedule_append idle_cluster_def run by (simp add: drop_nth_def)
  moreover have "\<forall>y \<in> set (double_call ?x dr1 dr2 @ [Reply 1, Reply 0]). reliable y" by (simp add: double_call_def)
  moreover have "committed w1 \<in> set (committed_of (new_effects w' w2))" using es by (simp add: new_effects_def)
  moreover have "get_step_by_job_id (drawn_job dr1) w2 = Inr None"
  proof -
    have "job_unused (drawn_job dr1) (committed w2)"
      by (rule row_is_unused [OF m2(1) unused(1)]) (use m2(2) assms(9) in simp)
    moreover have "working w2 = committed w2" using m2(1) by (simp add: row_is_def clean_def)
    ultimately show ?thesis by (simp add: get_step_by_job_id_def scalar_one_or_none_None filter_empty_conv job_unused_def)
  qed
  ultimately show ?thesis
    using reach m1 m2 unfolding w'_def [symmetric]
    by (intro exI [of _ w'] exI [of _ M'] exI [of _ "double_call ?x dr1 dr2 @ [Reply 1, Reply 0]"] exI [of _ ?c])
      (simp add: row_is_def, blast)
qed

text \<open>After OCR, metadata and chunking of the demo's document, the reaper finds the call late.\<close>

abbreviation calling_world :: world where
  "calling_world \<equiv> three_deliveries default_settings demo_parse_body (\<lambda>_. good_draws) demo_body METADATA CHUNKING uploaded_world"

definition other_draws :: draws where
  "other_draws = \<lparr>random_draw = 1, job_uuid = 6 * 2 ^ 64\<rparr>"

theorem duplicates_call_the_partner_twice_witness:
  "\<exists>now w' M' xs c. w' = iteration default_settings (calling_world\<lparr>clock := now, faults := []\<rparr>) \<and> reachable demo_env (w', M') \<and>
    schedule default_settings xs (idle_cluster w' M') = Some c \<and>
    (\<exists>r2. find_step 7 EXTERNAL_CALL (committed (shared c)) = Some r2 \<and> st_external_job_id r2 = Some (drawn_job other_draws)) \<and>
    get_step_by_job_id (drawn_job good_draws) (shared c) = Inr None"
proof -
  have sup: "supplied 7 start_statuses {#demo_message OCR#}" by (simp add: supplied_def start_statuses_def)
  note three = three_deliveries_reachable [where env = demo_env and dr = "\<lambda>_. good_draws" and body = demo_body and d = 7
    and a = METADATA and b = CHUNKING, OF demo_reaches _ _ sup, unfolded demo_env_simps, OF demo_att uploaded_on_track demo_draws(1) demo_parse_body]
  obtain M where M: "reachable demo_env (calling_world, M)" "demo_message EXTERNAL_CALL \<in># M"
    using three(2) by (auto simp: supplied_def)
  have "status_of 7 EXTERNAL_CALL (committed calling_world) = Some QUEUED" using three(1) by (simp add: on_track_def)
  then obtain r where r: "find_step 7 EXTERNAL_CALL (committed calling_world) = Some r" "st_status r = QUEUED"
    by (auto simp: status_of_def)
  have draws: "\<not> step_fails other_draws" "drawn_job good_draws \<noteq> drawn_job other_draws"
    by (simp add: step_fails_def other_draws_def) code_simp
  have unused: "job_unused j (committed calling_world)" for j using three(3) no_jobs by simp
  have late: "st_updated_at r < (st_updated_at r + microseconds (step_timeout_seconds default_settings) + 1) -
      microseconds (step_timeout_seconds (env_settings demo_env))" by simp
  from duplicates_call_the_partner_twice [OF M(1) _ r M(2) late demo_draws(1) draws unused unused, unfolded demo_env_simps, OF demo_att]
  show ?thesis by blast
qed

end
