(* ===== verification/OverlapGuarantees.thy ===== *)
theory OverlapGuarantees
  imports AnsweredJobs ConcurrentGuarantees
begin

section \<open>What holds when everything overlaps\<close>

text \<open>
  Workers, scans, partner calls and uploads at the same time, with duplicate messages, deaths
  and a broker that fails: what is left of the guarantees, and what is not. The runs start from any
  state that the system reaches.
\<close>

definition alone :: "world \<Rightarrow> payload multiset \<Rightarrow> overlap" where
  "alone w M = \<lparr>store = w, messages = M, running = []\<rparr>"

lemma alone_ok:
  assumes "reachable env (w, M)" "1 \<le> step_max_attempts (env_settings env)"
  shows "overlap_ok (alone w M)"
  using reachable_system_ok [OF assms] by (auto simp: system_ok_def overlap_ok_def alone_def intro: sound_pipeline)

lemma overlapped:
  assumes "reachable env (w, M)" "1 \<le> step_max_attempts (env_settings env)" "overlaps env hs (alone w M) = Some c"
  shows "overlap_ok c" "history (committed w) (committed (store c)) (notified_of (new_effects w (store c)))"
proof -
  from overlaps_ok [OF assms(3) alone_ok [OF assms(1,2)]] obtain es where "overlap_ok c"
    "trace (store c) = trace w @ es" "history (committed w) (committed (store c)) (notified_of es)" by (auto simp: alone_def)
  then show "overlap_ok c" "history (committed w) (committed (store c)) (notified_of (new_effects w (store c)))"
    by (simp_all add: new_effects_def)
qed

subsection \<open>Two documents that wait for the partner\<close>

definition waiting_steps :: "uuid \<Rightarrow> (step_name \<Rightarrow> uuid) \<Rightarrow> string \<Rightarrow> pipeline_step list" where
  "waiting_steps d ids job =
     [(new_step (ids OCR) d OCR DONE 0)\<lparr>st_result := Some (JObject [(''text'', JString ''t'')]), st_started_at := Some 0, st_finished_at := Some 0\<rparr>,
      (new_step (ids METADATA) d METADATA DONE 0)\<lparr>st_result := Some (JObject [(''metadata'', JObject [])]), st_started_at := Some 0, st_finished_at := Some 0\<rparr>,
      (new_step (ids CHUNKING) d CHUNKING DONE 0)\<lparr>st_result := Some (JObject [(''chunks'', JArray [])]), st_started_at := Some 0, st_finished_at := Some 0\<rparr>,
      (new_step (ids EXTERNAL_CALL) d EXTERNAL_CALL AWAITING_CALLBACK 0)\<lparr>st_external_job_id := Some job, st_started_at := Some 0\<rparr>]"

definition two_calls_db :: database where
  "two_calls_db = demo_db\<lparr>documents := [new_document demo_user ''a.pdf'' 7 0, new_document demo_user ''b.pdf'' 8 0],
     pipeline_steps := waiting_steps 7 demo_ids ''other'' @ waiting_steps 8 (\<lambda>s. demo_ids s + 10) demo_job\<rparr>"

definition two_calls_world :: world where
  "two_calls_world = demo_world\<lparr>committed := two_calls_db, working := two_calls_db\<rparr>"

lemma two_calls_world_simps [simp]:
  "committed two_calls_world = two_calls_db" "working two_calls_world = two_calls_db" "clean two_calls_world"
  by (simp_all add: two_calls_world_def clean_def demo_world_def)

lemma find_two_calls:
  "find_step d s two_calls_db = (if d = 7 then find (\<lambda>r. st_name r = s) (waiting_steps 7 demo_ids ''other'')
     else if d = 8 then find (\<lambda>r. st_name r = s) (waiting_steps 8 (\<lambda>s. demo_ids s + 10) demo_job) else None)"
  by (cases s) (auto simp: find_step_def two_calls_db_def waiting_steps_def new_step_def step_key_def)

lemma two_calls_ok: "pipeline_ok default_settings two_calls_db"
proof -
  have "schema_ok two_calls_db"
    by (simp add: schema_ok_def two_calls_db_def waiting_steps_def new_step_def new_document_def demo_db_def demo_user_def step_key_def)
  moreover have "\<forall>r \<in> set (pipeline_steps two_calls_db). step_row_ok default_settings r"
    by (simp add: two_calls_db_def waiting_steps_def new_step_def step_row_ok_def)
  moreover have "in_order two_calls_db"
    unfolding in_order_def parents_done_def status_of_def find_two_calls
    by (auto simp: two_calls_db_def waiting_steps_def new_step_def pipeline_parents)
  moreover have "four_steps two_calls_db" 
    unfolding four_steps_def find_two_calls
  proof (intro ballI allI)
    fix q s assume "q \<in> set (documents two_calls_db)"
    then have "doc_id q \<in> {7, 8}" by (auto simp: two_calls_db_def new_document_def)
    then show "(if doc_id q = 7 then find (\<lambda>r. st_name r = s) (waiting_steps 7 demo_ids ''other'')
        else if doc_id q = 8 then find (\<lambda>r. st_name r = s) (waiting_steps 8 (\<lambda>s. demo_ids s + 10) demo_job) else None) \<noteq> None"
      by (cases s) (auto simp: waiting_steps_def new_step_def)
  qed
  moreover have "jobs_unique two_calls_db"
    by (auto simp: jobs_unique_def two_calls_db_def waiting_steps_def new_step_def demo_job_def)
  ultimately show ?thesis by (simp add: pipeline_ok_def)
qed

definition late :: timestamp where
  "late = microseconds (callback_sla_seconds default_settings) + 1"

abbreviation demo_start :: overlap where
  "demo_start \<equiv> alone uploaded_world {#\<lparr>payload_document_id = 7, payload_step = OCR\<rparr>#}"

lemma demo_calls:
  "accepted_call demo_env ''done'' (demo_signature ''done'') = Some demo_payload"
  "accepted_call demo_env ''refused'' (demo_signature ''refused'') = Some \<lparr>wp_job_id = demo_job, wp_status = PARTNER_FAILED, wp_result = [], wp_occurred_at = None\<rparr>"
proof -
  have "webhook_status_of_value ''failed'' = Some PARTNER_FAILED" by code_simp
  with demo_webhook_payload show "accepted_call demo_env ''done'' (demo_signature ''done'') = Some demo_payload"
    "accepted_call demo_env ''refused'' (demo_signature ''refused'') = Some \<lparr>wp_job_id = demo_job, wp_status = PARTNER_FAILED, wp_result = [], wp_occurred_at = None\<rparr>"
    by (simp_all add: accepted_call_def demo_signature_ok) (simp add: model_validate_json_def demo_parse_json_def validate_payload_def)
qed

subsection \<open>Any overlap\<close>

text \<open>
  C3: No step is ever run from the start again, whatever overlaps. From any state that the system
  reaches, however the turns of workers, scans, partner calls and uploads interleave, with duplicate
  messages, dying processes and broker failures: the tables stay well formed, every step keeps its
  row, and no step returns to PENDING; each step that leaves PENDING is announced QUEUED exactly
  once, by its claim, and no other step is (the first step of an upload is stored QUEUED without
  an announcement); and every message in the queue is for a step that has left PENDING.
\<close>

theorem overlaps_never_claim_twice:
  assumes "reachable env (w, M)" "1 \<le> step_max_attempts (env_settings env)" "overlaps env hs (alone w M) = Some c"
  shows "schema_ok (committed (store c)) \<and>
    (\<forall>d s q. find_step d s (committed w) = Some q \<longrightarrow> (\<exists>q'. find_step d s (committed (store c)) = Some q' \<and>
      st_id q' = st_id q \<and> (st_status q \<noteq> PENDING \<longrightarrow> st_status q' \<noteq> PENDING))) \<and>
    (\<forall>x. claims (payload_document_id x) (payload_step x) (notified_of (new_effects w (store c))) =
      (if claimed_between (committed w) (committed (store c)) x then 1 else 0)) \<and>
    (\<forall>x \<in># messages c. deliverable x (committed (store c)))"
proof -
  note run = overlapped [OF assms]
  have sch: "schema_ok (committed (store c))" "schema_ok (committed w)"
    using overlap_okD(2) [OF run(1)] overlap_okD(2) [OF alone_ok [OF assms(1,2)]] by (simp_all add: sound_def alone_def)
  have keep: "keeps (committed w) (committed (store c))" using run(2) by (simp add: history_def)
  have "\<exists>q'. find_step d s (committed (store c)) = Some q' \<and> st_id q' = st_id q \<and> (st_status q \<noteq> PENDING \<longrightarrow> st_status q' \<noteq> PENDING)"
    if "find_step d s (committed w) = Some q" for d s q
    by (rule keeps_row [OF keep sch(2,1) that]) blast
  with sch run overlap_okD(3) [OF run(1)] show ?thesis by (simp add: history_def)
qed

theorem overlaps_never_claim_twice_witness:
  "\<exists>c. overlaps demo_env [Launch, Take \<lparr>payload_document_id = 7, payload_step = OCR\<rparr>, Advance 1 good_draws, Advance 0 good_draws,
      Advance 1 good_draws] demo_start = Some c \<and> schema_ok (committed (store c))"
proof -
  have "overlaps demo_env [Launch, Take \<lparr>payload_document_id = 7, payload_step = OCR\<rparr>, Advance 1 good_draws, Advance 0 good_draws,
      Advance 1 good_draws] demo_start \<noteq> None" by code_simp
  then obtain c where c: "overlaps demo_env [Launch, Take \<lparr>payload_document_id = 7, payload_step = OCR\<rparr>, Advance 1 good_draws,
      Advance 0 good_draws, Advance 1 good_draws] demo_start = Some c" by auto
  from overlaps_never_claim_twice [OF demo_reaches _ c] c show ?thesis by simp
qed

text \<open>
  C19: The reaper never re-publishes a RUNNING step. As long as a scan still holds the locks of its
  first query (it loses them when it fails a step), each message that it sends is for a step that
  is QUEUED in the database at this moment, whatever other processes do between its turns, and the
  publication changes nothing in the database.
\<close>

theorem scans_republish_only_queued_steps:
  assumes "reachable env (w, M)" "1 \<le> step_max_attempts (env_settings env)" "overlaps env hs (alone w M) = Some c"
    and "i < length (running c)" "running c ! i = Reaper (InFlight steps acted now own)" "own \<noteq> []"
    and "happen env (Advance i dr) c = Some c'" "x \<in> set (sent_of (new_effects (store c) (store c')))"
  shows "status_of (payload_document_id x) (payload_step x) (committed (store c)) = Some QUEUED \<and>
    committed (store c') = committed (store c)"
proof -
  let ?w = "store c"
  note ok = overlapped(1) [OF assms(1-3)]
  have sch: "schema_ok (committed ?w)" using overlap_okD(2) [OF ok] by (simp add: sound_def)
  have "Reaper (InFlight steps acted now own) \<in> set (running c)" using assms(4,5) nth_mem by metis
  with overlap_okD(5) [OF ok] assms(6) have rows: "set steps \<subseteq> set (pipeline_steps (committed ?w))" by fastforce
  obtain ph' w' where t: "scan_turn (env_settings env) (locked_by_others i c) (InFlight steps acted now own) ?w = (ph', w')" by force
  from assms(4,5,7) t have w': "store c' = w'" by (auto simp: advance_def split: if_splits)
  show ?thesis
  proof (cases steps)
    case Nil
    with t have "w' = commit ?w" by simp
    with w' assms(8) show ?thesis by (simp add: new_effects_def)
  next
    case (Cons step rest)
    have mem: "step \<in> set (pipeline_steps (committed ?w))" using rows Cons by simp
    have "\<not> st_attempts step \<ge> step_max_attempts (env_settings env)"
    proof
      assume "st_attempts step \<ge> step_max_attempts (env_settings env)"
      with t Cons have "w' = mark_failed step ''exhausted retries (reaped)'' ?w" by simp
      with w' assms(8) show False by (simp add: new_effects_def mark_failed_def Let_def)
    qed
    moreover obtain res w1 where pub: "publish_step (st_document_id step) (st_name step) ?w = (res, w1)" by force
    note eff = publish_step_frame(1) [of "st_document_id step" "st_name step" ?w] publish_step_trace [of "st_document_id step" "st_name step" ?w]
    ultimately have "st_status step = QUEUED" "x = \<lparr>payload_document_id = st_document_id step, payload_step = st_name step\<rparr>"
        "committed w' = committed ?w"
      using t Cons w' assms(8) eff [unfolded pub] pub by (auto simp: new_effects_def split: if_splits sum.splits)
    with status_of_row [OF sch mem] w' show ?thesis by simp
  qed
qed

theorem scans_republish_only_queued_steps_witness:
  "\<exists>c c'. overlaps demo_env [Meanwhile late [], Launch, Advance 0 good_draws] demo_start = Some c \<and>
    happen demo_env (Advance 0 good_draws) c = Some c' \<and> status_of 7 OCR (committed (store c)) = Some QUEUED"
proof -
  have "case overlaps demo_env [Meanwhile late [], Launch, Advance 0 good_draws] demo_start of None \<Rightarrow> False
    | Some c \<Rightarrow> running c \<noteq> [] \<and> (case running c ! 0 of Reaper (InFlight steps acted now own) \<Rightarrow> own \<noteq> [] | _ \<Rightarrow> False) \<and>
        (case happen demo_env (Advance 0 good_draws) c of None \<Rightarrow> False
         | Some c' \<Rightarrow> list_ex (\<lambda>x. x = \<lparr>payload_document_id = 7, payload_step = OCR\<rparr>) (sent_of (new_effects (store c) (store c'))))"
    by code_simp
  then obtain c c' steps acted now own where c: "overlaps demo_env [Meanwhile late [], Launch, Advance 0 good_draws] demo_start = Some c"
      "0 < length (running c)" "running c ! 0 = Reaper (InFlight steps acted now own)" "own \<noteq> []"
      "happen demo_env (Advance 0 good_draws) c = Some c'"
      "\<lparr>payload_document_id = 7, payload_step = OCR\<rparr> \<in> set (sent_of (new_effects (store c) (store c')))"
    by (auto simp del: overlaps.simps happen.simps simp add: list_ex_iff split: option.splits process.splits scan_phase.splits)
  from scans_republish_only_queued_steps [OF demo_reaches _ c] c show ?thesis by auto
qed

text \<open>
  C15: A scan can overwrite a partner's result. Take any well-formed state in which the partner owes
  at least two answers for too long (and no other step is stale). If the answer for a call that is
  not the first one of the scan arrives after the scan has failed the first, then, without a death
  or a broker failure, the callback is answered PROCESSED and the step is DONE with the partner's result;
  but the scan, which has read the row before, goes on and turns the step into ERROR and its
  document into FAILED.
\<close>

theorem a_scan_can_overwrite_a_result:
  assumes "clean w" "pipeline_ok (env_settings env) (committed w)"
    and "lock_stale_steps [QUEUED, RUNNING] (now - microseconds (step_timeout_seconds (env_settings env))) w = []"
    and "lock_stale_steps [AWAITING_CALLBACK] (now - microseconds (callback_sla_seconds (env_settings env))) w = q # rest" "r \<in> set rest"
    and "accepted_call env raw signature = Some p" "wp_status p = COMPLETED"
    and "get_step_by_job_id (wp_job_id p) w = Inr (Some r)"
  shows "\<exists>hs1 c1 hs2 c2 st r1. overlaps env hs1 (alone w M) = Some c1 \<and> overlaps env hs2 c1 = Some c2 \<and>
    (\<forall>h \<in> set (hs1 @ hs2). smooth h) \<and>
    Callback new_id raw p (Answered (Inr \<lparr>wr_status = PROCESSED, wr_document_status = Some st\<rparr>)) \<in> set (running c1) \<and>
    find_step (st_document_id r) (st_name r) (committed (store c1)) = Some r1 \<and>
    st_status r1 = DONE \<and> st_result r1 = Some (JObject (wp_result p)) \<and>
    running c2 = [] \<and> status_of (st_document_id r) (st_name r) (committed (store c2)) = Some ERROR \<and>
    map_option doc_status (find_document (st_document_id r) (committed (store c2))) = Some FAILED"
proof -
  obtain hs1 c1 hs2 c2 st r1 where "overlaps env hs1 \<lparr>store = w, messages = M, running = []\<rparr> = Some c1"
    and "Callback new_id raw p (Answered (Inr \<lparr>wr_status = PROCESSED, wr_document_status = Some st\<rparr>)) \<in> set (running c1)"
    and "find_step (st_document_id r) (st_name r) (committed (store c1)) = Some r1" "st_status r1 = DONE" "st_result r1 = Some (JObject (wp_result p))"
    and "overlaps env hs2 c1 = Some c2" "running c2 = []" "lost r (committed (store c2))" "\<forall>h \<in> set (hs1 @ hs2). smooth h"
    by (rule overdue_result_lost [OF assms(1) sound_pipeline [OF assms(2)] assms(3-8)])
  then show ?thesis unfolding alone_def lost_def status_of_def by fastforce
qed

theorem a_scan_can_overwrite_a_result_witness:
  "\<exists>hs1 c1 hs2 c2. overlaps demo_env hs1 (alone two_calls_world {#}) = Some c1 \<and> overlaps demo_env hs2 c1 = Some c2 \<and>
    status_of 8 EXTERNAL_CALL (committed (store c1)) = Some DONE \<and> status_of 8 EXTERNAL_CALL (committed (store c2)) = Some ERROR"
proof -
  let ?r = "(new_step 24 8 EXTERNAL_CALL AWAITING_CALLBACK 0)\<lparr>st_external_job_id := Some demo_job, st_started_at := Some 0\<rparr>"
  let ?q = "(new_step 14 7 EXTERNAL_CALL AWAITING_CALLBACK 0)\<lparr>st_external_job_id := Some ''other'', st_started_at := Some 0\<rparr>"
  have stale: "lock_stale_steps [QUEUED, RUNNING] (late - microseconds (step_timeout_seconds default_settings)) two_calls_world = []"
      "lock_stale_steps [AWAITING_CALLBACK] (late - microseconds (callback_sla_seconds default_settings)) two_calls_world = ?q # [?r]"
      "get_step_by_job_id (wp_job_id demo_payload) two_calls_world = Inr (Some ?r)"
    by (simp_all add: lock_stale_steps_def two_calls_db_def waiting_steps_def new_step_def late_def get_step_by_job_id_def demo_payload_def demo_job_def)
  from a_scan_can_overwrite_a_result [where env = demo_env and w = two_calls_world and M = "{#}" and new_id = 99 and now = late,
      OF _ _ _ _ _ demo_calls(1), of ?q "[?r]" ?r] stale two_calls_ok
  show ?thesis by (simp add: demo_payload_def new_step_def status_of_def) blast
qed

text \<open>
  C16: Simultaneous callbacks of one job are both applied. If two signed callbacks for the same
  waiting call both look the step up before either of them updates it, both are answered PROCESSED,
  and the step ends as the later UPDATE says: a step that was completed becomes ERROR, with the result
  of the first callback still stored, when the second one reports a failure. (One after the
  other, the second would be ignored as a duplicate.)
\<close>

theorem simultaneous_callbacks_are_both_applied:
  assumes "clean w" "pipeline_ok (env_settings env) (committed w)"
    and "accepted_call env raw1 sig1 = Some p" "accepted_call env raw2 sig2 = Some q" "wp_job_id q = wp_job_id p"
    and "get_step_by_job_id (wp_job_id p) w = Inr (Some r)" "st_status r \<notin> {DONE, ERROR}"
  shows "\<exists>hs c st st' m. overlaps env hs (alone w M) = Some c \<and> (\<forall>h \<in> set hs. smooth h) \<and>
    running c = [Callback id1 raw1 p (processed st), Callback id2 raw2 q (processed st')] \<and>
    find_step (st_document_id r) (st_name r) (committed (store c)) = Some m \<and>
    st_status m = (if wp_status q = COMPLETED then DONE else ERROR) \<and>
    (wp_status p = COMPLETED \<and> wp_status q \<noteq> COMPLETED \<longrightarrow> st_result m = Some (JObject (wp_result p)))"
proof -
  obtain hs c st st' m where "overlaps env hs \<lparr>store = w, messages = M, running = []\<rparr> = Some c"
    and "running c = [Callback id1 raw1 p (processed st), Callback id2 raw2 q (processed st')]"
    and "find_step (st_document_id r) (st_name r) (committed (store c)) = Some m"
    and "st_status m = (if wp_status q = COMPLETED then DONE else ERROR)"
    and "wp_status p = COMPLETED \<Longrightarrow> wp_status q \<noteq> COMPLETED \<Longrightarrow> st_result m = Some (JObject (wp_result p))"
    and "\<forall>h \<in> set hs. smooth h"
    by (rule simultaneous_calls [OF assms(1) sound_pipeline [OF assms(2)] assms(3-7)]) blast
  then show ?thesis unfolding alone_def by blast
qed

theorem simultaneous_callbacks_are_both_applied_witness:
  "\<exists>hs c m. overlaps demo_env hs (alone two_calls_world {#}) = Some c \<and> length (running c) = 2 \<and>
    find_step 8 EXTERNAL_CALL (committed (store c)) = Some m \<and> st_status m = ERROR \<and> st_result m = Some (JObject demo_result)"
proof -
  have job: "get_step_by_job_id (wp_job_id demo_payload) two_calls_world =
      Inr (Some ((new_step 24 8 EXTERNAL_CALL AWAITING_CALLBACK 0)\<lparr>st_external_job_id := Some demo_job, st_started_at := Some 0\<rparr>))"
    by (simp add: two_calls_db_def waiting_steps_def new_step_def get_step_by_job_id_def demo_payload_def demo_job_def)
  have "\<exists>hs c st st' m. overlaps demo_env hs (alone two_calls_world {#}) = Some c \<and> (\<forall>h \<in> set hs. smooth h) \<and>
      running c = [Callback 98 ''done'' demo_payload (processed st),
        Callback 99 ''refused'' \<lparr>wp_job_id = demo_job, wp_status = PARTNER_FAILED, wp_result = [], wp_occurred_at = None\<rparr> (processed st')] \<and>
      find_step 8 EXTERNAL_CALL (committed (store c)) = Some m \<and> st_status m = ERROR \<and> st_result m = Some (JObject demo_result)"
    using simultaneous_callbacks_are_both_applied [where env = demo_env and w = two_calls_world and M = "{#}" and ?id1.0 = 98 and ?id2.0 = 99,
        OF _ _ demo_calls _ job] two_calls_ok
    by (simp add: demo_payload_def new_step_def)
  then show ?thesis by fastforce
qed

subsection \<open>What stays\<close>

text \<open>
  C6: A finished step is final, except for those who have read it before. Whatever overlaps, from
  any moment of any run on, the row of a DONE or ERROR step, result included, never changes again,
  provided that no process still holds a copy of this row that it read before the step was finished
  (such copies are what \<open>a_scan_can_overwrite_a_result\<close> and \<open>simultaneous_callbacks_are_both_applied\<close> are
  about).
\<close>

theorem finished_steps_are_final:
  assumes "reachable env (w, M)" "1 \<le> step_max_attempts (env_settings env)" "overlaps env hs (alone w M) = Some c"
    and "find_step d n (committed (store c)) = Some r" "st_status r \<in> {DONE, ERROR}" "\<forall>pr \<in> set (running c). st_id r \<notin> remembered pr"
    and "overlaps env hs' c = Some c'"
  shows "find_step d n (committed (store c')) = Some r"
proof -
  note ok = overlapped(1) [OF assms(1-3)]
  have sch: "schema_ok (committed (store c))" using overlap_okD(2) [OF ok] by (simp add: sound_def)
  have "finished.lasts {r} c"
    using assms(4-6) find_step_iff [OF sch] by (auto simp: finished.lasts_def finished_rows_def forgets_def)
  from finished.overlaps_lasts [OF assms(7) ok this] have "r \<in> set (pipeline_steps (committed (store c')))"
    by (simp add: finished.lasts_def finished_rows_def)
  moreover have "schema_ok (committed (store c'))"
    using overlaps_ok [OF assms(7) ok] overlap_okD(2) by (auto simp: sound_def)
  ultimately show ?thesis using assms(4) find_step_iff [OF sch] find_step_iff by auto
qed




text \<open>A worker handles the first step; then its message comes again, and two other workers go on.\<close>

abbreviation first_step :: "happening list" where
  "first_step \<equiv> Take (demo_message OCR) # replicate 4 (Advance 0 good_draws)"

abbreviation and_on :: "happening list" where
  "and_on \<equiv> [Kill 0, Take (demo_message OCR), Advance 0 good_draws, Launch, Advance 1 good_draws]"

theorem finished_steps_are_final_witness:
  "\<exists>c c' r. overlaps demo_env first_step demo_start = Some c \<and> overlaps demo_env and_on c = Some c' \<and>
    st_status r = DONE \<and> find_step 7 OCR (committed (store c')) = Some r"
proof -
  have "case overlaps demo_env first_step demo_start of None \<Rightarrow> False | Some c \<Rightarrow>
      (case find_step 7 OCR (committed (store c)) of None \<Rightarrow> False
       | Some r \<Rightarrow> st_status r = DONE \<and> list_all (\<lambda>pr. remembered pr = {}) (running c)) \<and>
      overlaps demo_env and_on c \<noteq> None"
    by code_simp
  then obtain c r c' where c: "overlaps demo_env first_step demo_start = Some c"
      "find_step 7 OCR (committed (store c)) = Some r" "st_status r = DONE"
      "list_all (\<lambda>pr. remembered pr = {}) (running c)"
      "overlaps demo_env and_on c = Some c'"
    by (simp del: overlaps.simps happen.simps split: option.splits) blast
  from c(4) have "\<forall>pr \<in> set (running c). st_id r \<notin> remembered pr"
    by (simp add: list_all_iff)
  from finished_steps_are_final [OF demo_reaches _ c(1,2) _ this c(5)] c show ?thesis by auto
qed



end
