(* ===== verification/Announcements.thy ===== *)
theory Announcements
  imports Outcomes
begin

section \<open>What is announced\<close>

text \<open>
  The notifications of a commit are sent by the database when the commit happens, so they
  describe the state that the commit leaves. \<open>shown_status\<close> and \<open>shown_document\<close> are what a client
  of the progress stream computes from a snapshot and the events that follow; both are compared
  with the database.
\<close>

definition announced :: "database \<Rightarrow> uuid \<times> event \<Rightarrow> bool" where
  "announced db n \<longleftrightarrow> (\<exists>s st. snd n = step_event s st \<and> status_of (fst n) s db = Some st) \<or>
     (\<exists>q. snd n = doc_status_event (doc_status q) \<and> find_document (fst n) db = Some q)"

lemma tx_step_announced:
  assumes "tx_step cfg db db' ns" "pipeline_ok cfg db" "n \<in> set ns"
  shows "announced db' n"
  using assms
proof (induction rule: tx_step.induct)
  case (move r r' evs)
  note ok = pipeline_ok_step [OF move.prems(1) move.hyps]
  from move.prems(2) obtain e where e: "e \<in> set evs" "n = (st_document_id r, e)" by auto
  have "e = step_event (st_name r') (st_status r')"
    using move.hyps(2) e(1) pipeline_okD(5) [OF move.prems(1) move.hyps(1)]
    by (cases rule: step_move.cases) (auto simp: step_row_ok_def)
  moreover have "status_of (st_document_id r) (st_name r') (put_step r' db) = Some (st_status r')"
    using step_move_key [OF move.hyps(2)] status_of_put_step [OF pipeline_okD(1) [OF move.prems(1)] ok(2)]
    by (simp add: step_key_def)
  ultimately show ?case using e(2) by (auto simp: announced_def)
next
  case (derive d q st now)
  then have "find_document d (put_doc_status d st now db) = Some (q\<lparr>doc_status := st, doc_updated_at := now\<rparr>)"
    by (auto simp: find_document_put_doc_status dest: find_documentD)
  with derive show ?case by (auto simp: announced_def intro!: exI [of _ "q\<lparr>doc_status := st, doc_updated_at := now\<rparr>"])
qed simp_all

lemma effect_path_announced:
  assumes "effect_path cfg db es" "pipeline_ok cfg db" "1 \<le> step_max_attempts cfg"
    and "Committed db' ns \<in> set es" "n \<in> set ns"
  shows "announced db' n"
  using assms
proof (induction cfg db es rule: effect_path.induct)
  case (3 cfg db db1 ns1 es)
  then have tx: "tx_step cfg db db1 ns1" by simp
  show ?case
  proof (cases "Committed db' ns = Committed db1 ns1")
    case True
    with tx_step_announced [OF tx 3(3), of n] 3(6) show ?thesis by simp
  next
    case False
    with 3(1) [OF _ pipeline_ok_tx [OF tx 3(3,4)] 3(4)] 3(2,5,6) show ?thesis by auto
  qed
qed simp_all

subsection \<open>The client's view\<close>

text \<open>What a client reads from an event: a step with its status, or the document's status.\<close>

definition event_step :: "event \<Rightarrow> (step_name \<times> step_status) option" where
  "event_step e = (case (map_of e KEY_STEP, map_of e KEY_STATUS) of
     (Some (JString a), Some (JString b)) \<Rightarrow>
       (case (step_name_of_value a, step_status_of_value b) of (Some s, Some st) \<Rightarrow> Some (s, st) | _ \<Rightarrow> None)
   | _ \<Rightarrow> None)"

definition event_document :: "event \<Rightarrow> document_status option" where
  "event_document e = (case map_of e KEY_DOC_STATUS of Some (JString a) \<Rightarrow> document_status_of_value a | _ \<Rightarrow> None)"

lemma event_step_simps [simp]:
  "event_step (step_event s st) = Some (s, st)" "event_step (doc_status_event x) = None"
  by (simp_all add: event_step_def step_event_def doc_status_event_def key_defs
      step_name_codec.decode_encode step_status_codec.decode_encode)

lemma event_document_simps [simp]:
  "event_document (doc_status_event x) = Some x" "event_document (step_event s st) = None"
  by (simp_all add: event_document_def step_event_def doc_status_event_def key_defs document_status_codec.decode_encode)

text \<open>The status of a step, and of the document, after the events; \<open>known\<close> is what was known before.\<close>

fun shown_status :: "step_name \<Rightarrow> event list \<Rightarrow> step_status option \<Rightarrow> step_status option" where
  "shown_status s [] known = known"
| "shown_status s (e # es) known =
     shown_status s es (case event_step e of Some (t, st) \<Rightarrow> if t = s then Some st else known | None \<Rightarrow> known)"

fun shown_document :: "event list \<Rightarrow> document_status option \<Rightarrow> document_status option" where
  "shown_document [] known = known"
| "shown_document (e # es) known =
     shown_document es (case event_document e of Some st \<Rightarrow> Some st | None \<Rightarrow> known)"

lemma shown_status_append [simp]: "shown_status s (xs @ ys) k = shown_status s ys (shown_status s xs k)"
  by (induction s xs k rule: shown_status.induct) simp_all

lemma shown_document_append [simp]: "shown_document (xs @ ys) k = shown_document ys (shown_document xs k)"
  by (induction xs k rule: shown_document.induct) simp_all

text \<open>The events of one document, as its subscribers receive them.\<close>

definition events_of :: "uuid \<Rightarrow> (uuid \<times> event) list \<Rightarrow> event list" where
  "events_of d ns = map snd (filter (\<lambda>n. fst n = d) ns)"

lemma events_of_simps [simp]:
  "events_of d [] = []" "events_of d (n # ns) = (if fst n = d then [snd n] else []) @ events_of d ns"
  by (simp_all add: events_of_def)

lemma events_of_append [simp]: "events_of d (xs @ ys) = events_of d xs @ events_of d ys"
  by (simp add: events_of_def)

text \<open>
  A client that is up to date stays so, but for one gap: a failed run that will be retried goes
  back to QUEUED without an event, so such a step may still be shown RUNNING.
\<close>

definition waits_again :: "uuid \<Rightarrow> step_name \<Rightarrow> database \<Rightarrow> bool" where
  "waits_again d s db \<longleftrightarrow> (\<exists>r. find_step d s db = Some r \<and> st_status r = QUEUED \<and> 0 < st_attempts r)"

definition up_to_date :: "step_status option \<Rightarrow> uuid \<Rightarrow> step_name \<Rightarrow> database \<Rightarrow> bool" where
  "up_to_date known d s db \<longleftrightarrow> known = status_of d s db \<or> known = Some RUNNING \<and> waits_again d s db"

lemma tx_step_up_to_date:
  assumes "tx_step cfg db db' ns" "pipeline_ok cfg db" "status_of d s db \<noteq> None" "up_to_date known d s db"
  shows "up_to_date (shown_status s (events_of d ns) known) d s db'"
  using assms
proof (induction rule: tx_step.induct)
  case (move r r' evs)
  note sch = pipeline_okD(1) [OF move.prems(1)]
  note ok = pipeline_ok_step [OF move.prems(1) move.hyps]
  have key: "step_key r' = (st_document_id r, st_name r)" using step_move_key [OF move.hyps(2)] by (simp add: step_key_def)
  have old: "status_of (st_document_id r) (st_name r) db = Some (st_status r)" by (rule status_of_row [OF sch move.hyps(1)])
  have new: "status_of d s (put_step r' db) = (if d = st_document_id r \<and> s = st_name r then Some (st_status r') else status_of d s db)"
    using status_of_put_step [OF sch ok(2)] key by simp
  have rows: "find_step d s (put_step r' db) = (if d = st_document_id r \<and> s = st_name r then Some r' else find_step d s db)"
    using find_step_put_step [OF sch ok(2)] key by simp
  have evs: "evs = [step_event (st_name r) (st_status r')] \<or>
      evs = [] \<and> st_status r = RUNNING \<and> st_status r' = QUEUED \<and> 0 < st_attempts r'"
    using move.hyps(2) pipeline_okD(5) [OF move.prems(1) move.hyps(1)]
    by (cases rule: step_move.cases) (auto simp: step_row_ok_def)
  show ?case
  proof (cases "d = st_document_id r \<and> s = st_name r")
    case True
    have own: "find_step (st_document_id r) (st_name r) db = Some r" by (rule find_step_row [OF sch move.hyps(1)])
    from True evs new rows old own move.prems(3) show ?thesis by (auto simp: events_of_def up_to_date_def waits_again_def)
  next
    case False
    with evs have "shown_status s (events_of d (map (Pair (st_document_id r)) evs)) known = known"
      by (auto simp: events_of_def)
    with new rows move.prems(3) False show ?thesis by (simp add: up_to_date_def waits_again_def)
  qed
next
  case (derive e q st now)
  have "find_step d s (put_doc_status e st now db) = find_step d s db" by (simp add: find_step_def)
  with derive show ?case by (simp add: events_of_def up_to_date_def waits_again_def status_of_def)
next
  case (upload user e ids uri filename now)
  have "d \<noteq> e" using upload.prems(1,2) upload.hyps(2) schema_okD(6) [OF pipeline_okD(1)]
    by (auto simp: fresh_ids_def status_of_def dest!: find_stepD)
  then have "find_step d s (add_document ((new_document user filename e now)\<lparr>doc_storage_uri := uri\<rparr>) (new_steps ids e now) db) = find_step d s db"
    by (simp add: find_step_add_document [OF pipeline_okD(1) [OF upload.prems(1)] upload.hyps(2)])
  with upload.prems(3) show ?case by (simp add: events_of_def up_to_date_def waits_again_def status_of_def)
qed (simp_all add: events_of_def up_to_date_def waits_again_def status_of_def find_step_def)

lemma tx_step_status_kept: "tx_step cfg db db' ns \<Longrightarrow> pipeline_ok cfg db \<Longrightarrow> status_of d s db \<noteq> None \<Longrightarrow> status_of d s db' \<noteq> None"
  using tx_step_find_step by (auto simp: status_of_def)

lemma effect_path_up_to_date:
  assumes "effect_path cfg db es" "pipeline_ok cfg db" "1 \<le> step_max_attempts cfg"
    and "status_of d s db \<noteq> None" "up_to_date known d s db"
  shows "up_to_date (shown_status s (events_of d (notified_of es)) known) d s (final_db db es)"
  using assms
proof (induction cfg db es arbitrary: known rule: effect_path.induct)
  case (3 cfg db db' ns es)
  then have tx: "tx_step cfg db db' ns" and path: "effect_path cfg db' es" by simp_all
  from 3(1) [OF path pipeline_ok_tx [OF tx 3(3,4)] 3(4) tx_step_status_kept [OF tx 3(3,5)] tx_step_up_to_date [OF tx 3(3,5,6)]]
  show ?case by simp
qed simp_all

text \<open>The document's own status is always exact.\<close>

definition document_status_in :: "uuid \<Rightarrow> database \<Rightarrow> document_status option" where
  "document_status_in d db = map_option doc_status (find_document d db)"

lemma tx_step_document_shown:
  assumes "tx_step cfg db db' ns" "pipeline_ok cfg db" "find_document d db \<noteq> None"
  shows "shown_document (events_of d ns) (document_status_in d db) = document_status_in d db'"
  using assms
proof (induction rule: tx_step.induct)
  case (move r r' evs)
  have "\<forall>e \<in> set evs. event_document e = None" using move.hyps(2) by (cases rule: step_move.cases) auto
  then have "shown_document (events_of d (map (Pair (st_document_id r)) evs)) k = k" for k
    by (induction evs) auto
  then show ?case by (simp add: document_status_in_def find_document_def)
next
  case (derive e q st now)
  from derive.prems(2) obtain y where y: "find_document d db = Some y" by auto
  with derive.hyps(1) find_documentD [OF y] show ?case
    by (cases "d = e") (simp_all add: document_status_in_def find_document_put_doc_status)
next
  case (upload user e ids uri filename now)
  then show ?case by (auto simp: events_of_def document_status_in_def find_document_def add_document_def find_append split: option.split)
qed (simp_all add: events_of_def document_status_in_def)

lemma effect_path_document_shown:
  assumes "effect_path cfg db es" "pipeline_ok cfg db" "1 \<le> step_max_attempts cfg" "find_document d db \<noteq> None"
  shows "shown_document (events_of d (notified_of es)) (document_status_in d db) = document_status_in d (final_db db es)"
  using assms
proof (induction cfg db es rule: effect_path.induct)
  case (3 cfg db db' ns es)
  then have tx: "tx_step cfg db db' ns" and path: "effect_path cfg db' es" by simp_all
  have "find_document d db' \<noteq> None"
    using tx_step_document [OF tx, of d] 3(5) by (auto simp: kept_document_def)
  from 3(1) [OF path pipeline_ok_tx [OF tx 3(3,4)] 3(4) this] tx_step_document_shown [OF tx 3(3,5)] show ?case by simp
qed simp_all

end
