(* ===== verification/EventBus.thy ===== *)
theory EventBus
  imports Session "HOL-Library.Sublist"
begin

section \<open>The in-process event broker (\<open>app/events/notify.py\<close>, read side)\<close>

text \<open>
  Each API process has one broker: a dict from document id to the set of subscribed queues, the
  queues themselves, and the callbacks that the listener thread has handed to the event loop and
  that have not run yet. A queue is a number that indexes its content. A set of queues is a list
  without repetitions; the order in which the source iterates over the set is not specified, and
  no lemma depends on it. The listener's JSON parser is the argument \<open>parse_json\<close>.
\<close>

definition SUBSCRIBER_QUEUE_MAXSIZE :: nat where
  "SUBSCRIBER_QUEUE_MAXSIZE = 100"

record event_broker =
  subscribers :: "(string \<times> nat list) list"
  buffers :: "nat \<Rightarrow> json list"
  next_queue :: nat
  scheduled :: "(nat \<times> json) list"
  loop_set :: bool
  stopped :: bool
  dropped_events :: nat

definition new_broker :: event_broker where
  "new_broker = \<lparr>subscribers = [], buffers = (\<lambda>_. []), next_queue = 0, scheduled = [],
     loop_set = False, stopped = False, dropped_events = 0\<rparr>"

definition broker_start :: "event_broker \<Rightarrow> event_broker" where
  "broker_start b = b\<lparr>loop_set := True\<rparr>"

definition broker_stop :: "event_broker \<Rightarrow> event_broker" where
  "broker_stop b = b\<lparr>stopped := True\<rparr>"

definition queues_of :: "string \<Rightarrow> event_broker \<Rightarrow> nat list" where
  "queues_of d b = (case map_of (subscribers b) d of None \<Rightarrow> [] | Some qs \<Rightarrow> qs)"

definition subscribe :: "string \<Rightarrow> event_broker \<Rightarrow> nat \<times> event_broker" where
  "subscribe d b = (let q = next_queue b in
     (q, b\<lparr>subscribers := AList.update d (List.insert q (queues_of d b)) (subscribers b),
          buffers := (buffers b)(q := []), next_queue := q + 1\<rparr>))"

definition unsubscribe :: "string \<Rightarrow> nat \<Rightarrow> event_broker \<Rightarrow> event_broker" where
  "unsubscribe d q b = (let qs = queues_of d b in
     if qs = [] then b
     else let qs' = removeAll q qs in
       b\<lparr>subscribers := (if qs' = [] then AList.delete d (subscribers b) else AList.update d qs' (subscribers b))\<rparr>)"

definition dispatch :: "string \<Rightarrow> json \<Rightarrow> event_broker \<Rightarrow> event_broker" where
  "dispatch d ev b = (if \<not> loop_set b then b
     else b\<lparr>scheduled := scheduled b @ map (\<lambda>q. (q, ev)) (queues_of d b)\<rparr>)"

definition enqueue :: "nat \<Rightarrow> json \<Rightarrow> event_broker \<Rightarrow> event_broker" where
  "enqueue q ev b = (if length (buffers b q) < SUBSCRIBER_QUEUE_MAXSIZE
     then b\<lparr>buffers := (buffers b)(q := buffers b q @ [ev])\<rparr>
     else b\<lparr>dropped_events := dropped_events b + 1\<rparr>)"

text \<open>The event loop runs the oldest callback.\<close>

definition run_callback :: "event_broker \<Rightarrow> event_broker" where
  "run_callback b = (case scheduled b of [] \<Rightarrow> b | (q, ev) # later \<Rightarrow> enqueue q ev (b\<lparr>scheduled := later\<rparr>))"

text \<open>The body of the listener's inner loop: the addressed document and the event, or nothing when
  the payload is not JSON or has no usable \<open>document_id\<close>. One turn of the outer loop handles
  all notifications of a batch; the stop flag is looked at before the batch only.\<close>

definition notification :: "(string \<Rightarrow> json option) \<Rightarrow> string \<Rightarrow> (string \<times> json) option" where
  "notification parse_json words = (case parse_json words of
     Some (JObject kvs) \<Rightarrow>
       (case map_of kvs KEY_DOCUMENT_ID of Some (JString d) \<Rightarrow> Some (d, JObject kvs) | _ \<Rightarrow> None)
   | _ \<Rightarrow> None)"

definition on_notify :: "(string \<Rightarrow> json option) \<Rightarrow> string \<Rightarrow> event_broker \<Rightarrow> event_broker" where
  "on_notify parse_json words b = (case notification parse_json words of None \<Rightarrow> b | Some (d, ev) \<Rightarrow> dispatch d ev b)"

definition listener_turn :: "(string \<Rightarrow> json option) \<Rightarrow> string list \<Rightarrow> event_broker \<Rightarrow> event_broker" where
  "listener_turn parse_json batch b = (if stopped b then b else fold (on_notify parse_json) batch b)"

text \<open>
  \<open>_run\<close>: what each \<open>select\<close> and \<open>poll\<close> brings, and whether the thread is still alive. An exception
  of \<open>poll\<close> leaves the loop, and one of the connection attempt the function.
\<close>

datatype wakeup = Quiet | Woken "string list" | ConnectionLost

fun listen :: "(string \<Rightarrow> json option) \<Rightarrow> wakeup list \<Rightarrow> event_broker \<Rightarrow> bool \<times> event_broker" where
  "listen parse_json [] b = (True, b)"
| "listen parse_json (x # xs) b =
     (if stopped b then (False, b)
      else case x of
        Quiet \<Rightarrow> listen parse_json xs b
      | Woken batch \<Rightarrow> listen parse_json xs (listener_turn parse_json batch b)
      | ConnectionLost \<Rightarrow> (False, b))"

definition listener_thread :: "(string \<Rightarrow> json option) \<Rightarrow> bool \<Rightarrow> wakeup list \<Rightarrow> event_broker \<Rightarrow> bool \<times> event_broker" where
  "listener_thread parse_json connected xs b = (if connected then listen parse_json xs b else (False, b))"

text \<open>\<open>queue.get()\<close>, or nothing while the queue is empty.\<close>

definition queue_get :: "nat \<Rightarrow> event_broker \<Rightarrow> json option \<times> event_broker" where
  "queue_get q b = (case buffers b q of [] \<Rightarrow> (None, b)
     | ev # evs \<Rightarrow> (Some ev, b\<lparr>buffers := (buffers b)(q := evs)\<rparr>))"

subsection \<open>Histories\<close>

text \<open>The steps of the threads of one process, one notification at a time.\<close>

datatype broker_op =
    Subscribe string
  | Unsubscribe string nat
  | Notified string
  | RunCallback
  | Take nat
  | Start
  | Stop

fun broker_step :: "(string \<Rightarrow> json option) \<Rightarrow> broker_op \<Rightarrow> event_broker \<Rightarrow> event_broker" where
  "broker_step parse_json (Subscribe d) b = snd (subscribe d b)"
| "broker_step parse_json (Unsubscribe d q) b = unsubscribe d q b"
| "broker_step parse_json (Notified words) b = on_notify parse_json words b"
| "broker_step parse_json RunCallback b = run_callback b"
| "broker_step parse_json (Take q) b = snd (queue_get q b)"
| "broker_step parse_json Start b = broker_start b"
| "broker_step parse_json Stop b = broker_stop b"

definition broker_run :: "(string \<Rightarrow> json option) \<Rightarrow> broker_op list \<Rightarrow> event_broker \<Rightarrow> event_broker" where
  "broker_run parse_json ops b = fold (broker_step parse_json) ops b"

text \<open>What a client took out of its queue, and what was dispatched to a document, along the way.\<close>

fun taken :: "(string \<Rightarrow> json option) \<Rightarrow> nat \<Rightarrow> broker_op list \<Rightarrow> event_broker \<Rightarrow> json list" where
  "taken parse_json q [] b = []"
| "taken parse_json q (op # ops) b =
     (if op = Take q then (case fst (queue_get q b) of None \<Rightarrow> [] | Some ev \<Rightarrow> [ev]) else []) @
     taken parse_json q ops (broker_step parse_json op b)"

fun dispatched :: "(string \<Rightarrow> json option) \<Rightarrow> string \<Rightarrow> broker_op list \<Rightarrow> json list" where
  "dispatched parse_json d [] = []"
| "dispatched parse_json d (Notified words # ops) =
     (case notification parse_json words of None \<Rightarrow> [] | Some (e, ev) \<Rightarrow> if e = d then [ev] else []) @ dispatched parse_json d ops"
| "dispatched parse_json d (op # ops) = dispatched parse_json d ops"

subsection \<open>The invariant of the broker\<close>

definition broker_ok :: "event_broker \<Rightarrow> bool" where
  "broker_ok b \<longleftrightarrow> distinct (map fst (subscribers b)) \<and>
     (\<forall>d. map_of (subscribers b) d \<noteq> Some []) \<and>
     (\<forall>d. distinct (queues_of d b) \<and> (\<forall>q \<in> set (queues_of d b). q < next_queue b)) \<and>
     (\<forall>d e. d \<noteq> e \<longrightarrow> set (queues_of d b) \<inter> set (queues_of e b) = {}) \<and>
     (\<forall>x \<in> set (scheduled b). fst x < next_queue b) \<and>
     (\<forall>q. length (buffers b q) \<le> SUBSCRIBER_QUEUE_MAXSIZE)"

lemma broker_okD:
  assumes "broker_ok b"
  shows "distinct (map fst (subscribers b))" "map_of (subscribers b) d \<noteq> Some []"
    "distinct (queues_of d b)" "q \<in> set (queues_of d b) \<Longrightarrow> q < next_queue b"
    "d \<noteq> e \<Longrightarrow> set (queues_of d b) \<inter> set (queues_of e b) = {}"
    "x \<in> set (scheduled b) \<Longrightarrow> fst x < next_queue b" "length (buffers b q) \<le> SUBSCRIBER_QUEUE_MAXSIZE"
  using assms by (auto simp: broker_ok_def)

lemma new_broker_ok: "broker_ok new_broker"
  by (simp add: broker_ok_def new_broker_def queues_of_def)

lemma queues_of_cong [simp]: "queues_of d (b\<lparr>buffers := x\<rparr>) = queues_of d b" "queues_of d (b\<lparr>scheduled := y\<rparr>) = queues_of d b"
  "queues_of d (b\<lparr>dropped_events := n\<rparr>) = queues_of d b" "queues_of d (b\<lparr>loop_set := f\<rparr>) = queues_of d b"
  "queues_of d (b\<lparr>stopped := f\<rparr>) = queues_of d b" "queues_of d (b\<lparr>next_queue := n\<rparr>) = queues_of d b"
  by (simp_all add: queues_of_def)

lemma queues_of_subscribe: "queues_of e (snd (subscribe d b)) = (if e = d then List.insert (next_queue b) (queues_of d b) else queues_of e b)"
  by (simp add: subscribe_def queues_of_def Let_def update_conv')

lemma queues_of_unsubscribe: "queues_of e (unsubscribe d q b) = (if e = d then removeAll q (queues_of d b) else queues_of e b)"
  by (auto simp: unsubscribe_def queues_of_def Let_def update_conv' delete_conv' split: option.splits)

lemma subscribe_ok:
  assumes ok: "broker_ok b"
  shows "broker_ok (snd (subscribe d b))"
proof -
  have fresh: "next_queue b \<notin> set (queues_of e b)" for e using broker_okD(4) [OF ok, of "next_queue b" e] by auto
  have "map_of (subscribers (snd (subscribe d b))) e \<noteq> Some []" for e
    using broker_okD(2) [OF ok, of e] by (auto simp: subscribe_def Let_def update_conv' List.insert_def)
  moreover have "q < next_queue b \<Longrightarrow> q < Suc (next_queue b)" for q by simp
  ultimately show ?thesis
    using ok fresh unfolding broker_ok_def queues_of_subscribe
    by (auto simp: subscribe_def Let_def distinct_update less_Suc_eq)
qed

lemma unsubscribe_ok:
  assumes ok: "broker_ok b"
  shows "broker_ok (unsubscribe d q b)"
proof -
  have "map_of (subscribers (unsubscribe d q b)) e \<noteq> Some []" for e
    using broker_okD(2) [OF ok, of e] by (auto simp: unsubscribe_def Let_def update_conv' delete_conv')
  moreover have "distinct (map fst (subscribers (unsubscribe d q b)))"
    using ok by (auto simp: unsubscribe_def Let_def distinct_update distinct_delete broker_ok_def)
  moreover have "next_queue (unsubscribe d q b) = next_queue b" "scheduled (unsubscribe d q b) = scheduled b"
    "buffers (unsubscribe d q b) = buffers b"
    by (simp_all add: unsubscribe_def Let_def)
  ultimately show ?thesis
    using ok unfolding broker_ok_def queues_of_unsubscribe by (auto simp: disjoint_iff distinct_removeAll)
qed

lemma enqueue_ok: "broker_ok b \<Longrightarrow> broker_ok (enqueue q ev b)"
  by (auto simp: broker_ok_def enqueue_def)

lemma dispatch_ok: "broker_ok b \<Longrightarrow> broker_ok (dispatch d ev b)"
  by (auto simp: broker_ok_def dispatch_def)

lemma run_callback_ok: "broker_ok b \<Longrightarrow> broker_ok (run_callback b)"
proof (cases "scheduled b")
  case (Cons x later)
  assume ok: "broker_ok b"
  then have "broker_ok (b\<lparr>scheduled := later\<rparr>)" using Cons by (simp add: broker_ok_def)
  then show ?thesis using Cons by (cases x) (simp add: run_callback_def enqueue_ok)
qed (simp add: run_callback_def)

lemma queue_get_ok: "broker_ok b \<Longrightarrow> broker_ok (snd (queue_get q b))"
proof (cases "buffers b q")
  case (Cons ev evs)
  assume ok: "broker_ok b"
  with broker_okD(7) [OF ok, of q] Cons show ?thesis by (simp add: queue_get_def broker_ok_def)
qed (simp add: queue_get_def)

lemma broker_step_ok: "broker_ok b \<Longrightarrow> broker_ok (broker_step parse_json op b)"
proof (cases op)
  case (Notified words)
  assume "broker_ok b"
  with Notified show ?thesis by (auto simp: on_notify_def dispatch_ok split: option.split)
next
  case Start
  assume "broker_ok b"
  with Start show ?thesis by (simp add: broker_ok_def broker_start_def)
next
  case Stop
  assume "broker_ok b"
  with Stop show ?thesis by (simp add: broker_ok_def broker_stop_def)
qed (simp_all add: subscribe_ok unsubscribe_ok run_callback_ok queue_get_ok)

text \<open>A turn of the listener is a history of its notifications.\<close>

lemma listener_turn_run: "\<not> stopped b \<Longrightarrow> listener_turn parse_json batch b = broker_run parse_json (map Notified batch) b"
proof -
  have "broker_step parse_json (Notified words) = on_notify parse_json words" for words by (rule ext) simp
  then show "\<not> stopped b \<Longrightarrow> ?thesis" by (simp add: listener_turn_def broker_run_def fold_map comp_def)
qed

text \<open>The thread's life is a history too, and a lost connection ends it for good.\<close>

fun notified_in :: "wakeup list \<Rightarrow> broker_op list" where
  "notified_in [] = []"
| "notified_in (Woken batch # xs) = map Notified batch @ notified_in xs"
| "notified_in (_ # xs) = notified_in xs"

lemma stopped_notified: "stopped (broker_run parse_json (map Notified batch) b) = stopped b"
  unfolding broker_run_def
  by (induction batch arbitrary: b) (simp_all add: on_notify_def dispatch_def split: option.split)

lemma broker_run_append: "broker_run parse_json (xs @ ys) b = broker_run parse_json ys (broker_run parse_json xs b)"
  by (simp add: broker_run_def)

lemma stopped_notified_in [simp]: "stopped (broker_run parse_json (notified_in xs) b) = stopped b"
  by (induction xs arbitrary: b rule: notified_in.induct)
    (simp_all add: broker_run_append stopped_notified, simp add: broker_run_def)

lemma listen_append:
  assumes "\<not> stopped b" "ConnectionLost \<notin> set xs"
  shows "listen parse_json (xs @ ys) b = listen parse_json ys (broker_run parse_json (notified_in xs) b)"
  using assms
proof (induction xs arbitrary: b)
  case (Cons x xs)
  then show ?case by (cases x) (simp_all add: listener_turn_run broker_run_append stopped_notified)
qed (simp add: broker_run_def)

theorem lost_listeners_stay_lost:
  assumes "\<not> stopped b" "ConnectionLost \<notin> set xs"
  shows "listener_thread parse_json True xs b = (True, broker_run parse_json (notified_in xs) b)"
    and "listener_thread parse_json True (xs @ ConnectionLost # ys) b = (False, broker_run parse_json (notified_in xs) b)"
  using listen_append [OF assms, of parse_json "[]"] listen_append [OF assms, of parse_json "ConnectionLost # ys"] assms(1)
  by (simp_all add: listener_thread_def)

lemma broker_run_ok: "broker_ok b \<Longrightarrow> broker_ok (broker_run parse_json ops b)"
  unfolding broker_run_def by (induction ops arbitrary: b) (simp_all add: broker_step_ok)

subsection \<open>Nothing is lost but what is counted\<close>

text \<open>What is on its way to the client of the queue.\<close>

definition under_way :: "nat \<Rightarrow> event_broker \<Rightarrow> json list" where
  "under_way q b = buffers b q @ map snd (filter (\<lambda>x. fst x = q) (scheduled b))"

lemma under_way_dispatch:
  assumes "broker_ok b" "loop_set b" "q \<in> set (queues_of d b)"
  shows "under_way q (dispatch e ev b) = under_way q b @ (if e = d then [ev] else [])"
proof -
  have "map snd (filter (\<lambda>x. fst x = q) (map (\<lambda>p. (p, ev)) qs)) = (if q \<in> set qs then [ev] else [])" if "distinct qs" for qs
    using that by (induction qs) auto
  moreover have "q \<in> set (queues_of e b) \<longleftrightarrow> e = d" using broker_okD(5) [OF assms(1), of e d] assms(3) by auto
  ultimately show ?thesis
    using assms(2) broker_okD(3) [OF assms(1), of e] by (simp add: under_way_def dispatch_def)
qed

lemma under_way_run_callback:
  "subseq (under_way q (run_callback b)) (under_way q b)"
  "length (under_way q b) + dropped_events b \<le> length (under_way q (run_callback b)) + dropped_events (run_callback b)"
proof -
  show "subseq (under_way q (run_callback b)) (under_way q b)"
  proof (cases "scheduled b")
    case (Cons x later)
    then show ?thesis
      by (cases x) (auto simp: run_callback_def enqueue_def under_way_def subseq_append' intro: list_emb_Cons)
  qed (simp add: run_callback_def)
  show "length (under_way q b) + dropped_events b \<le> length (under_way q (run_callback b)) + dropped_events (run_callback b)"
    by (cases "scheduled b") (auto simp: run_callback_def enqueue_def under_way_def)
qed

lemma under_way_other:
  assumes "broker_ok b" "q \<in> set (queues_of d b)"
  shows "under_way q (snd (subscribe e b)) = under_way q b" "under_way q (unsubscribe e p b) = under_way q b"
    "under_way q (broker_start b) = under_way q b"
    "under_way q b = (case fst (queue_get q b) of None \<Rightarrow> [] | Some ev \<Rightarrow> [ev]) @ under_way q (snd (queue_get q b))"
    "p \<noteq> q \<Longrightarrow> under_way q (snd (queue_get p b)) = under_way q b"
  using broker_okD(4) [OF assms]
  by (auto simp: under_way_def subscribe_def unsubscribe_def broker_start_def queue_get_def Let_def split: list.split)

lemma broker_step_frame:
  assumes "op \<noteq> Unsubscribe d q" "q \<in> set (queues_of d b)" "loop_set b"
  shows "q \<in> set (queues_of d (broker_step parse_json op b))" "loop_set (broker_step parse_json op b)"
proof -
  have "queues_of d (enqueue p ev c) = queues_of d c" "queues_of d (dispatch e ev c) = queues_of d c"
    "queues_of d (snd (queue_get p c)) = queues_of d c" "queues_of d (broker_start c) = queues_of d c"
    "queues_of d (broker_stop c) = queues_of d c" for p e ev c
    by (simp_all add: enqueue_def dispatch_def queue_get_def broker_start_def broker_stop_def split: list.split)
  then show "q \<in> set (queues_of d (broker_step parse_json op b))"
    using assms by (cases op) (auto simp: queues_of_subscribe queues_of_unsubscribe run_callback_def on_notify_def split: list.split option.split)
  show "loop_set (broker_step parse_json op b)"
    using assms by (cases op; auto simp: subscribe_def unsubscribe_def Let_def run_callback_def on_notify_def enqueue_def dispatch_def
        queue_get_def broker_start_def broker_stop_def split: list.split option.split)+
qed

lemma broker_step_history:
  assumes ok: "broker_ok b" and q: "q \<in> set (queues_of d b)" "loop_set b"
    and op: "op \<noteq> Unsubscribe d q"
  shows "subseq (taken parse_json q [op] b @ under_way q (broker_step parse_json op b)) (under_way q b @ dispatched parse_json d [op]) \<and>
    length (under_way q b @ dispatched parse_json d [op]) + dropped_events b \<le>
      length (taken parse_json q [op] b @ under_way q (broker_step parse_json op b)) + dropped_events (broker_step parse_json op b)"
proof (cases op)
  case (Notified words)
  show ?thesis
  proof (cases "notification parse_json words")
    case None
    with Notified show ?thesis by (simp add: on_notify_def)
  next
    case (Some x)
    obtain e ev where x: "x = (e, ev)" by force
    have "dropped_events (dispatch e ev b) = dropped_events b" by (simp add: dispatch_def)
    with Notified Some q x show ?thesis by (simp add: on_notify_def under_way_dispatch [OF ok q(2,1)])
  qed
next
  case RunCallback
  with under_way_run_callback [of q b] show ?thesis by simp
next
  case (Take p)
  have "dropped_events (snd (queue_get p b)) = dropped_events b" by (simp add: queue_get_def split: list.split)
  with Take under_way_other(4,5) [OF ok q(1)] show ?thesis by (cases "p = q") (simp_all add: append_assoc [symmetric] del: append_assoc)
next
  case (Subscribe e)
  then show ?thesis using under_way_other(1) [OF ok q(1), of e] by (simp add: subscribe_def Let_def)
next
  case (Unsubscribe e p)
  then show ?thesis using under_way_other(2) [OF ok q(1), of e p] by (simp add: unsubscribe_def Let_def)
next
  case Start
  then show ?thesis using under_way_other(3) [OF ok q(1)] by (simp add: broker_start_def)
next
  case Stop
  then show ?thesis by (simp add: broker_stop_def under_way_def)
qed

lemma dispatched_Cons: "dispatched parse_json d (op # ops) = dispatched parse_json d [op] @ dispatched parse_json d ops"
  by (cases op) simp_all

text \<open>
  Whatever happens in between, what a subscriber has received and what is under way to it is, in
  order, what was dispatched to its document, except for at most the counted drops.
\<close>

lemma broker_run_history:
  assumes "broker_ok b" "q \<in> set (queues_of d b)" "loop_set b"
    and "\<forall>op \<in> set ops. op \<noteq> Unsubscribe d q"
  shows "subseq (taken parse_json q ops b @ under_way q (broker_run parse_json ops b)) (under_way q b @ dispatched parse_json d ops) \<and>
    length (under_way q b @ dispatched parse_json d ops) + dropped_events b \<le>
      length (taken parse_json q ops b @ under_way q (broker_run parse_json ops b)) + dropped_events (broker_run parse_json ops b)"
  using assms
proof (induction ops arbitrary: b)
  case (Cons op ops)
  let ?b = "broker_step parse_json op b"
  have op: "op \<noteq> Unsubscribe d q" using Cons.prems(4) by simp
  note step = broker_step_history [OF Cons.prems(1-3) op, of parse_json]
  note IH = Cons.IH [OF broker_step_ok [OF Cons.prems(1)] broker_step_frame [OF op Cons.prems(2,3)], of parse_json]
  have ops: "\<forall>op \<in> set ops. op \<noteq> Unsubscribe d q" using Cons.prems(4) by simp
  let ?t = "taken parse_json q [op] b" and ?rest = "taken parse_json q ops ?b @ under_way q (broker_run parse_json ops ?b)"
  have eq: "taken parse_json q (op # ops) b @ under_way q (broker_run parse_json (op # ops) b) = ?t @ ?rest"
    by (simp add: broker_run_def)
  have "subseq (?t @ ?rest) (?t @ under_way q ?b @ dispatched parse_json d ops)"
    using IH [OF ops] by (simp only: subseq_append')
  moreover have "subseq ((?t @ under_way q ?b) @ dispatched parse_json d ops)
      ((under_way q b @ dispatched parse_json d [op]) @ dispatched parse_json d ops)"
    using step by (simp only: subseq_append)
  ultimately have "subseq (?t @ ?rest) (under_way q b @ dispatched parse_json d (op # ops))"
    unfolding dispatched_Cons [of parse_json d op ops] append_assoc by (rule subseq_order.trans)
  moreover have "length (under_way q b @ dispatched parse_json d (op # ops)) + dropped_events b \<le>
      length (?t @ ?rest) + dropped_events (broker_run parse_json ops ?b)"
    using step IH [OF ops] unfolding dispatched_Cons [of parse_json d op ops] length_append by linarith
  ultimately show ?case unfolding eq by (simp add: broker_run_def)
qed (simp add: broker_run_def)

lemma broker_run_lossless:
  assumes "broker_ok b" "q \<in> set (queues_of d b)" "loop_set b"
    and "\<forall>op \<in> set ops. op \<noteq> Unsubscribe d q"
    and "dropped_events (broker_run parse_json ops b) = dropped_events b"
  shows "taken parse_json q ops b @ under_way q (broker_run parse_json ops b) = under_way q b @ dispatched parse_json d ops"
proof -
  note hist = broker_run_history [OF assms(1-4), of parse_json]
  have "length (taken parse_json q ops b @ under_way q (broker_run parse_json ops b)) = length (under_way q b @ dispatched parse_json d ops)"
    using hist assms(5) list_emb_length [OF conjunct1 [OF hist]] by linarith
  with hist show ?thesis by (auto intro: subseq_same_length)
qed

end
