(* ===== verification/EventStreams.thy ===== *)
theory EventStreams
  imports Announcements EventBus Cursors
begin

section \<open>The progress stream (\<open>app/api/events.py\<close>)\<close>

text \<open>
  The endpoint subscribes first and reads its snapshot afterwards, in another session; then it
  sends what its queue holds, or a keep-alive comment when the queue stays empty. Opening the
  stream is therefore two steps, between which commits can happen.
\<close>

definition sse :: "json \<Rightarrow> string" where
  "sse j = ''data: '' @ json_dumps j @ [CHR 0x0A, CHR 0x0A]"

definition keep_alive :: string where
  "keep_alive = '': keep-alive'' @ [CHR 0x0A, CHR 0x0A]"

text \<open>\<open>{step.name: step.status for step in document.steps}\<close>, in the order of the names.\<close>

definition snapshot_steps :: "uuid \<Rightarrow> world \<Rightarrow> (string \<times> json) list" where
  "snapshot_steps d w = dict_of (map (\<lambda>r. (step_name_value (st_name r), JString (step_status_value (st_status r)))) (document_steps d w))"

definition load_snapshot :: "uuid \<Rightarrow> uuid \<Rightarrow> world \<Rightarrow> event option \<times> world" where
  "load_snapshot d org_id = session_scope (\<lambda>w.
     (case get_document d w of
        None \<Rightarrow> None
      | Some document \<Rightarrow> if doc_org_id document \<noteq> org_id then None
          else Some (snapshot_event (uuid_str (doc_id document)) (doc_status document) (snapshot_steps d w)), w))"

definition stream_subscribe :: "uuid \<Rightarrow> event_broker \<Rightarrow> nat \<times> event_broker" where
  "stream_subscribe d b = subscribe (uuid_str d) b"

text \<open>After the snapshot was read: the first frame, or the 404 that gives the queue back.\<close>

definition stream_open :: "uuid \<Rightarrow> uuid \<Rightarrow> nat \<Rightarrow> world \<Rightarrow> event_broker \<Rightarrow> string response \<times> event_broker" where
  "stream_open d org_id q w b = (case fst (load_snapshot d org_id w) of
     None \<Rightarrow> (HTTPException 404 ''document not found'', unsubscribe (uuid_str d) q b)
   | Some snapshot \<Rightarrow> (Answer (sse (JObject snapshot)), b))"

definition stream_next :: "nat \<Rightarrow> event_broker \<Rightarrow> string \<times> event_broker" where
  "stream_next q b = (case queue_get q b of (None, b') \<Rightarrow> (keep_alive, b') | (Some ev, b') \<Rightarrow> (sse ev, b'))"

definition stream_close :: "uuid \<Rightarrow> nat \<Rightarrow> event_broker \<Rightarrow> event_broker" where
  "stream_close d q b = unsubscribe (uuid_str d) q b"

subsection \<open>What the client knows\<close>

text \<open>The statuses that the snapshot shows.\<close>

definition snapshot_status :: "step_name \<Rightarrow> event \<Rightarrow> step_status option" where
  "snapshot_status s e = (case map_of e KEY_STEPS of
     Some (JObject kvs) \<Rightarrow> (case map_of kvs (step_name_value s) of Some (JString v) \<Rightarrow> step_status_of_value v | _ \<Rightarrow> None)
   | _ \<Rightarrow> None)"

lemma document_steps_find:
  assumes "schema_ok (working w)"
  shows "find (\<lambda>r. st_name r = s) (document_steps d w) = find_step d s (working w)"
proof -
  have "map_of (dict_of (map (\<lambda>r. (st_name r, r)) (document_steps d w))) s = find_step d s (working w)"
    by (rule map_of_document_steps [OF assms])
  moreover have dist: "distinct (map st_name (document_steps d w))"
    using distinct_steps_of [OF assms, of d] by (simp add: document_steps_def) (metis distinct_map distinct_sort mset_eq_imp_distinct_iff mset_map mset_sort)
  ultimately show ?thesis
    using map_of_map_key [OF dist, of "\<lambda>r. r" s] by (simp add: dict_of_distinct comp_def option.map_ident)
qed

lemma snapshot_steps_status:
  assumes "schema_ok (working w)"
  shows "map_of (snapshot_steps d w) (step_name_value s) = map_option (\<lambda>st. JString (step_status_value st)) (status_of d s (working w))"
proof -
  let ?rs = "document_steps d w"
  have dist: "distinct (map st_name ?rs)"
    using distinct_steps_of [OF assms, of d] by (simp add: document_steps_def) (metis distinct_map distinct_sort mset_eq_imp_distinct_iff mset_map mset_sort)
  have inj: "step_name_value (st_name r) = step_name_value s \<longleftrightarrow> st_name r = s" for r
    using step_name_codec.encode_injective [of "st_name r" s] by auto
  have "distinct (map (\<lambda>r. step_name_value (st_name r)) ?rs)"
    using dist step_name_codec.inj_on_encode by (auto simp: distinct_map inj_on_def comp_def)
  from map_of_map_key [OF this, of "\<lambda>r. JString (step_status_value (st_status r))" "step_name_value s"] this
  show ?thesis
    unfolding snapshot_steps_def
    by (simp add: dict_of_distinct comp_def inj document_steps_find [OF assms] status_of_def option.map_comp)
qed

text \<open>The snapshot is exact.\<close>

lemma load_snapshot_exact:
  assumes "clean w" "schema_ok (committed w)" "find_document d (committed w) = Some q"
  obtains e where "fst (load_snapshot d (doc_org_id q) w) = Some e"
    and "\<And>s. snapshot_status s e = status_of d s (committed w)"
    and "map_of e KEY_DOC_STATUS = Some (JString (document_status_value (doc_status q)))"
proof -
  have work: "working w = committed w" using assms(1) by (simp add: clean_def)
  let ?e = "snapshot_event (uuid_str d) (doc_status q) (snapshot_steps d w)"
  have "fst (load_snapshot d (doc_org_id q) w) = Some ?e"
    using assms find_documentD [OF assms(3)] by (simp add: load_snapshot_def session_scope_def get_document_def work)
  moreover have "snapshot_status s ?e = status_of d s (committed w)" for s
    using snapshot_steps_status [of w d s] assms(2) work
    by (simp add: snapshot_status_def snapshot_event_def key_defs step_status_codec.decode_encode split: option.split)
  moreover have "map_of ?e KEY_DOC_STATUS = Some (JString (document_status_value (doc_status q)))"
    by (simp add: snapshot_event_def key_defs)
  ultimately show ?thesis by (rule that)
qed

text \<open>Replaying events over a known status: the last event about the step decides.\<close>

lemma shown_status_cases:
  "(\<forall>k k'. shown_status s es k = shown_status s es k') \<or> (\<forall>k. shown_status s es k = k)"
proof (induction es)
  case (Cons e es)
  then show ?case by (cases "event_step e") (auto split: prod.split)
qed simp

lemma shown_document_cases:
  "(\<forall>k k'. shown_document es k = shown_document es k') \<or> (\<forall>k. shown_document es k = k)"
proof (induction es)
  case (Cons e es)
  then show ?case by (cases "event_document e") auto
qed simp

text \<open>
  A snapshot taken in the middle, then all events from the subscription on: the events that the
  snapshot already contains do no harm.
\<close>

lemma replay_up_to_date:
  assumes "effect_path cfg db (xs @ ys)" "pipeline_ok cfg db" "1 \<le> step_max_attempts cfg" "status_of d s db \<noteq> None"
  shows "up_to_date (shown_status s (events_of d (notified_of (xs @ ys))) (status_of d s (final_db db xs)))
    d s (final_db db (xs @ ys))"
proof -
  let ?all = "events_of d (notified_of (xs @ ys))"
  have whole: "up_to_date (shown_status s ?all (status_of d s db)) d s (final_db db (xs @ ys))"
    using effect_path_up_to_date [OF assms] by (simp add: up_to_date_def)
  from shown_status_cases [of s ?all] show ?thesis
  proof
    assume "\<forall>k k'. shown_status s ?all k = shown_status s ?all k'"
    with whole show ?thesis by metis
  next
    assume silent: "\<forall>k. shown_status s ?all k = k"
    have "pipeline_ok cfg (final_db db xs)" using effect_path_ok [OF _ assms(2,3), of xs] assms(1) by simp
    moreover have "status_of d s (final_db db xs) \<noteq> None"
      using effect_path_find_step [OF _ assms(2,3), of xs d s] assms(1,4) by (simp add: status_of_def)
    ultimately have "up_to_date (shown_status s (events_of d (notified_of ys)) (status_of d s (final_db db xs))) d s (final_db (final_db db xs) ys)"
      using assms(1,3) by (intro effect_path_up_to_date) (simp_all add: up_to_date_def)
    moreover have "shown_status s (events_of d (notified_of ys)) k = k" for k
      using silent shown_status_cases [of s "events_of d (notified_of xs)"] shown_status_cases [of s "events_of d (notified_of ys)"]
      by simp metis
    ultimately show ?thesis using silent by simp
  qed
qed

lemma replay_document:
  assumes "effect_path cfg db (xs @ ys)" "pipeline_ok cfg db" "1 \<le> step_max_attempts cfg" "find_document d db \<noteq> None"
  shows "shown_document (events_of d (notified_of (xs @ ys))) (document_status_in d (final_db db xs)) =
    document_status_in d (final_db db (xs @ ys))"
proof -
  let ?all = "events_of d (notified_of (xs @ ys))"
  have whole: "shown_document ?all (document_status_in d db) = document_status_in d (final_db db (xs @ ys))"
    by (rule effect_path_document_shown [OF assms])
  from shown_document_cases [of ?all] show ?thesis
  proof
    assume "\<forall>k k'. shown_document ?all k = shown_document ?all k'"
    with whole show ?thesis by metis
  next
    assume silent: "\<forall>k. shown_document ?all k = k"
    have "shown_document (events_of d (notified_of xs)) k = k" for k
      using silent shown_document_cases [of "events_of d (notified_of xs)"] shown_document_cases [of "events_of d (notified_of ys)"]
      by simp metis
    then have "document_status_in d (final_db db xs) = document_status_in d db"
      using effect_path_document_shown [OF _ assms(2-4), of xs] assms(1) by simp
    with silent whole show ?thesis by simp
  qed
qed

subsection \<open>Through the listener and the queue\<close>

definition json_fields :: "json \<Rightarrow> event" where
  "json_fields j = (case j of JObject kvs \<Rightarrow> kvs | _ \<Rightarrow> [])"

definition ordinary :: "event \<Rightarrow> bool" where
  "ordinary e \<longleftrightarrow> (\<exists>s st. e = step_event s st) \<or> (\<exists>st. e = doc_status_event st)"

lemma ordinary_payload:
  assumes "ordinary e"
  shows "notify_payload d e = JObject ((KEY_DOCUMENT_ID, JString (uuid_str d)) # e)"
  using assms notify_payload_step notify_payload_doc unfolding ordinary_def step_event_def doc_status_event_def by auto

lemma event_fields:
  assumes "ordinary e"
  shows "event_step (json_fields (notify_payload d e)) = event_step e" "event_document (json_fields (notify_payload d e)) = event_document e"
  by (simp_all add: ordinary_payload [OF assms] json_fields_def event_step_def event_document_def key_defs)

lemma shown_fields:
  "\<forall>e \<in> set es. ordinary e \<Longrightarrow> shown_status s (map (\<lambda>e. json_fields (notify_payload d e)) es) k = shown_status s es k"
  "\<forall>e \<in> set es. ordinary e \<Longrightarrow> shown_document (map (\<lambda>e. json_fields (notify_payload d e)) es) l = shown_document es l"
  by (induction es arbitrary: k l) (simp_all add: event_fields(1,2))

lemma uuid_str_inject: "uuid_str u = uuid_str v \<longleftrightarrow> u = v"
  using uuid_codec.encode_injective [of u v] by auto

text \<open>The texts that the listener receives among the operations of the broker.\<close>

fun received :: "broker_op list \<Rightarrow> string list" where
  "received [] = []"
| "received (Notified words # ops) = words # received ops"
| "received (op # ops) = received ops"

lemma dispatched_received: "dispatched parse_json d ops = dispatched parse_json d (map Notified (received ops))"
proof (induction ops)
  case (Cons op ops)
  then show ?case by (cases op) simp_all
qed simp

text \<open>The law of the JSON parser on the texts that the program itself writes.\<close>

definition reads_back :: "(string \<Rightarrow> json option) \<Rightarrow> bool" where
  "reads_back parse_json \<longleftrightarrow> (\<forall>d e. ordinary e \<longrightarrow> parse_json (notify_text d e) = Some (notify_payload d e))"

lemma dispatched_notifications:
  assumes "reads_back parse_json" "\<forall>n \<in> set ns. ordinary (snd n)"
  shows "dispatched parse_json (uuid_str d) (map Notified (map (\<lambda>n. notify_text (fst n) (snd n)) ns)) =
    map (notify_payload d) (events_of d ns)"
  using assms(2)
proof (induction ns)
  case (Cons n ns)
  obtain e ev where n: "n = (e, ev)" by force
  have ord: "ordinary ev" using Cons.prems n by simp
  with assms(1) have "parse_json (notify_text e ev) = Some (notify_payload e ev)" by (simp add: reads_back_def)
  then have "notification parse_json (notify_text e ev) = Some (uuid_str e, notify_payload e ev)"
    by (simp add: notification_def ordinary_payload [OF ord])
  with Cons n show ?case by (auto simp: uuid_str_inject)
qed simp

lemma path_ordinary:
  assumes "effect_path cfg db es" "pipeline_ok cfg db" "1 \<le> step_max_attempts cfg" "n \<in> set (notified_of es)"
  shows "ordinary (snd n)"
proof -
  have "\<exists>db' ns. Committed db' ns \<in> set es \<and> n \<in> set ns"
    using assms(4) by (induction es rule: notified_of.induct) auto
  with effect_path_announced [OF assms(1-3)] show ?thesis unfolding announced_def ordinary_def by blast
qed

lemma gap_free:
  assumes path: "effect_path cfg db (xs @ ys)" "pipeline_ok cfg db" "1 \<le> step_max_attempts cfg" "find_document d db \<noteq> None"
    and bus: "broker_ok b0" "loop_set b0" "stream_subscribe d b0 = (q, b)"
    and ops: "\<forall>op \<in> set ops. op \<noteq> Unsubscribe (uuid_str d) q" "reads_back parse_json"
      "received ops = map (\<lambda>n. notify_text (fst n) (snd n)) (notified_of (xs @ ys))"
      "dropped_events (broker_run parse_json ops b) = dropped_events b" "under_way q (broker_run parse_json ops b) = []"
    and snap: "clean w" "committed w = final_db db xs" "find_document d (committed w) = Some doc"
      "fst (load_snapshot d (doc_org_id doc) w) = Some e"
  shows "up_to_date (shown_status s (map json_fields (taken parse_json q ops b)) (snapshot_status s e)) d s (final_db db (xs @ ys))"
    and "shown_document (map json_fields (taken parse_json q ops b)) (Some (doc_status doc)) = document_status_in d (final_db db (xs @ ys))"
proof -
  note ok1 = effect_path_ok [OF _ path(2,3), of xs]
  have b: "b = snd (subscribe (uuid_str d) b0)" "q = next_queue b0"
    using bus(3) by (simp_all add: stream_subscribe_def) (auto simp: subscribe_def Let_def)
  have okb: "broker_ok b" unfolding b by (rule subscribe_ok [OF bus(1)])
  have mem: "q \<in> set (queues_of (uuid_str d) b)" unfolding b(1) queues_of_subscribe by (simp add: b(2))
  have flags: "loop_set b" using bus(2) by (simp add: b(1) subscribe_def Let_def)
  have "\<forall>x \<in> set (scheduled b0). fst x \<noteq> next_queue b0" using broker_okD(6) [OF bus(1)] by (metis less_irrefl)
  then have "under_way q b = []" by (simp add: b subscribe_def Let_def under_way_def filter_empty_conv)
  with broker_run_lossless [OF okb mem flags ops(1,4)] ops(5)
  have "taken parse_json q ops b = dispatched parse_json (uuid_str d) ops" by simp
  also have "\<dots> = map (notify_payload d) (events_of d (notified_of (xs @ ys)))"
    unfolding dispatched_received [of parse_json "uuid_str d" ops] ops(3)
    by (rule dispatched_notifications [OF ops(2)]) (use path_ordinary [OF path(1-3)] in blast)
  finally have taken: "map json_fields (taken parse_json q ops b) = map (\<lambda>e. json_fields (notify_payload d e)) (events_of d (notified_of (xs @ ys)))"
    by (simp add: comp_def)
  have ord: "\<forall>e \<in> set (events_of d (notified_of (xs @ ys))). ordinary e"
    using path_ordinary [OF path(1-3)] by (auto simp: events_of_def)
  have sch: "schema_ok (committed w)" using ok1 path(1) snap(2) pipeline_okD(1) by auto
  obtain e' where e': "fst (load_snapshot d (doc_org_id doc) w) = Some e'" "snapshot_status s e' = status_of d s (committed w)" for s
    by (rule load_snapshot_exact [OF snap(1) sch snap(3)]) blast
  have "status_of d s db \<noteq> None"
    using pipeline_okD(3) [OF path(2)] path(4) find_documentD by (fastforce simp: four_steps_def status_of_def)
  from replay_up_to_date [OF path(1-3) this] e' snap(2,4)
  show "up_to_date (shown_status s (map json_fields (taken parse_json q ops b)) (snapshot_status s e)) d s (final_db db (xs @ ys))"
    unfolding taken shown_fields(1) [OF ord] by simp
  from replay_document [OF path] snap(2,3)
  show "shown_document (map json_fields (taken parse_json q ops b)) (Some (doc_status doc)) = document_status_in d (final_db db (xs @ ys))"
    unfolding taken shown_fields(2) [OF ord] by (simp add: document_status_in_def)
qed

end
