(* ===== verification/Auth.thy ===== *)
theory Auth
  imports Cursors Queries "HOL-Library.Sublist"
begin

section \<open>Authentication (\<open>app/auth.py\<close>, \<open>app/api/auth.py\<close>, \<open>app/api/routes_impl/auth.py\<close>)\<close>

text \<open>
  A token is made by \<open>jwt.encode\<close> and read by \<open>jwt.decode\<close>; the library is not part of the
  repository, so both are arguments. What the program relies on is \<open>jwt_library\<close>: for an HMAC
  algorithm and a secret that is no key file, and for claims like those of the program, a token
  gives its claims back while it is valid, and is refused before its issue time and from its
  expiry on, both with the leeway. The library writes a date as its whole seconds.
\<close>

datatype claim = ClaimText string | ClaimTime timestamp

type_synonym jwt_encode = "(string \<times> claim) list \<Rightarrow> string \<Rightarrow> string \<Rightarrow> string"
type_synonym jwt_decode = "string \<Rightarrow> string \<Rightarrow> string list \<Rightarrow> int \<Rightarrow> timestamp \<Rightarrow> (string \<times> json) list option"

text \<open>\<open>now + timedelta(minutes=...)\<close>.\<close>

definition minutes :: "int \<Rightarrow> timestamp" where
  "minutes n = n * 60000000"

definition access_claims :: "settings \<Rightarrow> app_user \<Rightarrow> timestamp \<Rightarrow> (string \<times> claim) list" where
  "access_claims cfg user now =
     [(''sub'', ClaimText (uuid_str (user_id user))), (''org_id'', ClaimText (uuid_str (user_org_id user))),
      (''email'', ClaimText (user_email user)), (''iat'', ClaimTime now),
      (''exp'', ClaimTime (now + minutes (jwt_expire_minutes cfg)))]"

definition create_access_token :: "settings \<Rightarrow> jwt_encode \<Rightarrow> app_user \<Rightarrow> timestamp \<Rightarrow> string" where
  "create_access_token cfg encode user now = encode (access_claims cfg user now) (jwt_secret cfg) (jwt_algorithm cfg)"

text \<open>\<open>uuid.UUID(claims["sub"])\<close>: a missing claim is a \<open>KeyError\<close>, a text that is no UUID a
  \<open>ValueError\<close>; a null or a number raise what the caller does not catch.\<close>

definition subject_id :: "(nat \<Rightarrow> nat option) \<Rightarrow> (string \<times> json) list \<Rightarrow> pyexn + uuid" where
  "subject_id decimal claims = (case map_of claims ''sub'' of
       None \<Rightarrow> Inl (Exn ''KeyError'' (CHR 0x27 # ''sub'' @ [CHR 0x27]))
     | Some (JString s) \<Rightarrow>
         (case uuid_of_text decimal (codes s) of Some u \<Rightarrow> Inr u
          | None \<Rightarrow> Inl (Exn ''ValueError'' ''badly formed hexadecimal UUID string''))
     | Some JNull \<Rightarrow> Inl (Exn ''TypeError'' ''one of the hex, bytes, bytes_le, fields, or int arguments must be given'')
     | Some _ \<Rightarrow> Inl (Exn ''AttributeError'' ''object has no attribute replace''))"

text \<open>\<open>jwt.decode\<close> answers \<open>None\<close> here when it raises a \<open>PyJWTError\<close>.\<close>

definition get_current_user ::
  "settings \<Rightarrow> jwt_decode \<Rightarrow> (nat \<Rightarrow> nat option) \<Rightarrow> string \<Rightarrow> world \<Rightarrow> app_user response" where
  "get_current_user cfg decode decimal token w =
     (case decode token (jwt_secret cfg) [jwt_algorithm cfg] (jwt_leeway_seconds cfg) (clock w) of
        None \<Rightarrow> HTTPException 401 ''invalid token''
      | Some claims \<Rightarrow>
          (case subject_id decimal claims of
             Inl e \<Rightarrow> if exn_type e \<in> {''KeyError'', ''ValueError''} then HTTPException 401 ''invalid token'' else Escaped e
           | Inr u \<Rightarrow>
               (case find_user u (working w) of
                  None \<Rightarrow> HTTPException 401 ''unknown user''
                | Some user \<Rightarrow> Answer user)))"

record token_response =
  tr_access_token :: string
  tr_token_type :: string

definition login :: "settings \<Rightarrow> jwt_encode \<Rightarrow> string \<Rightarrow> world \<Rightarrow> pyexn + token_response option" where
  "login cfg encode email w = bind_result (get_user_by_email email w) (\<lambda>user.
     Inr (case user of None \<Rightarrow> None
          | Some u \<Rightarrow> Some \<lparr>tr_access_token = create_access_token cfg encode u (clock w), tr_token_type = ''bearer''\<rparr>))"

definition login_route :: "settings \<Rightarrow> jwt_encode \<Rightarrow> string \<Rightarrow> world \<Rightarrow> token_response response" where
  "login_route cfg encode email w = (case login cfg encode email (open_session w) of
     Inl e \<Rightarrow> Escaped e
   | Inr None \<Rightarrow> HTTPException 401 ''unknown email''
   | Inr (Some token) \<Rightarrow> Answer token)"

subsection \<open>The contract of the token library\<close>

fun claim_json :: "claim \<Rightarrow> json" where
  "claim_json (ClaimText s) = JString s"
| "claim_json (ClaimTime t) = JInt (t div 1000000)"

text \<open>When a token that was issued at \<open>iat\<close> and expires at \<open>exp\<close> is accepted.\<close>

definition accepted :: "timestamp \<Rightarrow> timestamp \<Rightarrow> int \<Rightarrow> timestamp \<Rightarrow> bool" where
  "accepted iat exp_at leeway now \<longleftrightarrow>
     iat div 1000000 * 1000000 \<le> now + leeway * 1000000 \<and> now - leeway * 1000000 < exp_at div 1000000 * 1000000"

text \<open>The documentation of PyJWT limits this. The algorithms that sign and verify with one secret are the
  HMAC ones. A secret that reads as a PEM or an SSH key is refused for them. Dates are those of
  \<open>datetime\<close>. The claims \<open>aud\<close>, \<open>nbf\<close>, \<open>iss\<close> and \<open>jti\<close> have checks of their own, and \<open>sub\<close>
  has to be a text.\<close>

definition hmac_algorithms :: "string list" where
  "hmac_algorithms = [''HS256'', ''HS384'', ''HS512'']"

definition hmac_secret :: "string \<Rightarrow> bool" where
  "hmac_secret secret \<longleftrightarrow> secret \<noteq> [] \<and>
     list_all (\<lambda>mark. \<not> sublist mark secret) [''-----'', ''ssh-'', ''ecdsa-'', ''-cert-v01@openssh.com'']"

definition datable :: "timestamp \<Rightarrow> bool" where
  "datable t \<longleftrightarrow> 0 \<le> t \<and> t < 253402300800000000"

definition plain_claims :: "(string \<times> claim) list \<Rightarrow> bool" where
  "plain_claims claims \<longleftrightarrow> distinct (map fst claims) \<and>
     list_all (\<lambda>k. map_of claims k = None) [''aud'', ''nbf'', ''iss'', ''jti''] \<and>
     (case map_of claims ''sub'' of Some (ClaimTime _) \<Rightarrow> False | _ \<Rightarrow> True) \<and>
     list_all (\<lambda>(_, c). case c of ClaimTime t \<Rightarrow> datable t | ClaimText _ \<Rightarrow> True) claims"

definition jwt_library :: "jwt_encode \<Rightarrow> jwt_decode \<Rightarrow> bool" where
  "jwt_library encode decode \<longleftrightarrow> (\<forall>claims secret algorithm leeway now iat exp_at.
     algorithm \<in> set hmac_algorithms \<longrightarrow> hmac_secret secret \<longrightarrow> plain_claims claims \<longrightarrow>
     map_of claims ''iat'' = Some (ClaimTime iat) \<longrightarrow> map_of claims ''exp'' = Some (ClaimTime exp_at) \<longrightarrow>
     decode (encode claims secret algorithm) secret [algorithm] leeway now =
       (if accepted iat exp_at leeway now then Some (map (\<lambda>(k, c). (k, claim_json c)) claims) else None))"

subsection \<open>Logging in\<close>

lemma get_user_by_email_found:
  assumes "schema_ok (working w)" "u \<in> set (app_users (working w))"
  shows "get_user_by_email (user_email u) w = Inr (Some u)"
proof -
  have "filter (\<lambda>v. user_email v = user_email u) us = [u]" if "u \<in> set us" "distinct (map user_email us)" for us
    using that by (induction us) (auto simp: filter_empty_conv image_iff)
  from this [OF assms(2) schema_okD(5) [OF assms(1)]] show ?thesis by (simp add: get_user_by_email_def)
qed

lemma find_user_row:
  assumes "schema_ok db" "u \<in> set (app_users db)"
  shows "find_user (user_id u) db = Some u"
  unfolding find_user_def by (rule find_key_unique [OF schema_okD(4) [OF assms(1)] assms(2)])

lemma login_route_cases:
  assumes "schema_ok (committed w)"
  shows "login_route cfg encode email w = (case find (\<lambda>u. user_email u = email) (app_users (committed w)) of
     None \<Rightarrow> HTTPException 401 ''unknown email''
   | Some u \<Rightarrow> Answer \<lparr>tr_access_token = create_access_token cfg encode u (clock w), tr_token_type = ''bearer''\<rparr>)"
proof (cases "find (\<lambda>u. user_email u = email) (app_users (committed w))")
  case None
  then have "filter (\<lambda>u. user_email u = email) (app_users (committed w)) = []" by (auto simp: find_None_iff filter_empty_conv)
  with None show ?thesis by (simp add: login_route_def login_def get_user_by_email_def open_session_def)
next
  case (Some u)
  then have "u \<in> set (app_users (committed w))" "user_email u = email" by (auto dest: find_in_set)
  with get_user_by_email_found [of "open_session w" u] assms Some show ?thesis
    by (simp add: login_route_def login_def open_session_def)
qed

text \<open>The token of a user identifies that user, exactly while it is accepted.\<close>

lemma token_identifies_user:
  assumes "jwt_library encode decode" "jwt_algorithm cfg \<in> set hmac_algorithms" "hmac_secret (jwt_secret cfg)"
    and "datable issued" "datable (issued + minutes (jwt_expire_minutes cfg))"
    and "schema_ok (working w)" "u \<in> set (app_users (working w))"
  shows "get_current_user cfg decode decimal (create_access_token cfg encode u issued) w =
    (if accepted issued (issued + minutes (jwt_expire_minutes cfg)) (jwt_leeway_seconds cfg) (clock w)
     then Answer u else HTTPException 401 ''invalid token'')"
proof -
  have "map_of (access_claims cfg u issued) ''iat'' = Some (ClaimTime issued)"
    "map_of (access_claims cfg u issued) ''exp'' = Some (ClaimTime (issued + minutes (jwt_expire_minutes cfg)))"
    by (simp_all add: access_claims_def)
  moreover have "plain_claims (access_claims cfg u issued)"
    using assms(4,5) by (simp add: plain_claims_def access_claims_def)
  ultimately have "decode (create_access_token cfg encode u issued) (jwt_secret cfg) [jwt_algorithm cfg] (jwt_leeway_seconds cfg) (clock w) =
      (if accepted issued (issued + minutes (jwt_expire_minutes cfg)) (jwt_leeway_seconds cfg) (clock w)
       then Some (map (\<lambda>(k, c). (k, claim_json c)) (access_claims cfg u issued)) else None)"
    using assms(1-3) unfolding jwt_library_def create_access_token_def by blast
  then show ?thesis
    by (simp add: get_current_user_def subject_id_def access_claims_def uuid_of_text_str find_user_row [OF assms(6,7)])
qed

text \<open>Whatever the token library answers, the user is a row of the database.\<close>

lemma current_user_is_stored:
  "get_current_user cfg decode decimal token w = Answer u \<Longrightarrow> u \<in> set (app_users (working w))"
  by (auto simp: get_current_user_def find_user_def split: option.splits sum.splits if_splits dest: find_in_set)

end
