(* ===== verification/DemoLibraries.thy ===== *)
theory DemoLibraries
  imports Journeys EventStreams Auth
begin

section \<open>Concrete libraries\<close>

text \<open>
  The contracts that the model assumes of library code hold for concrete functions: a date
  format, a token format, and a reader of the notifications.
\<close>

subsection \<open>Dates\<close>

definition demo_isoformat :: "timestamp \<Rightarrow> string" where
  "demo_isoformat t = str_int t"

text \<open>A number, with an offset after \<open>@\<close> if there is one.\<close>

definition demo_fromisoformat :: "nat list \<Rightarrow> datetime option" where
  "demo_fromisoformat cs = (let a = takeWhile (\<lambda>c. c \<noteq> 64) cs; rest = dropWhile (\<lambda>c. c \<noteq> 64) cs in
     case py_int (map char_of a) of
       Inl _ \<Rightarrow> None
     | Inr t \<Rightarrow> if rest = [] then Some \<lparr>moment = t, utc_offset = None\<rparr>
         else (case py_int (map char_of (tl rest)) of
                 Inl _ \<Rightarrow> None
               | Inr z \<Rightarrow> Some \<lparr>moment = t, utc_offset = Some z\<rparr>))"

text \<open>PostgreSQL takes offsets below sixteen hours.\<close>

definition demo_binds :: "datetime \<Rightarrow> bool" where
  "demo_binds m = (case utc_offset m of None \<Rightarrow> True | Some z \<Rightarrow> \<bar>z\<bar> < 57600)"

lemma str_int_plain: "CHR ''|'' \<notin> set (str_int t)" "CHR ''@'' \<notin> set (str_int t)"
proof -
  have "\<forall>d \<in> set [0..<10]. digit_char d \<noteq> CHR ''|'' \<and> digit_char d \<noteq> CHR ''@''" by code_simp
  then have "CHR ''|'' \<notin> digit_char ` {..<10}" "CHR ''@'' \<notin> digit_char ` {..<10}" by auto
  then show "CHR ''|'' \<notin> set (str_int t)" "CHR ''@'' \<notin> set (str_int t)"
    using set_str_nat [of "nat t"] set_str_nat [of "nat (- t)"] by (auto simp: str_int_def)
qed

lemma chars_of_codes: "map char_of (codes s) = s"
  by (induction s) simp_all

lemma str_int_split:
  "takeWhile (\<lambda>c. c \<noteq> 64) (codes (str_int t)) = codes (str_int t)" "dropWhile (\<lambda>c. c \<noteq> 64) (codes (str_int t)) = []"
  "takeWhile (\<lambda>c. c \<noteq> 64) (codes (str_int t) @ 64 # rest) = codes (str_int t)"
  "dropWhile (\<lambda>c. c \<noteq> 64) (codes (str_int t) @ 64 # rest) = 64 # rest"
proof -
  have "(64 :: nat) \<notin> set (codes (str_int t))"
  proof
    assume "(64 :: nat) \<in> set (codes (str_int t))"
    then have "char_of (64 :: nat) \<in> set (map char_of (codes (str_int t)))" by (metis list.set_map imageI)
    moreover have "char_of (64 :: nat) = CHR ''@''" by code_simp
    ultimately show False using str_int_plain(2) by (simp only: chars_of_codes)
  qed
  then have all: "\<forall>c \<in> set (codes (str_int t)). c \<noteq> 64" by metis
  then show "takeWhile (\<lambda>c. c \<noteq> 64) (codes (str_int t)) = codes (str_int t)" "dropWhile (\<lambda>c. c \<noteq> 64) (codes (str_int t)) = []"
    by (simp_all only: takeWhile_eq_all_conv dropWhile_eq_Nil_conv not_not)
  with all show "takeWhile (\<lambda>c. c \<noteq> 64) (codes (str_int t) @ 64 # rest) = codes (str_int t)"
    "dropWhile (\<lambda>c. c \<noteq> 64) (codes (str_int t) @ 64 # rest) = 64 # rest"
    by (simp_all only: takeWhile_append2 dropWhile_append2 takeWhile.simps dropWhile.simps append_Nil2 simp_thms if_True if_False)
qed

lemma demo_fromisoformat_int:
  "demo_fromisoformat (codes (str_int t)) = Some \<lparr>moment = t, utc_offset = None\<rparr>"
  "demo_fromisoformat (codes (str_int t) @ 64 # codes (str_int z)) = Some \<lparr>moment = t, utc_offset = Some z\<rparr>"
  unfolding demo_fromisoformat_def str_int_split list.sel chars_of_codes by (simp_all add: py_int_str_int)

lemma demo_date_codec: "date_codec demo_binds demo_isoformat demo_fromisoformat"
  using str_int_plain(1) demo_fromisoformat_int(1) by (simp add: date_codec_def demo_isoformat_def demo_binds_def)

subsection \<open>Texts in texts\<close>

text \<open>Each character is marked, and the end too.\<close>

fun pack :: "string \<Rightarrow> string" where
  "pack [] = ''0''"
| "pack (c # cs) = CHR ''1'' # c # pack cs"

fun unpack :: "string \<Rightarrow> (string \<times> string) option" where
  "unpack (c # rest) =
     (if c = CHR ''0'' then Some ([], rest)
      else case rest of [] \<Rightarrow> None | d # rest' \<Rightarrow> map_option (\<lambda>(s, t). (d # s, t)) (unpack rest'))"
| "unpack [] = None"

lemma unpack_pack [simp]: "unpack (pack s @ t) = Some (s, t)"
  by (induction s) simp_all

subsection \<open>Tokens\<close>

fun pack_claims :: "(string \<times> claim) list \<Rightarrow> string" where
  "pack_claims [] = ''E''"
| "pack_claims ((k, ClaimText s) # cs) = ''T'' @ pack k @ pack s @ pack_claims cs"
| "pack_claims ((k, ClaimTime t) # cs) = ''D'' @ pack k @ pack (str_int t) @ pack_claims cs"

fun unpack_claims :: "nat \<Rightarrow> string \<Rightarrow> (string \<times> claim) list option" where
  "unpack_claims (Suc n) (c # rest) =
     (if c = CHR ''E'' then Some []
      else case unpack rest of None \<Rightarrow> None
      | Some (k, rest1) \<Rightarrow> (case unpack rest1 of None \<Rightarrow> None
        | Some (v, rest2) \<Rightarrow> (case unpack_claims n rest2 of None \<Rightarrow> None
          | Some cs \<Rightarrow> if c = CHR ''T'' then Some ((k, ClaimText v) # cs)
                      else (case py_int v of Inr t \<Rightarrow> Some ((k, ClaimTime t) # cs) | Inl _ \<Rightarrow> None))))"
| "unpack_claims _ _ = None"

lemma unpack_pack_claims: "length cs < n \<Longrightarrow> unpack_claims n (pack_claims cs) = Some cs"
proof (induction cs arbitrary: n rule: pack_claims.induct)
  case 1
  then show ?case by (cases n) simp_all
next
  case (2 k s cs)
  then show ?case by (cases n) simp_all
next
  case (3 k t cs)
  then show ?case by (cases n) (simp_all add: py_int_str_int)
qed

lemma length_pack_claims: "length cs < length (pack_claims cs)"
  by (induction cs rule: pack_claims.induct) simp_all

definition demo_encode :: jwt_encode where
  "demo_encode cs secret algorithm = pack secret @ pack algorithm @ pack_claims cs"

definition demo_decode :: jwt_decode where
  "demo_decode token secret algorithms leeway now =
     (case unpack token of None \<Rightarrow> None
      | Some (s, rest) \<Rightarrow> (case unpack rest of None \<Rightarrow> None
        | Some (a, body) \<Rightarrow> (case unpack_claims (length body) body of None \<Rightarrow> None
          | Some cs \<Rightarrow> (case (map_of cs ''iat'', map_of cs ''exp'') of
               (Some (ClaimTime iat), Some (ClaimTime exp_at)) \<Rightarrow>
                 if s = secret \<and> a \<in> set algorithms \<and> accepted iat exp_at leeway now
                 then Some (map (\<lambda>(k, c). (k, claim_json c)) cs) else None
             | _ \<Rightarrow> None))))"

lemma demo_jwt_library: "jwt_library demo_encode demo_decode"
  by (simp add: jwt_library_def demo_encode_def demo_decode_def unpack_pack_claims length_pack_claims)

subsection \<open>Notifications\<close>

text \<open>The quoted words of a text.\<close>

function quoted :: "string \<Rightarrow> string list" where
  "quoted s = (case dropWhile (\<lambda>c. c \<noteq> CHR 0x22) s of [] \<Rightarrow> []
     | _ # rest \<Rightarrow> takeWhile (\<lambda>c. c \<noteq> CHR 0x22) rest # quoted (drop 1 (dropWhile (\<lambda>c. c \<noteq> CHR 0x22) rest)))"
  by pat_completeness auto
termination
proof (relation "measure length", simp, goal_cases)
  case (1 s c rest)
  have "length (c # rest) \<le> length s" using 1 length_dropWhile_le [of "\<lambda>c. c \<noteq> CHR 0x22" s] by simp
  moreover have "length (dropWhile (\<lambda>c. c \<noteq> CHR 0x22) rest) \<le> length rest" by (rule length_dropWhile_le)
  ultimately show ?case by simp
qed

declare quoted.simps [simp del]

lemma quoted_word:
  assumes "CHR 0x22 \<notin> set pre" "CHR 0x22 \<notin> set x"
  shows "quoted (pre @ CHR 0x22 # x @ CHR 0x22 # rest) = x # quoted rest"
proof -
  have "dropWhile (\<lambda>c. c \<noteq> CHR 0x22) (u @ CHR 0x22 # v) = CHR 0x22 # v" "takeWhile (\<lambda>c. c \<noteq> CHR 0x22) (u @ CHR 0x22 # v) = u"
    if "CHR 0x22 \<notin> set u" for u v
    using that by (induction u) auto
  with assms show ?thesis by (subst quoted.simps) simp
qed

lemma quoted_end: "CHR 0x22 \<notin> set s \<Longrightarrow> quoted s = []"
proof -
  assume "CHR 0x22 \<notin> set s"
  then have "dropWhile (\<lambda>c. c \<noteq> CHR 0x22) s = []" by (induction s) auto
  then show "quoted s = []" by (subst quoted.simps) (simp only: list.case)
qed

fun pairs :: "string list \<Rightarrow> (string \<times> json) list" where
  "pairs (k # v # rest) = (k, JString v) # pairs rest"
| "pairs _ = []"

definition demo_read :: "string \<Rightarrow> json option" where
  "demo_read words = (if take 1 words = ''{'' then Some (JObject (pairs (quoted words))) else None)"

text \<open>A text without quotes, backslashes and control characters is written as it is.\<close>

definition literal :: "string \<Rightarrow> bool" where
  "literal s \<longleftrightarrow> (\<forall>c \<in> set s. json_escape c = [c]) \<and> CHR 0x22 \<notin> set s"

lemma literal_json: "literal s \<Longrightarrow> json_string s = CHR 0x22 # s @ [CHR 0x22]"
proof -
  assume "literal s"
  then have "concat (map json_escape s) = s" unfolding literal_def by (induction s) simp_all
  moreover have "char_of (34 :: nat) = CHR 0x22" by code_simp
  ultimately show ?thesis by (simp add: json_string_def)
qed

lemma quoted_json: "literal s \<Longrightarrow> CHR 0x22 \<notin> set pre \<Longrightarrow> quoted (pre @ json_string s @ rest) = s # quoted rest"
  using quoted_word [of pre s rest] by (simp add: literal_json) (simp add: literal_def)

lemma literal_names:
  "literal (step_name_value s)" "literal (step_status_value st)" "literal (document_status_value ds)"
  "literal KEY_STEP" "literal KEY_STATUS" "literal KEY_DOC_STATUS" "literal KEY_DOCUMENT_ID"
  by (cases s; simp add: literal_def enum_simps json_escape_def; fail)
    (cases st; simp add: literal_def enum_simps json_escape_def; fail |
     cases ds; simp add: literal_def enum_simps json_escape_def; fail |
     simp add: literal_def key_defs json_escape_def)+

lemma literal_uuid: "literal (uuid_str u)"
proof -
  have "json_escape c = [c] \<and> c \<noteq> CHR 0x22" if "(of_char c :: nat) \<in> {45} \<union> {48..57} \<union> {97..102}" for c
    using that by (auto simp: json_escape_def Let_def)
  moreover have "(of_char c :: nat) \<in> {45} \<union> {48..57} \<union> {97..102}" if "c \<in> set (uuid_str u)" for c
    using that set_codes_uuid_str [of u] by auto
  ultimately show ?thesis unfolding literal_def by blast
qed

lemma notify_text_eq:
  "notify_text d (step_event s st) = ''{'' @ json_string KEY_DOCUMENT_ID @ '': '' @ json_string (uuid_str d) @ '', '' @
    json_string KEY_STEP @ '': '' @ json_string (step_name_value s) @ '', '' @ json_string KEY_STATUS @ '': '' @
    json_string (step_status_value st) @ ''}''"
  "notify_text d (doc_status_event ds) = ''{'' @ json_string KEY_DOCUMENT_ID @ '': '' @ json_string (uuid_str d) @ '', '' @
    json_string KEY_DOC_STATUS @ '': '' @ json_string (document_status_value ds) @ ''}''"
  by (simp_all add: notify_text_def notify_payload_step notify_payload_doc)

lemma quoted_text:
  "quoted (notify_text d (step_event s st)) =
    [KEY_DOCUMENT_ID, uuid_str d, KEY_STEP, step_name_value s, KEY_STATUS, step_status_value st]"
  "quoted (notify_text d (doc_status_event ds)) = [KEY_DOCUMENT_ID, uuid_str d, KEY_DOC_STATUS, document_status_value ds]"
proof -
  have pre: "CHR 0x22 \<notin> set ''{''" "CHR 0x22 \<notin> set '': ''" "CHR 0x22 \<notin> set '', ''" and close: "quoted ''}'' = []"
    by (simp_all add: quoted_end)
  note words = quoted_json [OF literal_names(1)] quoted_json [OF literal_names(2)] quoted_json [OF literal_names(3)]
    quoted_json [OF literal_names(4)] quoted_json [OF literal_names(5)] quoted_json [OF literal_names(6)]
    quoted_json [OF literal_names(7)] quoted_json [OF literal_uuid]
  show "quoted (notify_text d (step_event s st)) =
      [KEY_DOCUMENT_ID, uuid_str d, KEY_STEP, step_name_value s, KEY_STATUS, step_status_value st]"
    "quoted (notify_text d (doc_status_event ds)) = [KEY_DOCUMENT_ID, uuid_str d, KEY_DOC_STATUS, document_status_value ds]"
    unfolding notify_text_eq by (simp_all only: words [OF pre(1)] words [OF pre(2)] words [OF pre(3)] close)
qed

lemma demo_reads_back: "reads_back demo_read"
proof -
  have "demo_read (notify_text d (step_event s st)) = Some (notify_payload d (step_event s st))" for d s st
    unfolding demo_read_def quoted_text notify_payload_step by (simp add: notify_text_eq)
  moreover have "demo_read (notify_text d (doc_status_event ds)) = Some (notify_payload d (doc_status_event ds))" for d ds
    unfolding demo_read_def quoted_text notify_payload_doc by (simp add: notify_text_eq)
  ultimately show ?thesis unfolding reads_back_def ordinary_def by auto
qed

end
