(* ===== verification/Application.thy ===== *)
theory Application
  imports Auth EventStreams Uploads
begin

section \<open>The web application (\<open>app/main.py\<close>)\<close>

text \<open>
  \<open>serve\<close> is the application as a client sees it: the routers that \<open>app/main.py\<close> mounts, with
  the dependencies of each route resolved first, so that a bad token is answered before any
  other check. A request carries what the framework parsed from the path, the query, the headers
  and the body; the bearer token is what \<open>HTTPBearer\<close> extracted. The state is the database world
  and the event broker of the process.
\<close>

record api = deployment +
  api_encode :: jwt_encode
  api_decode :: jwt_decode
  api_decimal :: "nat \<Rightarrow> nat option"
  api_isoformat :: "timestamp \<Rightarrow> string"
  api_fromisoformat :: "nat list \<Rightarrow> datetime option"
  api_binds :: "datetime \<Rightarrow> bool"

text \<open>The identifiers that a request draws.\<close>

record request_draws =
  draw_document :: uuid
  draw_steps :: "step_name \<Rightarrow> uuid"
  draw_event :: uuid

datatype request =
    Login string
  | UploadFile string "string option" string
  | ListDocuments string int "string option"
  | GetDocument string uuid
  | OpenEvents string uuid
  | PartnerWebhook string "string option"
  | SignWebhook string
  | Healthz

datatype answer =
    Token token_response
  | Created document_created
  | Page paginated_documents
  | Detail document_detail
  | EventFrame string
  | WebhookAnswer webhook_response
  | Signature sign_webhook_response
  | Health "(string \<times> string) list"

type_synonym app = "world \<times> event_broker"

text \<open>\<open>lifespan\<close>: the broker of the process listens while the application runs.\<close>

definition startup :: "world \<Rightarrow> app" where
  "startup w = (w, broker_start new_broker)"

definition shutdown :: "app \<Rightarrow> app" where
  "shutdown s = (fst s, broker_stop (snd s))"

text \<open>\<open>Depends(get_current_user)\<close>.\<close>

definition authenticate :: "api \<Rightarrow> string \<Rightarrow> world \<Rightarrow> app_user response" where
  "authenticate api token w =
     get_current_user (env_settings api) (api_decode api) (api_decimal api) token (open_session w)"

definition with_user :: "api \<Rightarrow> string \<Rightarrow> (app_user \<Rightarrow> answer response \<times> app) \<Rightarrow> app \<Rightarrow> answer response \<times> app" where
  "with_user api token route s = (case authenticate api token (fst s) of
     Answer user \<Rightarrow> route user
   | HTTPException code detail \<Rightarrow> (HTTPException code detail, s)
   | Escaped e \<Rightarrow> (Escaped e, s))"

definition healthz :: "(string \<times> string) list" where
  "healthz = [(''status'', ''ok'')]"

fun serve :: "api \<Rightarrow> request_draws \<Rightarrow> request \<Rightarrow> app \<Rightarrow> answer response \<times> app" where
  "serve api draws (Login email) (w, b) = (map_response Token (login_route (env_settings api) (api_encode api) email w), (w, b))"
| "serve api draws (UploadFile token filename data) (w, b) = with_user api token (\<lambda>user.
     (case upload_document (env_settings api) (env_abspath api) (draw_document draws) (draw_steps draws) user filename data w of
        (r, w1) \<Rightarrow> (map_response Created r, (w1, b)))) (w, b)"
| "serve api draws (ListDocuments token limit cursor) (w, b) = with_user api token (\<lambda>user.
     (map_response Page (list_documents_route (api_binds api) (api_decimal api) (api_isoformat api) (api_fromisoformat api) user limit cursor w), (w, b))) (w, b)"
| "serve api draws (GetDocument token d) (w, b) = with_user api token (\<lambda>user.
     (map_response Detail (get_document_route (user_org_id user) d w), (w, b))) (w, b)"
| "serve api draws (OpenEvents token d) (w, b) = with_user api token (\<lambda>user.
     (case stream_subscribe d b of (q, b1) \<Rightarrow>
      (case stream_open d (user_org_id user) q w b1 of (r, b2) \<Rightarrow> (map_response EventFrame r, (w, b2))))) (w, b)"
| "serve api draws (PartnerWebhook raw signature) (w, b) =
     (case partner_webhook (env_settings api) (env_hmac api) (env_parse_json api) (env_parse_datetime api) (draw_event draws) raw signature w of
        (r, w1) \<Rightarrow> (map_response WebhookAnswer r, (w1, b)))"
| "serve api draws (SignWebhook raw) (w, b) =
     (if is_local (env_settings api) then Answer (Signature (sign_webhook (env_settings api) (env_hmac api) raw))
      else HTTPException 404 ''Not Found'', (w, b))"
| "serve api draws Healthz (w, b) = (Answer (Health healthz), (w, b))"

subsection \<open>What an organization can see\<close>

definition own_documents :: "uuid \<Rightarrow> database \<Rightarrow> document list" where
  "own_documents org db = filter (\<lambda>q. doc_org_id q = org) (documents db)"

definition own_steps :: "uuid \<Rightarrow> database \<Rightarrow> pipeline_step list" where
  "own_steps org db = filter (\<lambda>r. st_document_id r \<in> doc_id ` set (own_documents org db)) (pipeline_steps db)"

definition own_users :: "uuid \<Rightarrow> database \<Rightarrow> app_user list" where
  "own_users org db = filter (\<lambda>u. user_org_id u = org \<or> user_id u \<in> doc_uploaded_by ` set (own_documents org db)) (app_users db)"

text \<open>Two databases that differ only in the rows of other organizations: their users (who uploaded
  no document here), documents and steps, and the organizations themselves.\<close>

definition same_view :: "uuid \<Rightarrow> database \<Rightarrow> database \<Rightarrow> bool" where
  "same_view org db db' \<longleftrightarrow> own_users org db = own_users org db' \<and> own_documents org db = own_documents org db' \<and>
     own_steps org db = own_steps org db'"

lemma find_filter_key:
  assumes "distinct (map key xs)"
  shows "find (\<lambda>x. key x = k) (filter P xs) = (case find (\<lambda>x. key x = k) xs of Some x \<Rightarrow> if P x then Some x else None | None \<Rightarrow> None)"
  using assms
proof (induction xs)
  case (Cons x xs)
  have "find (\<lambda>y. key y = k) (filter P xs) = None" if "key x = k"
    using Cons.prems that by (auto simp: find_None_iff) (metis image_eqI)
  with Cons show ?case by auto
qed simp

lemma find_filtered: "(\<And>x. P x \<Longrightarrow> Q x) \<Longrightarrow> find P (filter Q xs) = find P xs"
  by (induction xs) auto

lemma own_users_uploader:
  assumes "r \<in> set (own_documents org db)"
  shows "filter (\<lambda>u. user_id u = doc_uploaded_by r) (own_users org db) = filter (\<lambda>u. user_id u = doc_uploaded_by r) (app_users db)"
    and "find (\<lambda>u. user_id u = doc_uploaded_by r) (own_users org db) = find (\<lambda>u. user_id u = doc_uploaded_by r) (app_users db)"
  using assms by (auto simp: own_users_def intro!: filter_cong find_filtered)

lemma own_document_find:
  assumes "schema_ok db"
  shows "find (\<lambda>q. doc_id q = d) (own_documents org db) =
    (case find_document d db of Some q \<Rightarrow> if doc_org_id q = org then Some q else None | None \<Rightarrow> None)"
  unfolding own_documents_def find_document_def by (rule find_filter_key [OF schema_okD(1) [OF assms]])

lemma own_steps_of:
  assumes "find (\<lambda>q. doc_id q = d) (own_documents org db) = Some q"
  shows "steps_of d db = filter (\<lambda>r. st_document_id r = d) (own_steps org db)"
proof -
  have "d \<in> doc_id ` set (own_documents org db)" using find_in_set [OF assms] by auto
  then show ?thesis unfolding steps_of_def own_steps_def by (auto intro!: filter_cong)
qed

text \<open>The answer depends only on the own view.\<close>

lemma get_document_detail_own:
  assumes "schema_ok (working w)"
  shows "get_document_detail org d w = (case find (\<lambda>q. doc_id q = d) (own_documents org (working w)) of
     None \<Rightarrow> Inr None
   | Some document \<Rightarrow>
       let rows = sort_key st_name (filter (\<lambda>r. st_document_id r = d) (own_steps org (working w)));
           steps = dict_of (map (\<lambda>r. (st_name r, r)) rows) in
       bind_result (if doc_status document = READY then bind_result (extract_data steps) (\<lambda>e. Inr (Some e)) else Inr None) (\<lambda>data.
       case find (\<lambda>u. user_id u = doc_uploaded_by document) (own_users org (working w)) of
         None \<Rightarrow> Inl (Exn ''AttributeError'' ''NoneType object has no attribute email'')
       | Some u \<Rightarrow> Inr (Some \<lparr>dd_id = doc_id document, dd_filename = doc_filename document,
           dd_uploaded_by = user_email u, dd_status = doc_status document, dd_steps = map step_out_of rows, dd_data = data\<rparr>)))"
proof (cases "find (\<lambda>q. doc_id q = d) (own_documents org (working w))")
  case None
  with own_document_find [OF assms, of d org] show ?thesis
    by (auto simp: get_document_detail_def get_document_def split: option.splits if_splits)
next
  case (Some q)
  have "find_document d (working w) = Some q" "doc_org_id q = org"
    using own_document_find [OF assms, of d org] Some by (auto split: option.splits if_splits)
  moreover note own_users_uploader(2) [of q org "working w"] own_steps_of [OF Some]
  moreover have "q \<in> set (own_documents org (working w))" using find_in_set [OF Some] by simp
  ultimately show ?thesis using Some
    by (auto simp: get_document_detail_def get_document_def document_steps_def find_user_def Let_def split: option.split)
qed

lemma load_snapshot_own:
  assumes "schema_ok (committed w)"
  shows "fst (load_snapshot d org w) = map_option (\<lambda>document. snapshot_event (uuid_str (doc_id document)) (doc_status document)
      (dict_of (map (\<lambda>r. (step_name_value (st_name r), JString (step_status_value (st_status r))))
        (sort_key st_name (filter (\<lambda>r. st_document_id r = d) (own_steps org (committed w)))))))
    (find (\<lambda>q. doc_id q = d) (own_documents org (committed w)))"
  using own_document_find [OF assms, of d org] own_steps_of [of d org "committed w"]
  by (auto simp: load_snapshot_def session_scope_def get_document_def snapshot_steps_def document_steps_def open_session_def
      split: option.split)

lemma page_candidates_own:
  "page_candidates org k db = concat (map (\<lambda>r. map (\<lambda>u. (r, user_email u)) (filter (\<lambda>u. user_id u = doc_uploaded_by r) (own_users org db)))
     (filter (\<lambda>r. case k of None \<Rightarrow> True | Some k \<Rightarrow> document_key r < k) (own_documents org db)))"
proof -
  let ?own = "filter (\<lambda>r. case k of None \<Rightarrow> True | Some k \<Rightarrow> document_key r < k) (own_documents org db)"
  have "page_candidates org k db = concat (map (\<lambda>r. map (\<lambda>u. (r, user_email u)) (filter (\<lambda>u. user_id u = doc_uploaded_by r) (app_users db))) ?own)"
    by (simp add: page_candidates_def own_documents_def conj_commute)
  also have "\<dots> = concat (map (\<lambda>r. map (\<lambda>u. (r, user_email u)) (filter (\<lambda>u. user_id u = doc_uploaded_by r) (own_users org db))) ?own)"
    by (intro arg_cong [where f = concat] map_cong refl) (simp add: own_users_uploader(1))
  finally show ?thesis .
qed

lemma same_viewD:
  assumes "same_view org db db'"
  shows "own_users org db = own_users org db'" "own_documents org db = own_documents org db'" "own_steps org db = own_steps org db'"
  using assms by (simp_all add: same_view_def)

lemma same_view_answers:
  assumes "same_view org (committed w) (committed w')" "schema_ok (committed w)" "schema_ok (committed w')"
  shows "get_document_route org d w = get_document_route org d w'"
    and "fst (load_snapshot d org w) = fst (load_snapshot d org w')"
    and "user_org_id user = org \<Longrightarrow> list_documents_route binds decimal isoformat fromisoformat user limit cursor w =
      list_documents_route binds decimal isoformat fromisoformat user limit cursor w'"
proof -
  note view = same_viewD [OF assms(1)]
  show "get_document_route org d w = get_document_route org d w'"
    using assms(2,3) unfolding get_document_route_def
    by (simp add: get_document_detail_own open_session_def view cong: option.case_cong)
  show "fst (load_snapshot d org w) = fst (load_snapshot d org w')"
    using view assms(2,3) by (simp add: load_snapshot_own)
  have "list_org_documents org n k (open_session w) = list_org_documents org n k (open_session w')" for n k
    using view by (simp add: list_org_documents_def page_candidates_own open_session_def)
  then show "user_org_id user = org \<Longrightarrow> list_documents_route binds decimal isoformat fromisoformat user limit cursor w =
      list_documents_route binds decimal isoformat fromisoformat user limit cursor w'"
    by (simp add: list_documents_route_def list_documents_def)
qed

lemma same_view_user:
  assumes "same_view (user_org_id user) (committed w) (committed w')" "schema_ok (committed w')" "clock w = clock w'"
    and "authenticate api token w = Answer user"
  shows "authenticate api token w' = Answer user"
proof -
  from assms(4) obtain claims u where login:
    "api_decode api token (jwt_secret (env_settings api)) [jwt_algorithm (env_settings api)] (jwt_leeway_seconds (env_settings api)) (clock w) = Some claims"
    "subject_id (api_decimal api) claims = Inr u" "find_user u (committed w) = Some user"
    by (auto simp: authenticate_def get_current_user_def open_session_def split: option.splits sum.splits if_splits)
  from login(3) have user: "user \<in> set (app_users (committed w))" "user_id user = u"
    by (auto simp: find_user_def dest: find_in_set)
  then have "user \<in> set (own_users (user_org_id user) (committed w'))"
    unfolding same_viewD(1) [OF assms(1), symmetric] by (simp add: own_users_def)
  then have "find_user u (committed w') = Some user"
    using find_user_row [OF assms(2), of user] user(2) by (simp add: own_users_def)
  with login(1,2) assms(3) show ?thesis
    by (simp add: authenticate_def get_current_user_def open_session_def)
qed

lemma serve_own_view:
  assumes "same_view (user_org_id user) (committed w) (committed w')" "schema_ok (committed w)" "schema_ok (committed w')"
    and "clock w = clock w'" "authenticate api token w = Answer user"
    and "rq \<in> {ListDocuments token limit cursor, GetDocument token d, OpenEvents token d}"
  shows "fst (serve api draws rq (w, b)) = fst (serve api draws rq (w', b'))"
proof -
  have "authenticate api token w' = Answer user" by (rule same_view_user [OF assms(1,3-5)])
  with assms(5,6) same_view_answers [OF assms(1-3)] show ?thesis
    by (auto simp: with_user_def stream_open_def split: prod.split option.split)
qed

end
