(* ===== verification/WebGuarantees.thy ===== *)
theory WebGuarantees
  imports DemoLibraries Application Acknowledgements Scans
begin

section \<open>What clients, partners and the message broker rely on\<close>

text \<open>
  The properties of the interfaces: the progress stream, the partner's callback, the requests of
  authenticated users, uploads, and the acknowledgement of messages. Each has a closed instance.
\<close>

subsection \<open>Progress\<close>



definition demo_events :: "broker_op list" where
  "demo_events = [Notified (notify_text 7 (step_event OCR RUNNING)), RunCallback, Take 0]"


text \<open>
  C28: A slow client costs bounded memory and loses only what is counted: in every history of the
  process no queue ever holds more than 100 events; what a subscriber has taken and what is still
  under way to it is, in order, a part of what was dispatched to its document, and no more events
  are missing than \<open>dropped_events\<close> counts.
\<close>

theorem slow_clients_lose_only_counted_events:
  assumes "broker_ok b" "q \<in> set (queues_of d b)" "loop_set b" "\<forall>op \<in> set ops. op \<noteq> Unsubscribe d q"
    and "b' = broker_run parse_json ops b" "got = taken parse_json q ops b @ under_way q b'"
    and "sent = under_way q b @ dispatched parse_json d ops"
  shows "length (buffers b' p) \<le> 100 \<and> subseq got sent \<and> length sent + dropped_events b \<le> length got + dropped_events b'"
  using broker_run_history [OF assms(1-4), of parse_json] broker_okD(7) [OF broker_run_ok [OF assms(1), of parse_json ops], of p] assms(5-7)
  by (simp add: SUBSCRIBER_QUEUE_MAXSIZE_def)

theorem slow_clients_lose_only_counted_events_witness:
  "length (buffers (broker_run demo_read demo_events (snd (subscribe (uuid_str 7) (broker_start new_broker)))) 0) \<le> 100"
proof -
  let ?b = "snd (subscribe (uuid_str 7) (broker_start new_broker))"
  have "broker_ok (broker_start new_broker)" using new_broker_ok by (simp add: broker_start_def broker_ok_def)
  then have b: "broker_ok ?b" "0 \<in> set (queues_of (uuid_str 7) ?b)" "loop_set ?b"
    by (rule subscribe_ok) (simp_all add: subscribe_def queues_of_def Let_def broker_start_def new_broker_def)
  have "\<forall>op \<in> set demo_events. op \<noteq> Unsubscribe (uuid_str 7) 0" by (simp add: demo_events_def)
  from slow_clients_lose_only_counted_events [OF b this refl refl refl, of demo_read 0] show ?thesis by simp
qed

subsection \<open>The partner\<close>

text \<open>
  C29: Only signed results are applied: a callback whose header is not exactly the HMAC of the raw
  body under the shared secret changes nothing at all; it is answered 401, or fails on a header
  that is not ASCII.
\<close>

theorem only_signed_results_are_applied:
  assumes "signature \<noteq> Some (compute_signature cfg hmac raw)"
  shows "snd (partner_webhook cfg hmac parse_json parse_datetime new_id raw signature w) = w \<and>
    fst (partner_webhook cfg hmac parse_json parse_datetime new_id raw signature w) =
      (if \<exists>p. signature = Some p \<and> \<not> is_ascii p
       then Escaped (Exn ''TypeError'' ''comparing strings with non-ASCII characters is not supported'')
       else HTTPException 401 ''bad signature'')"
  using verify_signature_cases [of cfg hmac raw signature] assms
  by (cases signature) (auto simp: partner_webhook_def)

theorem only_signed_results_are_applied_witness:
  "partner_webhook default_settings demo_hmac demo_parse_json (\<lambda>_. None) 99 ''done'' None waiting_world =
    (HTTPException 401 ''bad signature'', waiting_world)"
  using only_signed_results_are_applied [where signature = None and raw = "''done''" and cfg = default_settings and hmac = demo_hmac
      and parse_json = demo_parse_json and parse_datetime = "\<lambda>_. None" and new_id = 99 and w = waiting_world]
  by (metis option.distinct(1) prod.collapse)

text \<open>
  C37: A signed callback for a step that is finished, or for a job that no step has, leaves only its
  audit row: it is answered DUPLICATE_IGNORED or ACCEPTED, and no step, no document and no
  message changes.
\<close>

theorem ignored_callbacks_leave_only_an_audit_row:
  fixes new_id :: uuid
  assumes "clean w" "pipeline_ok cfg (committed w)" "1 \<le> step_max_attempts cfg"
    and "verify_signature cfg hmac raw signature = Inr True" "model_validate_json parse_json parse_datetime raw = Some p"
    and "\<forall>r \<in> set (pipeline_steps (committed w)). st_external_job_id r = Some (wp_job_id p) \<longrightarrow> st_status r \<in> {DONE, ERROR}"
    and "out = partner_webhook cfg hmac parse_json parse_datetime new_id raw signature w"
  shows "fst out = Answer \<lparr>wr_status = (if job_unused (wp_job_id p) (committed w) then ACCEPTED else DUPLICATE_IGNORED), wr_document_status = None\<rparr> \<and>
    pipeline_steps (committed (snd out)) = pipeline_steps (committed w) \<and> documents (committed (snd out)) = documents (committed w) \<and>
    length (webhook_events (committed (snd out))) = length (webhook_events (committed w)) + 1 \<and>
    sent_of (trace (snd out)) = sent_of (trace w)"
proof -
  have "job_unused (wp_job_id p) (committed w) \<or>
      (\<exists>r \<in> set (pipeline_steps (committed w)). st_external_job_id r = Some (wp_job_id p) \<and> st_status r \<in> {DONE, ERROR})"
    using assms(6) by (auto simp: job_unused_def)
  from webhook_ignored [where new_id = new_id, OF assms(1-5) this] assms(7) show ?thesis by simp
qed

theorem ignored_callbacks_leave_only_an_audit_row_witness:
  "fst (partner_webhook default_settings demo_hmac demo_parse_json (\<lambda>_. None) 100 ''done'' (demo_signature ''done'') uploaded_world) =
    Answer \<lparr>wr_status = ACCEPTED, wr_document_status = None\<rparr>"
proof -
  have w: "clean uploaded_world" "pipeline_ok default_settings (committed uploaded_world)"
    using uploaded_on_track by (simp_all add: on_track_def)
  have "job_unused (wp_job_id demo_payload) (committed uploaded_world)" by (rule no_jobs)
  with ignored_callbacks_leave_only_an_audit_row [where parse_json = demo_parse_json and parse_datetime = "\<lambda>_. None" and new_id = 100,
      OF w demo_att demo_signature_ok demo_webhook_payload _ refl]
  show ?thesis by (simp add: job_unused_def)
qed

subsection \<open>Authenticated requests\<close>

definition demo_api :: api where
  "demo_api = \<lparr>env_settings = default_settings, env_abspath = (\<lambda>p. p), env_hmac = demo_hmac, env_parse_json = demo_parse_json,
     env_parse_datetime = (\<lambda>_. None), env_parse_body = demo_parse_body, api_encode = demo_encode, api_decode = demo_decode,
     api_decimal = (\<lambda>_. None), api_isoformat = demo_isoformat, api_fromisoformat = demo_fromisoformat, api_binds = demo_binds\<rparr>"

definition demo_token :: string where
  "demo_token = create_access_token default_settings demo_encode demo_user 0"

lemma default_jwt_settings: "jwt_expire_minutes default_settings = 720" "jwt_leeway_seconds default_settings = 30"
  by (simp_all add: default_settings_def settings_init_def secret_get_int_def secret_get_def)

lemma default_signing:
  "jwt_algorithm default_settings \<in> set hmac_algorithms" "hmac_secret (jwt_secret default_settings)"
proof -
  have jwt: "jwt_algorithm default_settings = ''HS256''" "jwt_secret default_settings = ''dev-jwt-secret-change-me''"
    by (simp_all add: default_settings_def settings_init_def secret_get_int_def secret_get_def get_text_def)
  show "jwt_algorithm default_settings \<in> set hmac_algorithms" by (simp add: jwt hmac_algorithms_def)
  show "hmac_secret (jwt_secret default_settings)" unfolding jwt by code_simp
qed

lemma demo_authenticated:
  assumes "schema_ok (committed w)" "demo_user \<in> set (app_users (committed w))" "clock w = 0"
  shows "authenticate demo_api demo_token w = Answer demo_user"
  using token_identifies_user [OF demo_jwt_library default_signing, of 0 "open_session w" demo_user "\<lambda>_. None"] assms
  by (simp add: authenticate_def demo_api_def demo_token_def open_session_def default_jwt_settings accepted_def minutes_def datable_def)

text \<open>
  C31: Tenants do not interfere: when two databases differ only in the rows of other organizations
  (their users, documents, steps and names, whatever these are), every read of an authenticated user, a page, a detail or the snapshot of a progress stream, is
  answered the same. Nothing that other organizations store, and not even whether they store
  something, can be learned.
\<close>

theorem tenants_do_not_interfere:
  assumes "same_view (user_org_id user) (committed w) (committed w')" "schema_ok (committed w)" "schema_ok (committed w')"
    and "clock w = clock w'" "authenticate api token w = Answer user"
    and "rq \<in> {ListDocuments token limit cursor, GetDocument token d, OpenEvents token d}"
  shows "fst (serve api draws rq (w, b)) = fst (serve api draws rq (w', b'))"
  by (rule serve_own_view [OF assms])

definition foreign_user :: app_user where
  "foreign_user = \<lparr>user_id = 4, user_org_id = 3, user_email = ''bob@globex.test''\<rparr>"

definition foreign_db :: database where
  "foreign_db = demo_db\<lparr>organizations := organizations demo_db @ [\<lparr>organization_id = 3, organization_name = ''globex''\<rparr>],
     app_users := app_users demo_db @ [foreign_user], documents := [new_document foreign_user ''secret.pdf'' 8 0]\<rparr>"

definition demo_request_draws :: request_draws where
  "demo_request_draws = \<lparr>draw_document = 9, draw_steps = demo_ids, draw_event = 10\<rparr>"

theorem tenants_do_not_interfere_witness:
  "fst (serve demo_api demo_request_draws (GetDocument demo_token 8) (demo_world\<lparr>committed := foreign_db, working := foreign_db\<rparr>, new_broker)) =
    fst (serve demo_api demo_request_draws (GetDocument demo_token 8) (demo_world, new_broker))"
proof (rule tenants_do_not_interfere [where user = demo_user and api = demo_api and token = demo_token and d = 8])
  have foreign: "schema_ok foreign_db" "demo_user \<in> set (app_users foreign_db)"
    by (simp_all add: schema_ok_def foreign_db_def foreign_user_def demo_db_def demo_user_def new_document_def)
  then show "authenticate demo_api demo_token (demo_world\<lparr>committed := foreign_db, working := foreign_db\<rparr>) = Answer demo_user"
    by (intro demo_authenticated) simp_all
  show "same_view (user_org_id demo_user) (committed (demo_world\<lparr>committed := foreign_db, working := foreign_db\<rparr>)) (committed demo_world)"
    by (simp add: same_view_def own_documents_def own_steps_def own_users_def foreign_db_def demo_db_def demo_user_def new_document_def foreign_user_def)
qed (simp_all add: demo_schema schema_ok_def foreign_db_def foreign_user_def demo_db_def demo_user_def new_document_def)

text \<open>
  C32: A login token stands for the user with that email, and only while it is valid: when tokens are
  signed with an HMAC algorithm and a secret that is no key file, any later request that carries the
  token is made by exactly this user from the moment of the login until the configured number of
  minutes later (in whole seconds and with the leeway), and answered 401 outside.
\<close>

theorem tokens_identify_their_user:
  assumes "jwt_library (api_encode api) (api_decode api)"
    and "jwt_algorithm (env_settings api) \<in> set hmac_algorithms" "hmac_secret (jwt_secret (env_settings api))"
    and "datable (clock w)" "datable (clock w + minutes (jwt_expire_minutes (env_settings api)))"
    and "schema_ok (committed w)" "schema_ok (committed w')"
    and "set (app_users (committed w)) \<subseteq> set (app_users (committed w'))"
    and "login_route (env_settings api) (api_encode api) email w = Answer t"
  shows "\<exists>u \<in> set (app_users (committed w)). user_email u = email \<and> authenticate api (tr_access_token t) w' =
    (if accepted (clock w) (clock w + minutes (jwt_expire_minutes (env_settings api))) (jwt_leeway_seconds (env_settings api)) (clock w')
     then Answer u else HTTPException 401 ''invalid token'')"
proof -
  from assms(9) obtain u where u: "find (\<lambda>u. user_email u = email) (app_users (committed w)) = Some u"
    "tr_access_token t = create_access_token (env_settings api) (api_encode api) u (clock w)"
    unfolding login_route_cases [OF assms(6)] by (auto split: option.splits)
  from find_in_set [OF u(1)] have user: "u \<in> set (app_users (committed w))" "user_email u = email" by simp_all
  have "schema_ok (working (open_session w'))" "u \<in> set (app_users (working (open_session w')))"
    using assms(7,8) user(1) by (auto simp: open_session_def)
  from token_identifies_user [OF assms(1-5) this] user u(2) show ?thesis
    by (auto simp: authenticate_def open_session_def)
qed

theorem tokens_identify_their_user_witness:
  "\<exists>u \<in> set (app_users demo_db). user_email u = ''alice@acme.test'' \<and>
    authenticate demo_api (create_access_token default_settings demo_encode demo_user 0) (demo_world\<lparr>clock := 720 * 60 * 10 ^ 6\<rparr>) = Answer u"
proof -
  have "login_route (env_settings demo_api) (api_encode demo_api) ''alice@acme.test'' demo_world =
      Answer \<lparr>tr_access_token = create_access_token default_settings demo_encode demo_user 0, tr_token_type = ''bearer''\<rparr>"
    by (simp add: login_route_cases demo_schema) (simp add: demo_db_def demo_user_def demo_api_def)
  from tokens_identify_their_user [OF _ _ _ _ _ _ _ _ this, of "demo_world\<lparr>clock := 720 * 60 * 10 ^ 6\<rparr>"] demo_schema demo_jwt_library
  show ?thesis by (simp add: demo_api_def default_jwt_settings default_signing accepted_def minutes_def datable_def)
qed

subsection \<open>Uploads\<close>

text \<open>
  C33: An upload survives a broker outage: when the first message cannot be sent the request fails,
  but the document is stored as PROCESSING with its first step QUEUED, and a scan of the reaper
  after the step timeout, with the broker up again, sends the message.
\<close>

theorem uploads_survive_a_broker_outage:
  fixes abspath :: "string \<Rightarrow> string" and filename :: "string option" and data :: string
  assumes "clean w" "pipeline_ok cfg (committed w)" "upload_guard cfg d ids user w" "faults w = [True]"
    and "out = upload_document cfg abspath d ids user filename data w"
    and "clock w + microseconds (step_timeout_seconds cfg) < later"
  shows "fst out = Escaped (Exn ''AMQPConnectionError'' []) \<and>
    map_option doc_status (find_document d (committed (snd out))) = Some PROCESSING \<and>
    status_of d OCR (committed (snd out)) = Some QUEUED \<and>
    \<lparr>payload_document_id = d, payload_step = OCR\<rparr> \<in> set (sent_of (trace (iteration cfg ((snd out)\<lparr>clock := later\<rparr>))))"
proof -
  have out: "out = (Escaped (Exn ''AMQPConnectionError'' []), after_upload cfg abspath d ids user (upload_name filename) data [] w)"
    using upload_document_down [OF assms(1,4)] assms(5) by simp
  have track: "on_track cfg d start_statuses (snd out)"
    unfolding out snd_conv by (rule after_upload_on_track [OF assms(1-3)]) (simp add: assms(4))
  from assms(3) have fresh: "fresh_ids d ids (committed w)" and att: "1 \<le> step_max_attempts cfg" by (simp_all add: upload_guard_def)
  have db: "committed (snd out) = uploaded cfg abspath d ids user (upload_name filename) (clock w) (committed w)"
    by (simp add: out after_upload_def Let_def)
  have row: "find_step d OCR (committed (snd out)) = Some (new_step (ids OCR) d OCR QUEUED (clock w))"
    unfolding db uploaded_def find_step_add_document [OF pipeline_okD(1) [OF assms(2)] fresh] by simp
  let ?v = "(snd out)\<lparr>clock := later\<rparr>"
  have v: "clean ?v" "pipeline_ok cfg (committed ?v)" "faults ?v = []" using track by (simp_all add: on_track_def clean_def)
  have "new_step (ids OCR) d OCR QUEUED (clock w) \<in> set (stale_queued cfg ?v)"
    using find_stepD [OF row] assms(6) by (simp add: stale_queued_def) (simp add: new_step_def)
  then have "\<lparr>payload_document_id = d, payload_step = OCR\<rparr> \<in> set (sent_of (trace (iteration cfg ?v)))"
    unfolding scan_exact(2) [OF v(1,2) att v(3)] by (force simp: new_step_def)
  moreover have "map_option doc_status (find_document d (committed (snd out))) = Some PROCESSING"
    unfolding db find_document_uploaded [OF fresh] by (simp add: new_document_def)
  ultimately show ?thesis using out row by (simp add: status_of_def new_step_def)
qed

theorem uploads_survive_a_broker_outage_witness:
  "status_of 7 OCR (committed (snd (upload_document default_settings (\<lambda>p. p) 7 demo_ids demo_user None ''x'' (demo_world\<lparr>faults := [True]\<rparr>)))) = Some QUEUED"
proof -
  have "clean (demo_world\<lparr>faults := [True]\<rparr>)" "upload_guard default_settings 7 demo_ids demo_user (demo_world\<lparr>faults := [True]\<rparr>)"
    using demo_guard by (simp_all add: clean_def upload_guard_def demo_world_def)
  with uploads_survive_a_broker_outage [where w = "demo_world\<lparr>faults := [True]\<rparr>" and later = "10 ^ 12" and data = "''x''" and abspath = "\<lambda>p. p"
      and filename = None and cfg = default_settings and d = 7 and ids = demo_ids and user = demo_user, OF _ _ _ _ refl] demo_ok
  show ?thesis by (simp add: microseconds_def)
qed

lemma uuid_str_last: "uuid_str u \<noteq> []" "last (uuid_str u) \<noteq> CHR ''/''"
proof -
  show nonempty: "uuid_str u \<noteq> []" by (metis length_uuid_str list.size(3) zero_neq_numeral)
  then have "(of_char (last (uuid_str u)) :: nat) \<in> {45} \<union> {48..57} \<union> {97..102}"
    by (intro subsetD [OF set_codes_uuid_str [of u]]) simp
  then show "last (uuid_str u) \<noteq> CHR ''/''" by auto
qed

lemma storage_path_inject: "storage_path dir org d = storage_path dir org' d' \<longleftrightarrow> org = org' \<and> d = d'"
proof
  define folder where "folder org = path_join dir (uuid_str org)" for org
  have folder: "folder org = folder org' \<longleftrightarrow> org = org'" "folder org \<noteq> []" "last (folder org) \<noteq> CHR ''/''" for org org'
    using uuid_str_last [of org] uuid_str_inject [of org org'] by (auto simp: folder_def path_join_def)
  assume "storage_path dir org d = storage_path dir org' d'"
  moreover have "storage_path dir org d = folder org @ ''/'' @ uuid_str d" for org d
    using folder(2,3) [of org] unfolding storage_path_def folder_def [symmetric] by (simp add: path_join_def)
  ultimately have "folder org @ ''/'' @ uuid_str d = folder org' @ ''/'' @ uuid_str d'" by simp
  then have "folder org = folder org' \<and> uuid_str d = uuid_str d'" by (simp add: append_eq_append_conv)
  then show "org = org' \<and> d = d'" using folder(1) uuid_str_inject by blast
qed simp

text \<open>
  Files are kept apart: an upload stores exactly the bytes it received under a path that no
  other organization or document has, and leaves every other file as it was, whether or not the
  broker is up.
\<close>

theorem uploaded_files_are_kept_apart:
  fixes abspath :: "string \<Rightarrow> string" and filename :: "string option" and data :: string
  assumes "clean w" and "w' = snd (upload_document cfg abspath d ids user filename data w)"
    and "path = storage_path (storage_dir cfg) (user_org_id user) d"
  shows "map_of (disk w') path = Some data \<and> (\<forall>p. p \<noteq> path \<longrightarrow> map_of (disk w') p = map_of (disk w) p) \<and>
    (\<forall>org e. storage_path (storage_dir cfg) org e = path \<longleftrightarrow> org = user_org_id user \<and> e = d)"
proof -
  have "disk w' = AList.update path data (disk w)"
  proof (cases "faults w = [] \<or> \<not> hd (faults w)")
    case True
    from upload_document_up [OF assms(1) True] assms(2,3) show ?thesis by (simp add: after_upload_def Let_def)
  next
    case False
    then obtain fs where "faults w = True # fs" by (cases "faults w") auto
    from upload_document_down [OF assms(1) this] assms(2,3) show ?thesis by (simp add: after_upload_def Let_def)
  qed
  then show ?thesis by (auto simp: assms(3) storage_path_inject update_conv')
qed

theorem uploaded_files_are_kept_apart_witness:
  "map_of (disk uploaded_world) (storage_path (storage_dir default_settings) 1 7) = Some ''bytes''"
  using uploaded_files_are_kept_apart [where w = demo_world and w' = uploaded_world and cfg = default_settings and user = demo_user
      and d = 7 and ids = demo_ids and abspath = "\<lambda>p. p" and filename = "Some ''a.pdf''" and data = "''bytes''", OF _ _ refl]
  by (simp add: uploaded_world_def)

subsection \<open>Messages\<close>

text \<open>
  C34: An acknowledged message has done its work: when the worker acknowledges a message that it can
  read, the step is DONE, ERROR or waiting for the partner, or its document is FAILED or gone; in
  every other case the message goes back to the queue.
\<close>

theorem acknowledged_messages_are_settled:
  assumes "clean w" "pipeline_ok cfg (committed w)" "1 \<le> step_max_attempts cfg"
    and "parse_body body = Some p" "deliverable p (committed w)" "fresh_job dr (payload_step p) (committed w)"
    and "callback cfg parse_body dr body w = (BasicAck, w')"
  shows "status_of (payload_document_id p) (payload_step p) (committed w') \<in> {Some AWAITING_CALLBACK, Some DONE, Some ERROR} \<or>
    (\<forall>q. find_document (payload_document_id p) (committed w') = Some q \<longrightarrow> doc_status q = FAILED)"
  using acked_settled [where parse_body = parse_body, OF assms(1-3,5,6,4)] assms(7) by (simp add: settled_def)

theorem acknowledged_messages_are_settled_witness:
  "status_of 7 OCR (committed waiting_world) \<in> {Some AWAITING_CALLBACK, Some DONE, Some ERROR} \<or>
    (\<forall>q. find_document 7 (committed waiting_world) = Some q \<longrightarrow> doc_status q = FAILED)"
proof -
  let ?p = "\<lparr>payload_document_id = 7, payload_step = OCR\<rparr>"
  have w: "clean waiting_world" "pipeline_ok default_settings (committed waiting_world)"
    "status_of 7 OCR (committed waiting_world) = Some DONE" using waiting_on_track by (simp_all add: on_track_def)
  have "runnable_row (payload_step ?p) (payload_document_id ?p) waiting_world = None"
  proof (rule ccontr)
    assume "runnable_row (payload_step ?p) (payload_document_id ?p) waiting_world \<noteq> None"
    then obtain r where "runnable_row OCR 7 waiting_world = Some r" by auto
    with runnable_row_iff [OF w(1,2), of OCR 7 r] w(3) show False by (auto simp: status_of_def)
  qed
  from handle_nothing [OF this] w(1)
  have "callback default_settings demo_parse_body bad_draws (demo_body OCR) waiting_world = (BasicAck, waiting_world)"
    by (simp add: callback_def session_scope_def handle_in_session_def)
  moreover have "deliverable ?p (committed waiting_world)" using w(3) by (auto simp: deliverable_def status_of_def)
  ultimately show ?thesis
    using acknowledged_messages_are_settled [where parse_body = demo_parse_body and body = "demo_body OCR" and p = ?p, OF w(1,2)]
    by (simp add: fresh_job_def)
qed

subsection \<open>Cursors and frames\<close>

text \<open>
  C35: Cursors round-trip: what \<open>encode_cursor\<close> writes for a creation time and a document, base64
  and UTF-8 included, \<open>decode_cursor\<close> reads back as the same moment and document, and the database
  takes it.
\<close>

theorem cursors_round_trip:
  assumes "date_codec binds isoformat fromisoformat"
  shows "\<exists>m. decode_cursor decimal fromisoformat (encode_cursor isoformat t u) = Inr (m, u) \<and> moment m = t \<and>
    bind_key binds (Some (m, u)) = Inr (Some (t, u))"
  using decode_own_cursor [OF assms, of decimal t u] by (auto simp: bind_key_def)

theorem cursors_round_trip_witness:
  "\<exists>m. decode_cursor (\<lambda>_. None) demo_fromisoformat (encode_cursor demo_isoformat (- 5) 7) = Inr (m, 7) \<and> moment m = - 5 \<and>
    bind_key demo_binds (Some (m, 7)) = Inr (Some (- 5, 7))"
  by (rule cursors_round_trip [OF demo_date_codec])

text \<open>
  C36: What can go wrong with a page request: it is answered 422 for a size outside 1 to 100; else
  400 exactly when there is a cursor that cannot be read; else it fails (a 500) exactly when the cursor reads
  as a date whose UTC offset the database does not know; and with a page otherwise. So a client can make
  the server fail with a well-formed cursor of its own, against the intention that a bad cursor is a 400.
\<close>

theorem page_requests_fail_only_in_the_database:
  fixes limit :: int
  assumes answer: "answer = list_documents_route binds decimal isoformat fromisoformat user limit cursor w"
    and sized: "sized \<longleftrightarrow> 1 \<le> limit \<and> limit \<le> 100"
    and unread: "unread \<longleftrightarrow> (\<exists>c. cursor = Some c \<and> c \<noteq> [] \<and> decode_cursor decimal fromisoformat c = Inl value_error)"
    and refused: "refused \<longleftrightarrow> (\<exists>c m u. cursor = Some c \<and> c \<noteq> [] \<and> decode_cursor decimal fromisoformat c = Inr (m, u) \<and> \<not> binds m)"
  shows "(answer = HTTPException 422 ''validation error'') = (\<not> sized) \<and>
    (answer = HTTPException 400 ''invalid cursor'') = (sized \<and> unread) \<and>
    (answer = Escaped data_error) = (sized \<and> refused) \<and>
    (\<exists>page. answer = Answer page) = (sized \<and> \<not> unread \<and> \<not> refused)"
proof (cases sized)
  case True
  then have size: "\<not> (limit < 1 \<or> 100 < limit)" by (auto simp: sized)
  have page: "\<exists>page. answer = Answer page" if "after_cursor decimal fromisoformat cursor = Inr after" "bind_key binds after = Inr k" for after k
  proof -
    have "1 \<le> limit" using size by simp
    from list_documents_answers [OF this that] obtain page where
      "list_documents binds decimal isoformat fromisoformat (user_org_id user) limit cursor (open_session w) = Inr page" by blast
    with size show ?thesis by (simp add: answer list_documents_route_def)
  qed
  show ?thesis
  proof (cases "cursor = None \<or> cursor = Some []")
    case True
    then have "\<exists>page. answer = Answer page" by (intro page [of None None]) (auto simp: after_cursor_def bind_key_def)
    with True \<open>sized\<close> show ?thesis by (auto simp: unread refused)
  next
    case False
    then obtain c where c: "cursor = Some c" "c \<noteq> []" by auto
    show ?thesis
    proof (cases "decode_cursor decimal fromisoformat c")
      case (Inl e)
      with decode_cursor_error [OF this] c size True show ?thesis
        by (auto simp: answer list_documents_route_def list_documents_def after_cursor_def value_error_def data_error_def unread refused)
    next
      case (Inr k)
      obtain m u where k: "k = (m, u)" by force
      show ?thesis
      proof (cases "binds m")
        case True
        with c Inr k have "\<exists>page. answer = Answer page" by (intro page [of "Some k" "Some (moment m, u)"]) (auto simp: after_cursor_def bind_key_def)
        with c Inr k True \<open>sized\<close> show ?thesis by (auto simp: unread refused)
      next
        case False
        with c Inr k size True show ?thesis
          by (auto simp: answer list_documents_route_def list_documents_def after_cursor_def bind_key_def data_error_def unread refused)
      qed
    qed
  qed
qed (auto simp: answer sized list_documents_route_def data_error_def)

text \<open>A cursor with the moment 0, an offset of twenty hours and document 7.\<close>

definition displaced_cursor :: string where
  "displaced_cursor = encode_cursor (\<lambda>t. str_int t @ ''@'' @ str_int 72000) 0 7"

theorem page_requests_fail_only_in_the_database_witness:
  "list_documents_route demo_binds (\<lambda>_. None) demo_isoformat demo_fromisoformat demo_user 5 (Some displaced_cursor) demo_world = Escaped data_error"
proof -
  have "decode_cursor (\<lambda>_. None) demo_fromisoformat displaced_cursor = Inr (\<lparr>moment = 0, utc_offset = Some 72000\<rparr>, 7)"
    unfolding displaced_cursor_def
  proof (rule decode_encode_cursor)
    have "(of_char (CHR ''@'') :: nat) = 64" by code_simp
    then show "demo_fromisoformat (codes (str_int 0 @ ''@'' @ str_int 72000)) = Some \<lparr>moment = 0, utc_offset = Some 72000\<rparr>"
      using demo_fromisoformat_int(2) [of 0 72000] by (simp only: map_append list.map append_Cons append_Nil)
  qed (use str_int_plain(1) in simp)
  moreover have "displaced_cursor \<noteq> []" by (simp add: displaced_cursor_def encode_cursor_nonempty)
  moreover have "\<not> demo_binds \<lparr>moment = 0, utc_offset = Some 72000\<rparr>" by (simp add: demo_binds_def)
  ultimately have "\<exists>c m u. Some displaced_cursor = Some c \<and> c \<noteq> [] \<and>
      decode_cursor (\<lambda>_. None) demo_fromisoformat c = Inr (m, u) \<and> \<not> demo_binds m" by blast
  with page_requests_fail_only_in_the_database [where sized = True and binds = demo_binds and decimal = "\<lambda>_. None"
      and isoformat = demo_isoformat and fromisoformat = demo_fromisoformat and user = demo_user and limit = 5
      and cursor = "Some displaced_cursor" and w = demo_world, OF refl _ refl refl]
  show ?thesis by simp
qed

end
