(* ===== verification/Seed.thy ===== *)
theory Seed
  imports Lifecycle
begin

section \<open>The seed (\<open>app/seed.py\<close>)\<close>

text \<open>
  For each pair of an organization and an email, \<open>seed\<close> adds what is missing; everything is
  committed at the end. The primary keys drawn for new rows are the arguments \<open>org_ids\<close> and
  \<open>user_ids\<close>. The session does not flush before a query, but the pairs of \<open>SEED\<close> have
  different emails and each new organization is flushed explicitly, so a query sees the same rows
  as in the model, where an added row is visible at once.
\<close>

definition SEED :: "(string \<times> string) list" where
  "SEED = [(''Acme'', ''alice@acme.example''), (''Globex'', ''youssef@globex.example'')]"

definition add_organization :: "organization \<Rightarrow> world \<Rightarrow> world" where
  "add_organization r w = w\<lparr>working := (working w)\<lparr>organizations := organizations (working w) @ [r]\<rparr>\<rparr>"

definition add_user :: "app_user \<Rightarrow> world \<Rightarrow> world" where
  "add_user r w = w\<lparr>working := (working w)\<lparr>app_users := app_users (working w) @ [r]\<rparr>\<rparr>"

definition seed_pair :: "(string \<Rightarrow> uuid) \<Rightarrow> (string \<Rightarrow> uuid) \<Rightarrow> string \<Rightarrow> string \<Rightarrow> world \<Rightarrow> (pyexn + unit) \<times> world" where
  "seed_pair org_ids user_ids org_name email w =
     (case scalar_one_or_none (filter (\<lambda>r. organization_name r = org_name) (organizations (working w))) of
        Inl e \<Rightarrow> (Inl e, w)
      | Inr found \<Rightarrow>
          let (org, w1) = (case found of
                Some org \<Rightarrow> (org, w)
              | None \<Rightarrow> let org = \<lparr>organization_id = org_ids org_name, organization_name = org_name\<rparr>
                        in (org, add_organization org w))
          in case scalar_one_or_none (filter (\<lambda>u. user_email u = email) (app_users (working w1))) of
               Inl e \<Rightarrow> (Inl e, w1)
             | Inr (Some _) \<Rightarrow> (Inr (), w1)
             | Inr None \<Rightarrow> (Inr (), add_user \<lparr>user_id = user_ids email, user_org_id = organization_id org, user_email = email\<rparr> w1))"

fun seed_pairs :: "(string \<Rightarrow> uuid) \<Rightarrow> (string \<Rightarrow> uuid) \<Rightarrow> (string \<times> string) list \<Rightarrow> world \<Rightarrow> (pyexn + unit) \<times> world" where
  "seed_pairs org_ids user_ids [] w = (Inr (), commit w)"
| "seed_pairs org_ids user_ids ((org_name, email) # pairs) w =
     (case seed_pair org_ids user_ids org_name email w of
        (Inl e, w1) \<Rightarrow> (Inl e, w1)
      | (Inr _, w1) \<Rightarrow> seed_pairs org_ids user_ids pairs w1)"

definition seed :: "(string \<Rightarrow> uuid) \<Rightarrow> (string \<Rightarrow> uuid) \<Rightarrow> world \<Rightarrow> (pyexn + unit) \<times> world" where
  "seed org_ids user_ids w = session_scope (seed_pairs org_ids user_ids SEED) w"

subsection \<open>What it adds\<close>

definition has_organization :: "string \<Rightarrow> database \<Rightarrow> bool" where
  "has_organization name db \<longleftrightarrow> (\<exists>r \<in> set (organizations db). organization_name r = name)"

definition has_user :: "string \<Rightarrow> database \<Rightarrow> bool" where
  "has_user email db \<longleftrightarrow> (\<exists>u \<in> set (app_users db). user_email u = email)"

text \<open>The drawn keys are new.\<close>

definition fresh_keys :: "(string \<Rightarrow> uuid) \<Rightarrow> (string \<Rightarrow> uuid) \<Rightarrow> (string \<times> string) list \<Rightarrow> database \<Rightarrow> bool" where
  "fresh_keys org_ids user_ids pairs db \<longleftrightarrow>
     (\<forall>(name, email) \<in> set pairs. org_ids name \<notin> organization_id ` set (organizations db) \<and> user_ids email \<notin> user_id ` set (app_users db)) \<and>
     distinct (map (\<lambda>p. org_ids (fst p)) pairs) \<and> distinct (map (\<lambda>p. user_ids (snd p)) pairs)"

lemma scalar_one_unique:
  assumes "distinct (map key rows)"
  shows "scalar_one_or_none (filter (\<lambda>r. key r = k) rows) = Inr (find (\<lambda>r. key r = k) rows)"
  using assms
proof (induction rows)
  case (Cons r rows)
  show ?case
  proof (cases "key r = k")
    case True
    have "key r \<notin> key ` set rows" using Cons.prems by simp
    then have "filter (\<lambda>q. key q = k) rows = []" unfolding filter_empty_conv using True by (metis image_eqI)
    with True show ?thesis by simp
  qed (use Cons in simp)
qed simp

lemma seed_pair_cases:
  fixes w :: world and org_ids user_ids :: "string \<Rightarrow> uuid" and name email :: string
  assumes sch: "schema_ok (working w)"
  defines "w' \<equiv> snd (seed_pair org_ids user_ids name email w)"
  shows "fst (seed_pair org_ids user_ids name email w) = Inr ()"
    and "has_organization name (working w')" "has_user email (working w')"
    and "has_organization name (working w) \<Longrightarrow> has_user email (working w) \<Longrightarrow> w' = w"
    and "set (organizations (working w')) \<subseteq> insert \<lparr>organization_id = org_ids name, organization_name = name\<rparr> (set (organizations (working w)))"
    and "user_id ` set (app_users (working w')) \<subseteq> insert (user_ids email) (user_id ` set (app_users (working w)))"
    and "set (organizations (working w)) \<subseteq> set (organizations (working w'))" "set (app_users (working w)) \<subseteq> set (app_users (working w'))"
    and "committed w' = committed w" "documents (working w') = documents (working w)" "pipeline_steps (working w') = pipeline_steps (working w)"
    and "org_ids name \<notin> organization_id ` set (organizations (working w)) \<Longrightarrow> user_ids email \<notin> user_id ` set (app_users (working w)) \<Longrightarrow>
      schema_ok (working w')"
proof -
  have org: "scalar_one_or_none (filter (\<lambda>r. organization_name r = name) (organizations (working w))) =
      Inr (find (\<lambda>r. organization_name r = name) (organizations (working w)))"
    using sch by (intro scalar_one_unique) (simp add: schema_ok_def)
  have usr: "scalar_one_or_none (filter (\<lambda>u. user_email u = email) (app_users (working w))) =
      Inr (find (\<lambda>u. user_email u = email) (app_users (working w)))"
    using sch by (intro scalar_one_unique) (simp add: schema_ok_def)
  let ?o = "find (\<lambda>r. organization_name r = name) (organizations (working w))"
  let ?u = "find (\<lambda>u. user_email u = email) (app_users (working w))"
  define org_row where "org_row = (case ?o of Some r \<Rightarrow> r | None \<Rightarrow> \<lparr>organization_id = org_ids name, organization_name = name\<rparr>)"
  define w1 where "w1 = (if ?o = None then add_organization org_row w else w)"
  define u_row where "u_row = \<lparr>user_id = user_ids email, user_org_id = organization_id org_row, user_email = email\<rparr>"
  have run: "seed_pair org_ids user_ids name email w = (Inr (), if ?u = None then add_user u_row w1 else w1)"
    using org usr by (auto simp: seed_pair_def org_row_def w1_def u_row_def add_organization_def Let_def split: option.split)
  show "fst (seed_pair org_ids user_ids name email w) = Inr ()" by (simp add: run)
  have w': "w' = (if ?u = None then add_user u_row w1 else w1)" by (simp add: w'_def run)
  have o_in: "org_row \<in> set (organizations (working w1))" "organization_name org_row = name"
    by (auto simp: org_row_def w1_def add_organization_def split: option.split dest: find_in_set)
  show "has_organization name (working w')" using o_in by (auto simp: has_organization_def w' add_user_def)
  show "has_user email (working w')"
    by (cases ?u) (auto simp: has_user_def w' add_user_def u_row_def w1_def add_organization_def dest!: find_in_set)
  show "w' = w" if "has_organization name (working w)" "has_user email (working w)"
    using that by (auto simp: w' w1_def has_organization_def has_user_def find_None_iff)
  show "set (organizations (working w')) \<subseteq> insert \<lparr>organization_id = org_ids name, organization_name = name\<rparr> (set (organizations (working w)))"
    "user_id ` set (app_users (working w')) \<subseteq> insert (user_ids email) (user_id ` set (app_users (working w)))"
    "set (organizations (working w)) \<subseteq> set (organizations (working w'))" "set (app_users (working w)) \<subseteq> set (app_users (working w'))"
    "committed w' = committed w" "documents (working w') = documents (working w)" "pipeline_steps (working w') = pipeline_steps (working w)"
    by (auto simp: w' add_user_def u_row_def w1_def add_organization_def org_row_def)
  show "schema_ok (working w')" if "org_ids name \<notin> organization_id ` set (organizations (working w))"
    "user_ids email \<notin> user_id ` set (app_users (working w))"
  proof -
    have "schema_ok (working w1)"
    proof (cases "?o = None")
      case True
      then have "org_row = \<lparr>organization_id = org_ids name, organization_name = name\<rparr>" by (simp add: org_row_def)
      with True sch that(1) show ?thesis by (auto simp: w1_def add_organization_def schema_ok_def find_None_iff)
    next
      case False
      with sch show ?thesis by (auto simp: w1_def)
    qed
    moreover have "app_users (working w1) = app_users (working w)" by (simp add: w1_def add_organization_def)
    ultimately show ?thesis
      using that(2) o_in(1) by (auto simp: w' add_user_def u_row_def schema_ok_def find_None_iff)
  qed
qed

lemma fresh_keys_Cons:
  assumes "fresh_keys org_ids user_ids ((name, email) # pairs) db"
    and "set (organizations db') \<subseteq> insert \<lparr>organization_id = org_ids name, organization_name = name\<rparr> (set (organizations db))"
    and "user_id ` set (app_users db') \<subseteq> insert (user_ids email) (user_id ` set (app_users db))"
  shows "fresh_keys org_ids user_ids pairs db'"
  using assms unfolding fresh_keys_def by (fastforce simp: image_iff)

lemma has_mono:
  "set (organizations db) \<subseteq> set (organizations db') \<Longrightarrow> has_organization name db \<Longrightarrow> has_organization name db'"
  "set (app_users db) \<subseteq> set (app_users db') \<Longrightarrow> has_user email db \<Longrightarrow> has_user email db'"
  by (auto simp: has_organization_def has_user_def)

lemma seed_pairs_result:
  assumes "schema_ok (working w)" "fresh_keys org_ids user_ids pairs (working w)"
  shows "fst (seed_pairs org_ids user_ids pairs w) = Inr () \<and>
    (let w' = snd (seed_pairs org_ids user_ids pairs w) in
      schema_ok (committed w') \<and> working w' = committed w' \<and> pending w' = [] \<and>
      (\<forall>(name, email) \<in> set pairs. has_organization name (committed w') \<and> has_user email (committed w')) \<and>
      set (organizations (working w)) \<subseteq> set (organizations (committed w')) \<and> set (app_users (working w)) \<subseteq> set (app_users (committed w')) \<and>
      documents (committed w') = documents (working w) \<and> pipeline_steps (committed w') = pipeline_steps (working w))"
  using assms
proof (induction pairs arbitrary: w)
  case Nil
  then show ?case by (simp add: Let_def)
next
  case (Cons p pairs)
  obtain name email where p: "p = (name, email)" by force
  let ?w = "snd (seed_pair org_ids user_ids name email w)"
  note pair = seed_pair_cases [where org_ids = org_ids and user_ids = user_ids and name = name and email = email, OF Cons.prems(1)]
  have keys: "org_ids name \<notin> organization_id ` set (organizations (working w))" "user_ids email \<notin> user_id ` set (app_users (working w))"
    using Cons.prems(2) by (auto simp: p fresh_keys_def)
  have fresh: "fresh_keys org_ids user_ids pairs (working ?w)"
    by (rule fresh_keys_Cons [OF Cons.prems(2) [unfolded p] pair(5,6)])
  note IH = Cons.IH [OF pair(12) [OF keys] fresh]
  have run: "seed_pairs org_ids user_ids (p # pairs) w = seed_pairs org_ids user_ids pairs ?w"
    using pair(1) by (cases "seed_pair org_ids user_ids name email w") (simp add: p)
  let ?db = "committed (snd (seed_pairs org_ids user_ids pairs ?w))"
  have sub: "set (organizations (working ?w)) \<subseteq> set (organizations ?db)" "set (app_users (working ?w)) \<subseteq> set (app_users ?db)"
    using IH by (simp_all add: Let_def)
  have "has_organization name ?db" "has_user email ?db"
    using has_mono(1) [OF sub(1) pair(2)] has_mono(2) [OF sub(2) pair(3)] by simp_all
  moreover have "set (organizations (working w)) \<subseteq> set (organizations ?db)" "set (app_users (working w)) \<subseteq> set (app_users ?db)"
    using pair(7,8) sub by blast+
  ultimately show ?case unfolding run using IH pair(10,11) by (simp add: Let_def p)
qed

lemma seed_pairs_idle:
  assumes "schema_ok (working w)" "\<forall>(name, email) \<in> set pairs. has_organization name (working w) \<and> has_user email (working w)"
  shows "seed_pairs org_ids user_ids pairs w = (Inr (), commit w)"
  using assms(2)
proof (induction pairs)
  case (Cons p pairs)
  obtain name email where p: "p = (name, email)" by force
  note pair = seed_pair_cases [where org_ids = org_ids and user_ids = user_ids and name = name and email = email, OF assms(1)]
  from Cons.prems p have "snd (seed_pair org_ids user_ids name email w) = w" by (intro pair(4)) auto
  with pair(1) have "seed_pair org_ids user_ids name email w = (Inr (), w)" by (metis prod.collapse)
  with Cons p show ?case by simp
qed simp

lemma seed_result:
  assumes "clean w" "schema_ok (committed w)" "fresh_keys org_ids user_ids SEED (committed w)"
  shows "fst (seed org_ids user_ids w) = Inr ()"
    and "clean (snd (seed org_ids user_ids w))" "schema_ok (committed (snd (seed org_ids user_ids w)))"
    and "\<forall>(name, email) \<in> set SEED. has_organization name (committed (snd (seed org_ids user_ids w))) \<and>
      has_user email (committed (snd (seed org_ids user_ids w)))"
    and "documents (committed (snd (seed org_ids user_ids w))) = documents (committed w)"
proof -
  have w: "open_session w = w" "working w = committed w" using assms(1) by (simp_all add: open_session_def clean_def)
  note res = seed_pairs_result [of w org_ids user_ids SEED, unfolded w Let_def, OF assms(2,3)]
  have run: "fst (seed org_ids user_ids w) = fst (seed_pairs org_ids user_ids SEED w)"
    "snd (seed org_ids user_ids w) = rollback (snd (seed_pairs org_ids user_ids SEED w))"
    by (simp_all add: seed_def session_scope_def w case_prod_beta)
  show "fst (seed org_ids user_ids w) = Inr ()" "clean (snd (seed org_ids user_ids w))" "schema_ok (committed (snd (seed org_ids user_ids w)))"
    "\<forall>(name, email) \<in> set SEED. has_organization name (committed (snd (seed org_ids user_ids w))) \<and>
      has_user email (committed (snd (seed org_ids user_ids w)))"
    "documents (committed (snd (seed org_ids user_ids w))) = documents (committed w)"
    using res by (simp_all add: run rollback_def clean_def)
qed

lemma seed_again:
  assumes "clean w" "schema_ok (committed w)"
    and "\<forall>(name, email) \<in> set SEED. has_organization name (committed w) \<and> has_user email (committed w)"
  shows "seed org_ids user_ids w = (Inr (), commit w)"
proof -
  have w: "open_session w = w" "working w = committed w" using assms(1) by (simp_all add: open_session_def clean_def)
  show ?thesis
    using seed_pairs_idle [of w SEED, unfolded w, OF assms(2,3)]
    by (simp add: seed_def session_scope_def w rollback_def commit_def)
qed

end
