(* ===== verification/Schema.thy ===== *)
theory Schema
  imports Models
begin

section \<open>The schema (\<open>migrations/versions/0001_initial.py\<close> and the tables of \<open>app/models.py\<close>)\<close>

text \<open>
  The migration is a list of operations on a schema of tables and indexes; the models declare a
  schema of their own. An operation fails (\<open>None\<close>) where PostgreSQL refuses it: a name that
  exists already or does not exist, a reference to a missing table, the removal of a table that
  another one references. Dropping a table drops its indexes.
\<close>

datatype column_type = UUID_TYPE | STRING_TYPE | DATETIME_TYPE | JSONB_TYPE | INTEGER_TYPE | BOOLEAN_TYPE

record column =
  col_name :: string
  col_type :: column_type
  col_nullable :: bool
  col_primary :: bool
  col_unique :: bool
  col_references :: "(string \<times> string) option"
  col_server_default :: "string option"

record table_def =
  tab_name :: string
  tab_columns :: "column list"
  tab_uniques :: "(string \<times> string list) list"

record index_def =
  ix_name :: string
  ix_table :: string
  ix_columns :: "string list"
  ix_where :: "string option"

record schema =
  schema_tables :: "table_def list"
  schema_indexes :: "index_def list"

definition empty_schema :: schema where
  "empty_schema = \<lparr>schema_tables = [], schema_indexes = []\<rparr>"

datatype migration_op = CreateTable table_def | CreateIndex index_def | DropTable string | DropIndex string string

definition references_of :: "table_def \<Rightarrow> string list" where
  "references_of t = concat (map (\<lambda>c. case col_references c of None \<Rightarrow> [] | Some (other, _) \<Rightarrow> [other]) (tab_columns t))"

fun apply_op :: "migration_op \<Rightarrow> schema \<Rightarrow> schema option" where
  "apply_op (CreateTable t) s =
     (if tab_name t \<in> tab_name ` set (schema_tables s) \<or> \<not> set (references_of t) \<subseteq> insert (tab_name t) (tab_name ` set (schema_tables s))
      then None else Some (s\<lparr>schema_tables := schema_tables s @ [t]\<rparr>))"
| "apply_op (CreateIndex i) s =
     (if ix_name i \<in> ix_name ` set (schema_indexes s) \<or> ix_table i \<notin> tab_name ` set (schema_tables s)
      then None else Some (s\<lparr>schema_indexes := schema_indexes s @ [i]\<rparr>))"
| "apply_op (DropTable n) s =
     (if n \<notin> tab_name ` set (schema_tables s) \<or> (\<exists>t \<in> set (schema_tables s). tab_name t \<noteq> n \<and> n \<in> set (references_of t))
      then None else Some (s\<lparr>schema_tables := filter (\<lambda>t. tab_name t \<noteq> n) (schema_tables s),
        schema_indexes := filter (\<lambda>i. ix_table i \<noteq> n) (schema_indexes s)\<rparr>))"
| "apply_op (DropIndex n t) s =
     (if \<not> (\<exists>i \<in> set (schema_indexes s). ix_name i = n \<and> ix_table i = t)
      then None else Some (s\<lparr>schema_indexes := filter (\<lambda>i. ix_name i \<noteq> n) (schema_indexes s)\<rparr>))"

fun apply_ops :: "migration_op list \<Rightarrow> schema \<Rightarrow> schema option" where
  "apply_ops [] s = Some s"
| "apply_ops (op # ops) s = Option.bind (apply_op op s) (apply_ops ops)"

subsection \<open>Columns\<close>

definition key_column :: column where
  "key_column = \<lparr>col_name = ''id'', col_type = UUID_TYPE, col_nullable = False, col_primary = True, col_unique = False,
     col_references = None, col_server_default = None\<rparr>"

definition plain :: "string \<Rightarrow> column_type \<Rightarrow> column" where
  "plain n t = \<lparr>col_name = n, col_type = t, col_nullable = False, col_primary = False, col_unique = False,
     col_references = None, col_server_default = None\<rparr>"

definition foreign :: "string \<Rightarrow> string \<Rightarrow> column" where
  "foreign n other = (plain n UUID_TYPE)\<lparr>col_references := Some (other, ''id'')\<rparr>"

subsection \<open>The migration\<close>

definition upgrade :: "migration_op list" where
  "upgrade =
    [CreateTable \<lparr>tab_name = ''organization'', tab_columns =
       [key_column, (plain ''name'' STRING_TYPE)\<lparr>col_unique := True\<rparr>], tab_uniques = []\<rparr>,
     CreateTable \<lparr>tab_name = ''app_user'', tab_columns =
       [key_column, foreign ''org_id'' ''organization'', (plain ''email'' STRING_TYPE)\<lparr>col_unique := True\<rparr>], tab_uniques = []\<rparr>,
     CreateIndex \<lparr>ix_name = ''ix_app_user_org_id'', ix_table = ''app_user'', ix_columns = [''org_id''], ix_where = None\<rparr>,
     CreateTable \<lparr>tab_name = ''document'', tab_columns =
       [key_column, foreign ''org_id'' ''organization'', foreign ''uploaded_by'' ''app_user'', plain ''filename'' STRING_TYPE,
        plain ''storage_uri'' STRING_TYPE, plain ''status'' STRING_TYPE,
        (plain ''created_at'' DATETIME_TYPE)\<lparr>col_server_default := Some ''now()''\<rparr>,
        (plain ''updated_at'' DATETIME_TYPE)\<lparr>col_server_default := Some ''now()''\<rparr>], tab_uniques = []\<rparr>,
     CreateIndex \<lparr>ix_name = ''ix_document_org_created'', ix_table = ''document'', ix_columns = [''org_id'', ''created_at''], ix_where = None\<rparr>,
     CreateTable \<lparr>tab_name = ''pipeline_step'', tab_columns =
       [key_column, foreign ''document_id'' ''document'', plain ''name'' STRING_TYPE, plain ''status'' STRING_TYPE,
        (plain ''attempts'' INTEGER_TYPE)\<lparr>col_server_default := Some ''0''\<rparr>,
        (plain ''result'' JSONB_TYPE)\<lparr>col_nullable := True\<rparr>, (plain ''error_text'' STRING_TYPE)\<lparr>col_nullable := True\<rparr>,
        (plain ''external_job_id'' STRING_TYPE)\<lparr>col_nullable := True\<rparr>, (plain ''started_at'' DATETIME_TYPE)\<lparr>col_nullable := True\<rparr>,
        (plain ''finished_at'' DATETIME_TYPE)\<lparr>col_nullable := True\<rparr>,
        (plain ''updated_at'' DATETIME_TYPE)\<lparr>col_server_default := Some ''now()''\<rparr>],
       tab_uniques = [(''uq_step_document_name'', [''document_id'', ''name''])]\<rparr>,
     CreateIndex \<lparr>ix_name = ''ix_step_external_job_id'', ix_table = ''pipeline_step'', ix_columns = [''external_job_id''], ix_where = None\<rparr>,
     CreateIndex \<lparr>ix_name = ''ix_step_inflight'', ix_table = ''pipeline_step'', ix_columns = [''status'', ''updated_at''],
       ix_where = Some (''status IN ('' @ CHR 0x27 # ''queued'' @ CHR 0x27 # '', '' @ CHR 0x27 # ''running'' @ CHR 0x27 # '', '' @
         CHR 0x27 # ''awaiting_callback'' @ CHR 0x27 # '')'')\<rparr>,
     CreateTable \<lparr>tab_name = ''webhook_event'', tab_columns =
       [key_column, plain ''job_id'' STRING_TYPE, plain ''signature_ok'' BOOLEAN_TYPE, plain ''payload'' JSONB_TYPE,
        (plain ''received_at'' DATETIME_TYPE)\<lparr>col_server_default := Some ''now()''\<rparr>,
        (plain ''processed_at'' DATETIME_TYPE)\<lparr>col_nullable := True\<rparr>], tab_uniques = []\<rparr>,
     CreateIndex \<lparr>ix_name = ''ix_webhook_event_job_id'', ix_table = ''webhook_event'', ix_columns = [''job_id''], ix_where = None\<rparr>]"

definition downgrade :: "migration_op list" where
  "downgrade =
    [DropTable ''webhook_event'', DropIndex ''ix_step_inflight'' ''pipeline_step'', DropIndex ''ix_step_external_job_id'' ''pipeline_step'',
     DropTable ''pipeline_step'', DropIndex ''ix_document_org_created'' ''document'', DropTable ''document'',
     DropIndex ''ix_app_user_org_id'' ''app_user'', DropTable ''app_user'', DropTable ''organization'']"

subsection \<open>The models\<close>

text \<open>A column with \<open>index=True\<close> has an index of its own, named after the table and the column.\<close>

definition column_index :: "string \<Rightarrow> string \<Rightarrow> index_def" where
  "column_index t c = \<lparr>ix_name = ''ix_'' @ t @ ''_'' @ c, ix_table = t, ix_columns = [c], ix_where = None\<rparr>"

definition organization_table :: table_def where
  "organization_table = \<lparr>tab_name = ''organization'', tab_columns =
     [key_column, (plain ''name'' STRING_TYPE)\<lparr>col_unique := True\<rparr>], tab_uniques = []\<rparr>"

definition app_user_table :: table_def where
  "app_user_table = \<lparr>tab_name = ''app_user'', tab_columns =
     [key_column, foreign ''org_id'' ''organization'', (plain ''email'' STRING_TYPE)\<lparr>col_unique := True\<rparr>], tab_uniques = []\<rparr>"

definition document_table :: table_def where
  "document_table = \<lparr>tab_name = ''document'', tab_columns =
     [key_column, foreign ''org_id'' ''organization'', foreign ''uploaded_by'' ''app_user'', plain ''filename'' STRING_TYPE,
      plain ''storage_uri'' STRING_TYPE, plain ''status'' STRING_TYPE,
      (plain ''created_at'' DATETIME_TYPE)\<lparr>col_server_default := Some ''now()''\<rparr>,
      (plain ''updated_at'' DATETIME_TYPE)\<lparr>col_server_default := Some ''now()''\<rparr>], tab_uniques = []\<rparr>"

definition pipeline_step_table :: table_def where
  "pipeline_step_table = \<lparr>tab_name = ''pipeline_step'', tab_columns =
     [key_column, foreign ''document_id'' ''document'', plain ''name'' STRING_TYPE, plain ''status'' STRING_TYPE,
      plain ''attempts'' INTEGER_TYPE, (plain ''result'' JSONB_TYPE)\<lparr>col_nullable := True\<rparr>,
      (plain ''error_text'' STRING_TYPE)\<lparr>col_nullable := True\<rparr>, (plain ''external_job_id'' STRING_TYPE)\<lparr>col_nullable := True\<rparr>,
      (plain ''started_at'' DATETIME_TYPE)\<lparr>col_nullable := True\<rparr>, (plain ''finished_at'' DATETIME_TYPE)\<lparr>col_nullable := True\<rparr>,
      (plain ''updated_at'' DATETIME_TYPE)\<lparr>col_server_default := Some ''now()''\<rparr>],
     tab_uniques = [(''uq_step_document_name'', [''document_id'', ''name''])]\<rparr>"

definition webhook_event_table :: table_def where
  "webhook_event_table = \<lparr>tab_name = ''webhook_event'', tab_columns =
     [key_column, plain ''job_id'' STRING_TYPE, plain ''signature_ok'' BOOLEAN_TYPE, plain ''payload'' JSONB_TYPE,
      (plain ''received_at'' DATETIME_TYPE)\<lparr>col_server_default := Some ''now()''\<rparr>,
      (plain ''processed_at'' DATETIME_TYPE)\<lparr>col_nullable := True\<rparr>], tab_uniques = []\<rparr>"

definition step_indexes :: "index_def list" where
  "step_indexes = [\<lparr>ix_name = ''ix_step_external_job_id'', ix_table = ''pipeline_step'', ix_columns = [''external_job_id''], ix_where = None\<rparr>,
     \<lparr>ix_name = ''ix_step_inflight'', ix_table = ''pipeline_step'', ix_columns = [''status'', ''updated_at''],
       ix_where = Some (''status IN ('' @ join '', '' (map (\<lambda>st. CHR 0x27 # step_status_value st @ [CHR 0x27])
         [QUEUED, RUNNING, AWAITING_CALLBACK]) @ '')'')\<rparr>]"

definition models_schema :: schema where
  "models_schema = \<lparr>schema_tables = [organization_table, app_user_table, document_table, pipeline_step_table, webhook_event_table],
     schema_indexes = [column_index ''app_user'' ''org_id'',
       (column_index ''document'' ''org_created'')\<lparr>ix_columns := [''org_id'', ''created_at'']\<rparr>] @ step_indexes @
       [column_index ''webhook_event'' ''job_id'']\<rparr>"

text \<open>A default that the ORM fills in itself need not be one of the server.\<close>

definition without_defaults :: "schema \<Rightarrow> schema" where
  "without_defaults s = s\<lparr>schema_tables := map (\<lambda>t. t\<lparr>tab_columns := map (\<lambda>c. c\<lparr>col_server_default := None\<rparr>) (tab_columns t)\<rparr>) (schema_tables s)\<rparr>"

lemma upgrade_result:
  "map_option without_defaults (apply_ops upgrade empty_schema) = Some (without_defaults models_schema)"
  by code_simp

lemma downgrade_result: "Option.bind (apply_ops upgrade empty_schema) (apply_ops downgrade) = Some empty_schema"
  by code_simp

subsection \<open>What the constraints mean for the rows\<close>

text \<open>The key columns of each table's rows, and the constraints of a schema over them.\<close>

datatype key_value = UuidValue uuid | TextValue string

type_synonym key_row = "(string \<times> key_value) list"

definition key_rows :: "database \<Rightarrow> string \<Rightarrow> key_row list" where
  "key_rows db t =
     (if t = ''organization'' then map (\<lambda>r. [(''id'', UuidValue (organization_id r)), (''name'', TextValue (organization_name r))]) (organizations db)
      else if t = ''app_user'' then map (\<lambda>r. [(''id'', UuidValue (user_id r)), (''org_id'', UuidValue (user_org_id r)), (''email'', TextValue (user_email r))]) (app_users db)
      else if t = ''document'' then map (\<lambda>r. [(''id'', UuidValue (doc_id r)), (''org_id'', UuidValue (doc_org_id r)), (''uploaded_by'', UuidValue (doc_uploaded_by r))]) (documents db)
      else if t = ''pipeline_step'' then map (\<lambda>r. [(''id'', UuidValue (st_id r)), (''document_id'', UuidValue (st_document_id r)), (''name'', TextValue (step_name_value (st_name r)))]) (pipeline_steps db)
      else if t = ''webhook_event'' then map (\<lambda>r. [(''id'', UuidValue (wh_id r))]) (webhook_events db)
      else [])"

definition values_at :: "key_row list \<Rightarrow> string list \<Rightarrow> key_value option list list" where
  "values_at rows cs = map (\<lambda>r. map (map_of r) cs) rows"

definition column_holds :: "database \<Rightarrow> string \<Rightarrow> column \<Rightarrow> bool" where
  "column_holds db t c \<longleftrightarrow>
     (col_primary c \<or> col_unique c \<longrightarrow> distinct (values_at (key_rows db t) [col_name c])) \<and>
     (case col_references c of None \<Rightarrow> True
      | Some (other, oc) \<Rightarrow> set (values_at (key_rows db t) [col_name c]) \<subseteq> set (values_at (key_rows db other) [oc]))"

definition satisfies :: "schema \<Rightarrow> database \<Rightarrow> bool" where
  "satisfies s db \<longleftrightarrow> (\<forall>t \<in> set (schema_tables s). (\<forall>c \<in> set (tab_columns t). column_holds db (tab_name t) c) \<and>
     (\<forall>(n, cs) \<in> set (tab_uniques t). distinct (values_at (key_rows db (tab_name t)) cs)))"

lemma key_rows_simps [simp]:
  "key_rows db ''organization'' = map (\<lambda>r. [(''id'', UuidValue (organization_id r)), (''name'', TextValue (organization_name r))]) (organizations db)"
  "key_rows db ''app_user'' = map (\<lambda>r. [(''id'', UuidValue (user_id r)), (''org_id'', UuidValue (user_org_id r)), (''email'', TextValue (user_email r))]) (app_users db)"
  "key_rows db ''document'' = map (\<lambda>r. [(''id'', UuidValue (doc_id r)), (''org_id'', UuidValue (doc_org_id r)), (''uploaded_by'', UuidValue (doc_uploaded_by r))]) (documents db)"
  "key_rows db ''pipeline_step'' = map (\<lambda>r. [(''id'', UuidValue (st_id r)), (''document_id'', UuidValue (st_document_id r)), (''name'', TextValue (step_name_value (st_name r)))]) (pipeline_steps db)"
  "key_rows db ''webhook_event'' = map (\<lambda>r. [(''id'', UuidValue (wh_id r))]) (webhook_events db)"
  by (simp_all add: key_rows_def)

lemma distinct_map_wrap: "inj g \<Longrightarrow> distinct (map (\<lambda>r. [Some (g (f r))]) xs) = distinct (map f xs)"
  by (induction xs) (auto simp: image_iff dest: injD)

lemma subset_wrap: "inj g \<Longrightarrow> (\<lambda>r. [Some (g (f r))]) ` A \<subseteq> (\<lambda>q. [Some (g (h q))]) ` B \<longleftrightarrow> f ` A \<subseteq> h ` B"
  by (simp add: image_subset_iff image_iff inj_eq)

lemma inj_key_values: "inj UuidValue" "inj TextValue"
  by (simp_all add: inj_def)

lemma distinct_step_keys:
  "distinct (map (\<lambda>r. [Some (UuidValue (st_document_id r)), Some (TextValue (step_name_value (st_name r)))]) rs) = distinct (map step_key rs)"
proof -
  have "step_name_value a = step_name_value b \<longleftrightarrow> a = b" for a b using step_name_codec.encode_injective [of a b] by auto
  then show ?thesis by (induction rs) (auto simp: image_iff step_key_def)
qed

text \<open>The invariant \<open>schema_ok\<close> is exactly what the constraints say, but for the primary key of the audit table.\<close>

lemma satisfies_models_schema:
  "satisfies models_schema db \<longleftrightarrow> schema_ok db \<and> distinct (map wh_id (webhook_events db))"
proof -
  note tables = organization_table_def app_user_table_def document_table_def pipeline_step_table_def webhook_event_table_def
  note wraps = distinct_map_wrap [OF inj_key_values(1)] distinct_map_wrap [OF inj_key_values(2)] subset_wrap [OF inj_key_values(1)] distinct_step_keys
  have column: "column_holds db t c \<longleftrightarrow>
     (col_primary c \<or> col_unique c \<longrightarrow> distinct (values_at (key_rows db t) [col_name c])) \<and>
     (case col_references c of None \<Rightarrow> True
      | Some (other, oc) \<Rightarrow> set (values_at (key_rows db t) [col_name c]) \<subseteq> set (values_at (key_rows db other) [oc]))" for t c
    by (rule column_holds_def)
  have "satisfies models_schema db \<longleftrightarrow>
     (distinct (map organization_id (organizations db)) \<and> distinct (map organization_name (organizations db))) \<and>
     (distinct (map user_id (app_users db)) \<and> user_org_id ` set (app_users db) \<subseteq> organization_id ` set (organizations db) \<and>
       distinct (map user_email (app_users db))) \<and>
     (distinct (map doc_id (documents db)) \<and> doc_org_id ` set (documents db) \<subseteq> organization_id ` set (organizations db) \<and>
       doc_uploaded_by ` set (documents db) \<subseteq> user_id ` set (app_users db)) \<and>
     ((distinct (map st_id (pipeline_steps db)) \<and> st_document_id ` set (pipeline_steps db) \<subseteq> doc_id ` set (documents db)) \<and>
       distinct (map step_key (pipeline_steps db))) \<and> distinct (map wh_id (webhook_events db))"
    unfolding satisfies_def models_schema_def tables
    by (simp add: column key_column_def plain_def foreign_def values_at_def comp_def image_image wraps)
  then show ?thesis unfolding schema_ok_def by argo
qed

end
