(* ===== verification/WebhookDocs.thy ===== *)
theory WebhookDocs
  imports Webhooks
begin

section \<open>The documented webhook body (\<open>app/schemas.py\<close>)\<close>

text \<open>
  The webhook routes read the raw body, so the API documentation is written by hand: a JSON
  Schema and an example. \<open>conforms\<close> is the meaning of the part of JSON Schema that it uses;
  the format of date-times is an argument.
\<close>

definition WEBHOOK_BODY_EXAMPLE :: json where
  "WEBHOOK_BODY_EXAMPLE = JObject
    [(''job_id'', JString ''j_abc123def4567890''),
     (''status'', JString ''completed''),
     (''result'', JObject [(''indexed_at'', JString ''2026-06-06T06:06:06Z'')]),
     (''occurred_at'', JString ''2026-06-06T06:06:06Z'')]"

definition WEBHOOK_REQUEST_BODY_OPENAPI :: json where
  "WEBHOOK_REQUEST_BODY_OPENAPI = JObject
    [(''requestBody'', JObject
      [(''required'', JBool True),
       (''content'', JObject
         [(''application/json'', JObject
           [(''schema'', JObject
             [(''type'', JString ''object''),
              (''required'', JArray [JString ''job_id'', JString ''status'']),
              (''properties'', JObject
                [(''job_id'', JObject [(''type'', JString ''string'')]),
                 (''status'', JObject [(''type'', JString ''string''), (''enum'', JArray [JString ''completed'', JString ''failed''])]),
                 (''result'', JObject [(''type'', JString ''object'')]),
                 (''occurred_at'', JObject [(''type'', JString ''string''), (''format'', JString ''date-time'')])])]),
            (''example'', WEBHOOK_BODY_EXAMPLE)])])])]"

text \<open>\<open>spec["a"]["b"]...\<close>.\<close>

fun json_path :: "json \<Rightarrow> string list \<Rightarrow> json option" where
  "json_path j [] = Some j"
| "json_path (JObject kvs) (k # ks) = Option.bind (map_of kvs k) (\<lambda>j. json_path j ks)"
| "json_path j (k # ks) = None"

definition body_schema :: json where
  "body_schema = the (json_path WEBHOOK_REQUEST_BODY_OPENAPI [''requestBody'', ''content'', ''application/json'', ''schema''])"

subsection \<open>JSON Schema\<close>

fun has_type :: "string \<Rightarrow> json \<Rightarrow> bool" where
  "has_type t (JString _) = (t = ''string'')"
| "has_type t (JObject _) = (t = ''object'')"
| "has_type t _ = False"

text \<open>The keywords \<open>type\<close>, \<open>enum\<close>, \<open>format\<close>, \<open>required\<close> and \<open>properties\<close>, to the given depth.\<close>

fun conforms :: "(string \<Rightarrow> bool) \<Rightarrow> nat \<Rightarrow> json \<Rightarrow> json \<Rightarrow> bool" where
  "conforms date_time 0 schema j = True"
| "conforms date_time (Suc n) schema j =
     ((case json_path schema [''type''] of Some (JString t) \<Rightarrow> has_type t j | _ \<Rightarrow> True) \<and>
      (case json_path schema [''enum''] of Some (JArray vs) \<Rightarrow> j \<in> set vs | _ \<Rightarrow> True) \<and>
      (case json_path schema [''format''] of
         Some (JString f) \<Rightarrow> (case j of JString s \<Rightarrow> f = ''date-time'' \<longrightarrow> date_time s | _ \<Rightarrow> True) | _ \<Rightarrow> True) \<and>
      (case json_path schema [''required''] of
         Some (JArray ks) \<Rightarrow> (\<forall>k \<in> set ks. case k of JString s \<Rightarrow> json_path j [s] \<noteq> None | _ \<Rightarrow> True) | _ \<Rightarrow> True) \<and>
      (case json_path schema [''properties''] of
         Some (JObject ps) \<Rightarrow> (\<forall>(k, p) \<in> set ps. case json_path j [k] of Some v \<Rightarrow> conforms date_time n p v | None \<Rightarrow> True) | _ \<Rightarrow> True))"

lemma example_conforms: "date_time ''2026-06-06T06:06:06Z'' \<Longrightarrow> conforms date_time 2 body_schema WEBHOOK_BODY_EXAMPLE"
  by (simp add: body_schema_def WEBHOOK_REQUEST_BODY_OPENAPI_def WEBHOOK_BODY_EXAMPLE_def numeral_2_eq_2)

lemma body_parts:
  "body_schema = JObject
     [(''type'', JString ''object''),
      (''required'', JArray [JString ''job_id'', JString ''status'']),
      (''properties'', JObject
        [(''job_id'', JObject [(''type'', JString ''string'')]),
         (''status'', JObject [(''type'', JString ''string''), (''enum'', JArray [JString ''completed'', JString ''failed''])]),
         (''result'', JObject [(''type'', JString ''object'')]),
         (''occurred_at'', JObject [(''type'', JString ''string''), (''format'', JString ''date-time'')])])]"
  by (simp add: body_schema_def WEBHOOK_REQUEST_BODY_OPENAPI_def)

lemma leaf_types:
  "conforms date_time (Suc 0) (JObject [(''type'', JString ''string'')]) v \<longleftrightarrow> (\<exists>s. v = JString s)"
  "conforms date_time (Suc 0) (JObject [(''type'', JString ''object'')]) v \<longleftrightarrow> (\<exists>kvs. v = JObject kvs)"
  "conforms date_time (Suc 0) (JObject [(''type'', JString ''string''), (''format'', JString ''date-time'')]) v \<longleftrightarrow>
    (\<exists>s. v = JString s \<and> date_time s)"
  "conforms date_time (Suc 0) (JObject [(''type'', JString ''string''), (''enum'', JArray [JString ''completed'', JString ''failed''])]) v \<longleftrightarrow>
    (\<exists>s. v = JString s \<and> s \<in> {''completed'', ''failed''})"
  by (cases v; simp)+

text \<open>What the documented schema asks for.\<close>

lemma conforms_body:
  "conforms date_time 2 body_schema j \<longleftrightarrow>
    (\<exists>kvs job st. j = JObject kvs \<and> map_of kvs ''job_id'' = Some (JString job) \<and>
      map_of kvs ''status'' = Some (JString st) \<and> st \<in> {''completed'', ''failed''} \<and>
      (case map_of kvs ''result'' of None \<Rightarrow> True | Some r \<Rightarrow> \<exists>rs. r = JObject rs) \<and>
      (case map_of kvs ''occurred_at'' of None \<Rightarrow> True | Some t \<Rightarrow> \<exists>s. t = JString s \<and> date_time s))"
proof (cases "\<exists>kvs. j = JObject kvs")
  case True
  then obtain kvs where j: "j = JObject kvs" by blast
  have "conforms date_time 2 body_schema (JObject kvs) \<longleftrightarrow>
    map_of kvs ''job_id'' \<noteq> None \<and> map_of kvs ''status'' \<noteq> None \<and>
    (case map_of kvs ''job_id'' of Some v \<Rightarrow> \<exists>s. v = JString s | None \<Rightarrow> True) \<and>
    (case map_of kvs ''status'' of Some v \<Rightarrow> \<exists>s. v = JString s \<and> s \<in> {''completed'', ''failed''} | None \<Rightarrow> True) \<and>
    (case map_of kvs ''result'' of Some v \<Rightarrow> \<exists>rs. v = JObject rs | None \<Rightarrow> True) \<and>
    (case map_of kvs ''occurred_at'' of Some v \<Rightarrow> \<exists>s. v = JString s \<and> date_time s | None \<Rightarrow> True)"
    unfolding body_parts numeral_2_eq_2 by (simp add: conforms.simps(2) [of date_time "Suc 0"] leaf_types del: conforms.simps cong: option.case_cong)
  then show ?thesis unfolding j by (auto split: option.splits)
next
  case False
  then have "\<not> has_type ''object'' j" by (cases j) simp_all
  with False show ?thesis unfolding body_parts numeral_2_eq_2 by simp
qed

text \<open>Every documented body is accepted, with the values that it names.\<close>

lemma documented_accepted:
  assumes "conforms date_time 2 body_schema (JObject kvs)" "\<And>s. date_time s \<Longrightarrow> parse_datetime (JString s) \<noteq> None"
  shows "\<exists>p. validate_payload parse_datetime (JObject kvs) = Some p \<and> map_of kvs ''job_id'' = Some (JString (wp_job_id p)) \<and>
    map_of kvs ''status'' = Some (JString (webhook_status_value (wp_status p))) \<and>
    (case map_of kvs ''result'' of None \<Rightarrow> wp_result p = [] | Some r \<Rightarrow> r = JObject (wp_result p))"
proof -
  from assms(1) obtain job st where j: "map_of kvs ''job_id'' = Some (JString job)"
      "map_of kvs ''status'' = Some (JString st)" "st \<in> {''completed'', ''failed''}"
      "case map_of kvs ''result'' of None \<Rightarrow> True | Some r \<Rightarrow> \<exists>rs. r = JObject rs"
      "case map_of kvs ''occurred_at'' of None \<Rightarrow> True | Some t \<Rightarrow> \<exists>s. t = JString s \<and> date_time s"
    unfolding conforms_body by auto
  obtain s where s: "webhook_status_of_value st = Some s" "webhook_status_value s = st"
    using j(3) webhook_status_codec.decode_encode [of COMPLETED] webhook_status_codec.decode_encode [of PARTNER_FAILED]
    by (auto simp: enum_simps)
  have "\<exists>t. parse_datetime (JString sa) = Some t" if "date_time sa" for sa using assms(2) [OF that] by auto
  with j(1,2,4,5) s show ?thesis
    by (cases "map_of kvs ''result''"; cases "map_of kvs ''occurred_at''") (fastforce simp: validate_payload_def)+
qed

end
