(* ===== verification/Observability.thy ===== *)
theory Observability
  imports PyText "HOL-Library.AList"
begin

section \<open>Logging (\<open>app/observability.py\<close>)\<close>

text \<open>
  A log record as \<open>JsonFormatter.format\<close> reads it: \<open>__dict__\<close> is a dict whose values stand for
  what \<open>json.dumps\<close> writes for them, \<open>default=str\<close> included. The text of the time and of an
  exception is the standard library's.
\<close>

record log_record =
  lr_time :: string
  lr_level :: string
  lr_logger :: string
  lr_message :: string
  lr_dict :: "(string \<times> json) list"
  lr_exception :: "string option"

text \<open>The attributes of \<open>logging.makeLogRecord({})\<close> and the three more.\<close>

definition RESERVED :: "string list" where
  "RESERVED = [''name'', ''msg'', ''args'', ''levelname'', ''levelno'', ''pathname'', ''filename'', ''module'', ''exc_info'',
     ''exc_text'', ''stack_info'', ''lineno'', ''funcName'', ''created'', ''msecs'', ''relativeCreated'', ''thread'',
     ''threadName'', ''processName'', ''process'', ''message'', ''asctime'', ''taskName'']"

text \<open>\<open>_ContextFilter.filter\<close>: the trace of the context, or null.\<close>

definition context_filter :: "string option \<Rightarrow> log_record \<Rightarrow> log_record" where
  "context_filter trace_id r = r\<lparr>lr_dict := AList.update ''trace_id''
     (case trace_id of None \<Rightarrow> JNull | Some t \<Rightarrow> JString t) (lr_dict r)\<rparr>"

definition context_key :: "string \<Rightarrow> json \<Rightarrow> bool" where
  "context_key key v \<longleftrightarrow> key \<notin> set RESERVED \<and> take 1 key \<noteq> ''_'' \<and> v \<noteq> JNull"

fun add_context :: "string \<times> json \<Rightarrow> (string \<times> json) list \<Rightarrow> (string \<times> json) list" where
  "add_context (key, v) out = (if context_key key v then AList.update key v out else out)"

definition log_fields :: "log_record \<Rightarrow> (string \<times> json) list" where
  "log_fields r =
     (let out = [(''timestamp'', JString (lr_time r)), (''level'', JString (lr_level r)), (''logger'', JString (lr_logger r)),
          (''message'', JString (lr_message r))];
        out = fold add_context (lr_dict r) out
      in case lr_exception r of None \<Rightarrow> out | Some t \<Rightarrow> AList.update ''exception'' (JString t) out)"

definition log_line :: "log_record \<Rightarrow> string" where
  "log_line r = json_dumps (JObject (log_fields r))"

lemma map_of_context:
  assumes "distinct (map fst kvs)"
  shows "map_of (fold add_context kvs out) k =
    (case map_of kvs k of Some v \<Rightarrow> if context_key k v then Some v else map_of out k | None \<Rightarrow> map_of out k)"
  using assms
proof (induction kvs arbitrary: out)
  case (Cons kv kvs)
  obtain key v where kv: "kv = (key, v)" by force
  have "key = k \<Longrightarrow> map_of kvs k = None" using Cons.prems kv by (auto simp: map_of_eq_None_iff)
  with Cons kv show ?case by (auto simp: update_conv' split: option.split)
qed simp

text \<open>What a log line says about a key of the context.\<close>

lemma log_fields_context:
  assumes "distinct (map fst (lr_dict r))" "map_of (lr_dict r) k = Some v" "context_key k v" "lr_exception r = None \<or> k \<noteq> ''exception''"
  shows "map_of (log_fields r) k = Some v"
  using assms by (auto simp: log_fields_def Let_def map_of_context update_conv' split: option.split)

lemma log_fields_hidden:
  assumes "distinct (map fst (lr_dict r))" "k \<notin> {''timestamp'', ''level'', ''logger'', ''message'', ''exception''}"
    and "\<And>v. map_of (lr_dict r) k = Some v \<Longrightarrow> \<not> context_key k v"
  shows "map_of (log_fields r) k = None"
  using assms(2,3) by (auto simp: log_fields_def Let_def map_of_context [OF assms(1)] update_conv' split: option.split)

lemma set_update_subset: "set (AList.update k v al) \<subseteq> insert (k, v) (set al)"
  by (induction al) auto

definition plain_items :: "(string \<times> json) list \<Rightarrow> bool" where
  "plain_items kvs \<longleftrightarrow> list_all (\<lambda>kv. plain_floats (snd kv)) kvs"

lemma plain_items_update: "plain_floats v \<Longrightarrow> plain_items kvs \<Longrightarrow> plain_items (AList.update k v kvs)"
  using set_update_subset [of k v kvs] by (auto simp: plain_items_def list_all_iff)

lemma plain_items_simps [simp]: "plain_items []" "plain_items (kv # kvs) \<longleftrightarrow> plain_floats (snd kv) \<and> plain_items kvs"
  by (simp_all add: plain_items_def)

lemma plain_items_context:
  "plain_items kvs \<Longrightarrow> plain_items out \<Longrightarrow>
    plain_items (fold add_context kvs out)"
  by (induction kvs arbitrary: out) (auto simp: plain_items_update)

lemma log_fields_plain: "plain_items (lr_dict r) \<Longrightarrow> plain_items (log_fields r)"
  unfolding log_fields_def Let_def
  by (cases "lr_exception r") (simp_all only: option.case plain_items_context plain_items_update plain_items_simps plain_floats.simps snd_conv simp_thms)

text \<open>One JSON object per line: the line is printable ASCII, whatever the message holds.\<close>

lemma log_line_printable:
  assumes "plain_items (lr_dict r)" "c \<in> set (log_line r)"
  shows "printable c"
  using printable_json_dumps [of "JObject (log_fields r)" c] log_fields_plain [OF assms(1)] assms(2)
  by (simp add: log_line_def plain_items_def list_all_iff)

end
