(* ===== verification/Logs.thy ===== *)
theory Logs
  imports Observability
begin

section \<open>Who writes which log line (\<open>app/observability.py\<close>, \<open>app/main.py\<close>)\<close>

text \<open>
  The logging of a process: its root logger, which is the only one that the program gives handlers
  and a level, and the trace id of each context (a request, or a worker's or the reaper's thread;
  \<open>ContextVar\<close>). A handler that something else has installed is known by its name; \<open>foreign\<close> is
  what it writes. The middleware \<open>add_trace_id\<close> and the workers' callback give each request and each
  message a new id. \<open>log_run\<close> interleaves the contexts.
\<close>

datatype log_handler = JsonHandler | ForeignHandler string

record logging =
  trace_ids :: "nat \<Rightarrow> string option"
  root_handlers :: "log_handler list"
  root_level :: nat

text \<open>\<open>set_trace_id\<close>, in the context \<open>t\<close>.\<close>

definition set_trace_id :: "nat \<Rightarrow> string option \<Rightarrow> logging \<Rightarrow> logging" where
  "set_trace_id t v lg = lg\<lparr>trace_ids := (trace_ids lg)(t := v)\<rparr>"

definition level_number :: "string \<Rightarrow> nat option" where
  "level_number = map_of [(''CRITICAL'', 50), (''ERROR'', 40), (''WARNING'', 30), (''INFO'', 20), (''DEBUG'', 10), (''NOTSET'', 0)]"

text \<open>\<open>configure_logging\<close>: the handlers are replaced before \<open>setLevel\<close> refuses an unknown name.\<close>

definition configure_logging :: "string \<Rightarrow> logging \<Rightarrow> (pyexn + unit) \<times> logging" where
  "configure_logging level lg =
     (let lg1 = lg\<lparr>root_handlers := [JsonHandler]\<rparr> in
      case level_number level of
        None \<Rightarrow> (Inl (Exn ''ValueError'' (''Unknown level: '' @ level)), lg1)
      | Some n \<Rightarrow> (Inr (), lg1\<lparr>root_level := n\<rparr>))"

text \<open>One call of a logger: every handler of the root writes one line, when the level is high enough.\<close>

definition enabled_for :: "nat \<Rightarrow> log_record \<Rightarrow> bool" where
  "enabled_for threshold r \<longleftrightarrow> (case level_number (lr_level r) of None \<Rightarrow> False | Some n \<Rightarrow> threshold \<le> n)"

definition log_lines :: "(string \<Rightarrow> log_record \<Rightarrow> string) \<Rightarrow> logging \<Rightarrow> nat \<Rightarrow> log_record \<Rightarrow> string list" where
  "log_lines foreign lg t r =
     (if enabled_for (root_level lg) r
      then map (\<lambda>h. case h of JsonHandler \<Rightarrow> log_line (context_filter (trace_ids lg t) r)
                            | ForeignHandler name \<Rightarrow> foreign name r) (root_handlers lg)
      else [])"

text \<open>The middleware: the id is set in the request's context, then the request is handled.\<close>

definition add_trace_id :: "nat \<Rightarrow> uuid \<Rightarrow> (logging \<Rightarrow> 'r \<times> logging) \<Rightarrow> logging \<Rightarrow> 'r \<times> logging" where
  "add_trace_id t u call_next lg = call_next (set_trace_id t (Some (uuid_hex u)) lg)"

datatype log_step = Begins nat uuid | Logs nat log_record

fun context_of :: "log_step \<Rightarrow> nat" where
  "context_of (Begins t u) = t"
| "context_of (Logs t r) = t"

fun log_run :: "(string \<Rightarrow> log_record \<Rightarrow> string) \<Rightarrow> logging \<Rightarrow> log_step list \<Rightarrow> (nat \<times> string) list" where
  "log_run foreign lg [] = []"
| "log_run foreign lg (Begins t u # xs) = log_run foreign (snd (add_trace_id t u (Pair ()) lg)) xs"
| "log_run foreign lg (Logs t r # xs) = map (Pair t) (log_lines foreign lg t r) @ log_run foreign lg xs"

subsection \<open>The contexts do not see each other\<close>

lemma log_run_own:
  assumes "trace_ids lg t = trace_ids lg' t" "root_handlers lg = root_handlers lg'" "root_level lg = root_level lg'"
  shows "filter (\<lambda>l. fst l = t) (log_run foreign lg xs) = log_run foreign lg' (filter (\<lambda>s. context_of s = t) xs)"
  using assms
proof (induction xs arbitrary: lg lg')
  case (Cons x xs)
  show ?case
  proof (cases x)
    case (Begins t' u)
    with Cons show ?thesis by (auto simp: add_trace_id_def set_trace_id_def)
  next
    case (Logs t' r)
    have "filter (\<lambda>l. fst l = t) (map (Pair t') (log_lines foreign lg t' r)) = (if t' = t then map (Pair t') (log_lines foreign lg t' r) else [])"
      by (auto simp: filter_map comp_def)
    moreover have "log_lines foreign lg t r = log_lines foreign lg' t r" using Cons.prems by (simp add: log_lines_def)
    ultimately show ?thesis using Cons Logs by auto
  qed
qed simp

lemma log_run_records:
  assumes "root_handlers lg = [JsonHandler]"
  shows "log_run foreign lg (map (Logs t) rs) =
    map (\<lambda>r. (t, log_line (context_filter (trace_ids lg t) r))) (filter (enabled_for (root_level lg)) rs)"
  by (induction rs) (simp_all add: log_lines_def assms)

lemma trace_id_logged:
  assumes "distinct (map fst (lr_dict r))"
  shows "map_of (log_fields (context_filter (Some i) r)) ''trace_id'' = Some (JString i)"
proof (rule log_fields_context)
  show "distinct (map fst (lr_dict (context_filter (Some i) r)))"
    using assms by (simp add: context_filter_def distinct_update)
  show "map_of (lr_dict (context_filter (Some i) r)) ''trace_id'' = Some (JString i)"
    by (simp add: context_filter_def update_conv')
  show "context_key ''trace_id'' (JString i)"
    by (simp add: context_key_def RESERVED_def)
qed simp

lemma trace_line_printable:
  assumes "plain_items (lr_dict r)" "c \<in> set (log_line (context_filter (Some i) r))"
  shows "printable c"
  by (rule log_line_printable [OF _ assms(2)]) (simp add: context_filter_def plain_items_update assms(1))

end
