(* ===== verification/BaseGuarantees.thy ===== *)
theory BaseGuarantees
  imports DemoLibraries Seed Schema WebhookDocs Logs
begin

section \<open>What the program rests on\<close>

text \<open>
  The properties of the foundations: the dependency graph, the schema, the documented formats, the
  seed, the configuration, the size of notifications and the log lines.
\<close>

subsection \<open>The dependency graph\<close>

text \<open>
  C38: \<open>DependencyGraph\<close> accepts exactly the well-formed graphs: those whose predecessors are all
  nodes and whose edges have no cycle; every other dict is refused with a \<open>ValueError\<close>. Kahn's
  loop always ends.
\<close>

theorem graphs_are_validated_exactly:
  assumes "distinct (nodes g)"
  shows "dependency_graph_init g = (if (\<forall>(c, ps) \<in> set g. ps \<subseteq> set (nodes g)) \<and> acyclic {(p, c). \<exists>ps. (c, ps) \<in> set g \<and> p \<in> ps}
    then Inr g
    else Inl (Exn ''ValueError'' (if \<forall>(c, ps) \<in> set g. ps \<subseteq> set (nodes g) then ''dependency graph has a cycle'' else ''depends on unknown nodes'')))"
proof -
  have valid: "validate g = Inr () \<longleftrightarrow> (\<forall>(c, ps) \<in> set g. ps \<subseteq> set (nodes g)) \<and> acyclic {(p, c). \<exists>ps. (c, ps) \<in> set g \<and> p \<in> ps}"
    using validate_ok_iff [OF assms] by (simp add: closed_graph_def edges_def)
  show ?thesis
  proof (cases "validate g = Inr ()")
    case True
    with valid show ?thesis by (simp add: dependency_graph_init_def)
  next
    case False
    moreover from False have "validate g = Inl (Exn ''ValueError'' (if \<forall>(c, ps) \<in> set g. ps \<subseteq> set (nodes g)
        then ''dependency graph has a cycle'' else ''depends on unknown nodes''))"
      unfolding validate_def by (auto split: if_splits)
    ultimately show ?thesis using valid by (simp only: dependency_graph_init_def bind_result_simps if_False)
  qed
qed

theorem graphs_are_validated_exactly_witness:
  "dependency_graph_init [(''a'', {''b''}), (''b'', {''a''})] = Inl (Exn ''ValueError'' ''dependency graph has a cycle'')"
proof -
  have "(''a'', ''a'') \<in> {(p, c). \<exists>ps. (c, ps) \<in> set [(''a'', {''b''}), (''b'', {''a''})] \<and> p \<in> ps}\<^sup>+"
    by (rule trancl_trans [of _ "''b''"]) auto
  then have "\<not> acyclic {(p, c). \<exists>ps. (c, ps) \<in> set [(''a'', {''b''}), (''b'', {''a''})] \<and> p \<in> ps}"
    unfolding acyclic_def by blast
  with graphs_are_validated_exactly [of "[(''a'', {''b''}), (''b'', {''a''})]"] show ?thesis by (simp add: nodes_def)
qed

text \<open>
  Driving an accepted graph never gets stuck: as long as some node is not done, some node is
  ready, and what is ready is exactly what is not done and has all its predecessors done.
\<close>

theorem accepted_graphs_never_get_stuck:
  assumes "distinct (nodes g)" "dependency_graph_init g = Inr h" "done_set \<subset> set (nodes g)"
  shows "h = g \<and> ready_successors g done_set \<noteq> [] \<and>
    (\<forall>n. n \<in> set (ready_successors g done_set) \<longleftrightarrow> n \<in> set (nodes g) \<and> n \<notin> done_set \<and> the (predecessors_of g n) \<subseteq> done_set)"
proof -
  from assms(2) have valid: "validate g = Inr ()" and h: "h = g"
    by (simp_all add: dependency_graph_init_def) (cases "validate g"; simp)+
  have "closed_graph g" "acyclic (edges g)" using validate_ok_iff [OF assms(1)] valid by simp_all
  from wf_minimal_missing [OF assms(1) this assms(3)] obtain n where "n \<in> set (ready_successors g done_set)"
    by (auto simp: ready_successors_iff [OF assms(1)])
  then have "ready_successors g done_set \<noteq> []" by auto
  with h ready_successors_iff [OF assms(1)] show ?thesis by (simp add: predecessors_of_def)
qed

theorem accepted_graphs_never_get_stuck_witness: "ready_successors PREDECESSORS {OCR} \<noteq> []"
proof -
  have "distinct (nodes PREDECESSORS)" "{OCR} \<subset> set (nodes PREDECESSORS)" by (auto simp: PREDECESSORS_def nodes_def)
  moreover have "dependency_graph_init PREDECESSORS = Inr PREDECESSORS" by (simp add: dependency_graph_init_def validate_PREDECESSORS)
  ultimately show ?thesis using accepted_graphs_never_get_stuck by blast
qed

subsection \<open>The schema\<close>

text \<open>
  The migration builds the schema of the models, tables, columns, keys, constraints and indexes
  alike, up to the server-side defaults of columns (\<open>attempts\<close> has the default 0 in the migration and
  none in the models), and its reversal, run afterwards, removes all of it again; neither fails on the way.
\<close>

lemma migration_builds_the_models:
  "map_option without_defaults (apply_ops upgrade empty_schema) = Some (without_defaults models_schema) \<and>
    Option.bind (apply_ops upgrade empty_schema) (apply_ops downgrade) = Some empty_schema"
  using upgrade_result downgrade_result by blast

text \<open>
  The constraints that the schema declares, read as conditions on the rows, are exactly the
  well-formedness condition that the rest of the development maintains, and the primary key of the
  audit table.
\<close>

theorem constraints_mean_well_formedness:
  "satisfies models_schema db \<longleftrightarrow> schema_ok db \<and> distinct (map wh_id (webhook_events db))"
  by (rule satisfies_models_schema)

subsection \<open>Documented formats\<close>

text \<open>
  The webhook accepts what its documentation promises: every body that conforms to the
  published JSON Schema is accepted with the job, the status and the result that it names, and the
  published example conforms.
\<close>

theorem documented_bodies_are_accepted:
  assumes "\<And>s. date_time s \<Longrightarrow> parse_datetime (JString s) \<noteq> None"
    and "j = WEBHOOK_BODY_EXAMPLE \<and> date_time ''2026-06-06T06:06:06Z'' \<or> conforms date_time 2 body_schema j"
  shows "\<exists>kvs p. j = JObject kvs \<and> validate_payload parse_datetime j = Some p \<and> map_of kvs ''job_id'' = Some (JString (wp_job_id p)) \<and>
    map_of kvs ''status'' = Some (JString (webhook_status_value (wp_status p))) \<and>
    (case map_of kvs ''result'' of None \<Rightarrow> wp_result p = [] | Some r \<Rightarrow> r = JObject (wp_result p))"
proof -
  have conf: "conforms date_time 2 body_schema j" using assms(2) example_conforms by blast
  then obtain kvs where "j = JObject kvs" unfolding conforms_body by blast
  with documented_accepted [where parse_datetime = parse_datetime and date_time = date_time and kvs = kvs] conf assms(1) show ?thesis by blast
qed

theorem documented_bodies_are_accepted_witness:
  "\<exists>p. validate_payload (\<lambda>_. Some 0) WEBHOOK_BODY_EXAMPLE = Some p \<and> wp_job_id p = ''j_abc123def4567890''"
  using documented_bodies_are_accepted [of "\<lambda>_. True" "\<lambda>_. Some 0" WEBHOOK_BODY_EXAMPLE]
  by (auto simp: WEBHOOK_BODY_EXAMPLE_def)

subsection \<open>Seed and configuration\<close>

text \<open>
  The seed is idempotent: it succeeds on every well-formed database, afterwards all its
  organizations and users exist, and running it again, with any keys, changes nothing.
\<close>

theorem seeding_is_idempotent:
  assumes "clean w" "schema_ok (committed w)" "fresh_keys org_ids user_ids SEED (committed w)" "w' = snd (seed org_ids user_ids w)"
  shows "fst (seed org_ids user_ids w) = Inr () \<and>
    (\<forall>(name, email) \<in> set SEED. has_organization name (committed w') \<and> has_user email (committed w')) \<and>
    schema_ok (committed w') \<and> documents (committed w') = documents (committed w) \<and>
    fst (seed org_ids2 user_ids2 w') = Inr () \<and> committed (snd (seed org_ids2 user_ids2 w')) = committed w'"
proof -
  note res = seed_result [OF assms(1-3), folded assms(4)]
  have "seed org_ids2 user_ids2 w' = (Inr (), commit w')" by (rule seed_again [OF res(2-4)])
  moreover have "working w' = committed w'" using res(2) by (simp add: clean_def)
  ultimately show ?thesis using res by simp
qed

definition demo_keys :: "string \<Rightarrow> uuid" where
  "demo_keys s = (if s \<in> {''Acme'', ''alice@acme.example''} then 21 else 22)"

theorem seeding_is_idempotent_witness:
  "committed (snd (seed demo_keys demo_keys (snd (seed demo_keys demo_keys demo_world)))) = committed (snd (seed demo_keys demo_keys demo_world))"
proof -
  have "fresh_keys demo_keys demo_keys SEED (committed demo_world)"
    by (simp add: fresh_keys_def SEED_def demo_keys_def demo_db_def demo_user_def)
  with seeding_is_idempotent [OF _ _ _ refl, of demo_world demo_keys demo_keys demo_keys demo_keys] demo_schema show ?thesis by simp
qed

text \<open>The assignments of a \<open>.env\<close> file, in order.\<close>

definition line_assignment :: "string \<Rightarrow> (string \<times> string) list" where
  "line_assignment raw = (let line = strip raw in
     if line = [] \<or> hd line = CHR ''#'' \<or> CHR ''='' \<notin> set line then []
     else [map_prod strip strip (partition_at (CHR ''='') line)])"

lemma map_of_setdefault: "map_of (setdefault env k v) n = (case map_of env n of Some u \<Rightarrow> Some u | None \<Rightarrow> if n = k then Some v else None)"
  by (auto simp: setdefault_def map_add_def split: option.splits)

lemma map_of_dotenv_line:
  "map_of (dotenv_line raw env) n = (case map_of env n of Some u \<Rightarrow> Some u | None \<Rightarrow> map_of (line_assignment raw) n)"
  by (auto simp: dotenv_line_def line_assignment_def Let_def map_of_setdefault split: option.split prod.split)

lemma map_of_dotenv_lines:
  "map_of (fold dotenv_line lines env) n = (case map_of env n of Some u \<Rightarrow> Some u | None \<Rightarrow> map_of (concat (map line_assignment lines)) n)"
  by (induction lines arbitrary: env) (auto simp: map_of_dotenv_line map_add_def split: option.splits)

text \<open>
  The environment wins over the \<open>.env\<close> file: a variable that is set keeps its value; one that
  is not gets the value of the file's first assignment to it, with comments and malformed lines
  ignored, and stays unset when there is none.
\<close>

theorem environment_wins_over_dotenv:
  "map_of (load_dotenv file env) n = (case map_of env n of Some v \<Rightarrow> Some v
    | None \<Rightarrow> (case file of None \<Rightarrow> None | Some t \<Rightarrow> map_of (concat (map line_assignment (splitlines t))) n))"
  by (auto simp: load_dotenv_def map_of_dotenv_lines split: option.split)

text \<open>The environment that spells out the given settings.\<close>

definition settings_environment :: "settings \<Rightarrow> environment" where
  "settings_environment cfg =
     [(''ENV'', env_name cfg), (''DATABASE_URL'', database_url cfg), (''RABBITMQ_URL'', rabbitmq_url cfg), (''JWT_SECRET'', jwt_secret cfg),
      (''JWT_ALGORITHM'', jwt_algorithm cfg), (''JWT_EXPIRE_MINUTES'', str_int (jwt_expire_minutes cfg)),
      (''JWT_LEEWAY_SECONDS'', str_int (jwt_leeway_seconds cfg)), (''PARTNER_HMAC_SECRET'', partner_hmac_secret cfg),
      (''STEP_MAX_ATTEMPTS'', str_int (step_max_attempts cfg)), (''STEP_TIMEOUT_SECONDS'', str_int (step_timeout_seconds cfg)),
      (''CALLBACK_SLA_SECONDS'', str_int (callback_sla_seconds cfg)), (''REAPER_INTERVAL_SECONDS'', str_int (reaper_interval_seconds cfg)),
      (''STORAGE_DIR'', storage_dir cfg)]"

lemma secret_get_int_text: "map_of env name = Some (str_int i) \<Longrightarrow> secret_get_int env name dflt = Inr i"
proof -
  have "str_int i \<noteq> []" using str_nat_nonempty by (simp add: str_int_def)
  then show "map_of env name = Some (str_int i) \<Longrightarrow> ?thesis"
    by (simp add: secret_get_int_def secret_get_def py_int_str_int)
qed

lemma get_text_text: "map_of env name = Some v \<Longrightarrow> v \<noteq> [] \<Longrightarrow> get_text env name dflt = v"
  by (simp add: get_text_def secret_get_def)

text \<open>
  Settings round-trip through the environment: the settings read from an environment that
  spells out some settings, numbers in decimal, negative ones included, are these settings.
\<close>

theorem settings_round_trip:
  assumes "[] \<notin> {env_name cfg, database_url cfg, rabbitmq_url cfg, jwt_secret cfg, jwt_algorithm cfg, partner_hmac_secret cfg, storage_dir cfg}"
  shows "settings_init (settings_environment cfg) = Inr cfg"
proof -
  have ints: "secret_get_int (settings_environment cfg) ''JWT_EXPIRE_MINUTES'' 720 = Inr (jwt_expire_minutes cfg)"
    "secret_get_int (settings_environment cfg) ''JWT_LEEWAY_SECONDS'' 30 = Inr (jwt_leeway_seconds cfg)"
    "secret_get_int (settings_environment cfg) ''STEP_MAX_ATTEMPTS'' 5 = Inr (step_max_attempts cfg)"
    "secret_get_int (settings_environment cfg) ''STEP_TIMEOUT_SECONDS'' 60 = Inr (step_timeout_seconds cfg)"
    "secret_get_int (settings_environment cfg) ''CALLBACK_SLA_SECONDS'' 900 = Inr (callback_sla_seconds cfg)"
    "secret_get_int (settings_environment cfg) ''REAPER_INTERVAL_SECONDS'' 15 = Inr (reaper_interval_seconds cfg)"
    by (rule secret_get_int_text, simp add: settings_environment_def)+
  have texts: "get_text (settings_environment cfg) ''ENV'' a = env_name cfg" "get_text (settings_environment cfg) ''DATABASE_URL'' a = database_url cfg"
    "get_text (settings_environment cfg) ''RABBITMQ_URL'' a = rabbitmq_url cfg" "get_text (settings_environment cfg) ''JWT_SECRET'' a = jwt_secret cfg"
    "get_text (settings_environment cfg) ''JWT_ALGORITHM'' a = jwt_algorithm cfg"
    "get_text (settings_environment cfg) ''PARTNER_HMAC_SECRET'' a = partner_hmac_secret cfg"
    "get_text (settings_environment cfg) ''STORAGE_DIR'' a = storage_dir cfg" for a
    by (rule get_text_text; use assms in \<open>simp add: settings_environment_def eq_commute\<close>)+
  show ?thesis unfolding settings_init_def ints texts by simp
qed

theorem settings_round_trip_witness:
  "settings_init (settings_environment (default_settings\<lparr>step_max_attempts := 7, jwt_leeway_seconds := - 1\<rparr>)) =
    Inr (default_settings\<lparr>step_max_attempts := 7, jwt_leeway_seconds := - 1\<rparr>)"
  by (rule settings_round_trip)
    (simp add: default_settings_def settings_init_def secret_get_int_def secret_get_def get_text_def)

subsection \<open>Sizes\<close>

text \<open>
  Notifications fit: the text of every event that the program sends, in bytes, stays below the
  8000 that PostgreSQL allows for a notification.
\<close>

theorem notifications_fit:
  assumes "ordinary e"
  shows "length (utf8_encode (notify_text d e)) < 8000"
proof -
  have plain: "plain_floats (notify_payload d e)"
    unfolding ordinary_payload [OF assms] using assms by (auto simp: ordinary_def step_event_def doc_status_event_def)
  have "\<forall>c \<in> set (notify_text d e). (of_char c :: nat) < 128"
  proof
    fix c assume "c \<in> set (notify_text d e)"
    with printable_json_dumps [OF plain, of c] have "(of_char c :: nat) < 127" by (simp add: notify_text_def printable_def)
    then show "(of_char c :: nat) < 128" by linarith
  qed
  then have ascii: "utf8_encode (notify_text d e) = notify_text d e" by (rule utf8_encode_ascii)
  have names: "length (step_name_value s) \<le> 20" "length (step_status_value st) \<le> 20" "length (document_status_value ds) \<le> 20" for s st ds
    by (cases s; cases st; cases ds; simp add: enum_simps)+
  have keys: "length KEY_DOCUMENT_ID \<le> 20" "length KEY_STEP \<le> 20" "length KEY_STATUS \<le> 20" "length KEY_DOC_STATUS \<le> 20"
    by (simp_all add: key_defs)
  have bound: "length (json_string s) \<le> 6 * 36 + 2" if "length s \<le> 36" for s
    using length_json_string [of s] that by linarith
  from assms consider s st where "e = step_event s st" | ds where "e = doc_status_event ds" unfolding ordinary_def by blast
  then have "length (notify_text d e) < 8000"
  proof cases
    case 1
    show ?thesis unfolding 1 notify_text_eq
      using bound [of "step_name_value s"] bound [of "step_status_value st"] bound [of "uuid_str d"] bound [of KEY_DOCUMENT_ID] bound [of KEY_STEP]
        bound [of KEY_STATUS] names(1) [of s] names(2) [of st] keys by simp
  next
    case 2
    show ?thesis unfolding 2 notify_text_eq
      using bound [of "document_status_value ds"] bound [of "uuid_str d"] bound [of KEY_DOCUMENT_ID] bound [of KEY_DOC_STATUS] names(3) [of ds] keys by simp
  qed
  with ascii show ?thesis by simp
qed

theorem notifications_fit_witness: "length (utf8_encode (notify_text 7 (step_event EXTERNAL_CALL AWAITING_CALLBACK))) < 8000"
  by (rule notifications_fit) (auto simp: ordinary_def)

subsection \<open>Logs\<close>

text \<open>
  C40: Log lines can be told apart. Once \<open>configure_logging\<close> has run, whatever had been set up before
  (an earlier call of it included), and however the requests and messages of the process
  interleave: the lines that the records of one request give are exactly one line for each
  record of level INFO or above, in order, made with this request's own trace id; each of them is one
  line of printable ASCII, and the JSON object on it has the trace id.
\<close>

theorem log_lines_carry_their_trace:
  assumes "configure_logging ''INFO'' lg0 = (Inr (), lg)"
    and "filter (\<lambda>s. context_of s = t) xs = Begins t u # map (Logs t) rs"
    and "\<forall>r \<in> set rs. distinct (map fst (lr_dict r)) \<and> plain_items (lr_dict r)"
  shows "filter (\<lambda>l. fst l = t) (log_run other lg xs) =
      map (\<lambda>r. (t, log_line (context_filter (Some (uuid_hex u)) r))) (filter (enabled_for 20) rs) \<and>
    (\<forall>r \<in> set rs. map_of (log_fields (context_filter (Some (uuid_hex u)) r)) ''trace_id'' = Some (JString (uuid_hex u)) \<and>
      (\<forall>c \<in> set (log_line (context_filter (Some (uuid_hex u)) r)). printable c))"
proof
  from assms(1) have lg: "root_handlers lg = [JsonHandler]" "root_level lg = 20"
    by (auto simp: configure_logging_def level_number_def Let_def)
  show "filter (\<lambda>l. fst l = t) (log_run other lg xs) =
      map (\<lambda>r. (t, log_line (context_filter (Some (uuid_hex u)) r))) (filter (enabled_for 20) rs)"
    using lg by (simp add: log_run_own [OF refl refl refl] assms(2) add_trace_id_def set_trace_id_def log_run_records)
  show "\<forall>r \<in> set rs. map_of (log_fields (context_filter (Some (uuid_hex u)) r)) ''trace_id'' = Some (JString (uuid_hex u)) \<and>
      (\<forall>c \<in> set (log_line (context_filter (Some (uuid_hex u)) r)). printable c)"
    using assms(3) trace_id_logged trace_line_printable by blast
qed

definition demo_record :: "string \<Rightarrow> log_record" where
  "demo_record level = \<lparr>lr_time = ''12:00'', lr_level = level, lr_logger = ''app'', lr_message = ''step done'',
     lr_dict = [(''step'', JString ''ocr'')], lr_exception = None\<rparr>"

theorem log_lines_carry_their_trace_witness:
  "filter (\<lambda>l. fst l = 1) (log_run (\<lambda>n r. n) \<lparr>trace_ids = Map.empty, root_handlers = [JsonHandler], root_level = 20\<rparr>
      [Begins 1 7, Begins 2 8, Logs 1 (demo_record ''DEBUG''), Logs 2 (demo_record ''INFO''), Logs 1 (demo_record ''INFO'')]) =
    [(1, log_line (context_filter (Some (uuid_hex 7)) (demo_record ''INFO'')))]"
proof -
  have "filter (enabled_for 20) [demo_record ''DEBUG'', demo_record ''INFO''] = [demo_record ''INFO'']"
    by (simp add: enabled_for_def level_number_def demo_record_def)
  with log_lines_carry_their_trace [where ?lg0.0 = "\<lparr>trace_ids = Map.empty, root_handlers = [ForeignHandler ''old''], root_level = 30\<rparr>"
      and lg = "\<lparr>trace_ids = Map.empty, root_handlers = [JsonHandler], root_level = 20\<rparr>" and t = 1 and u = 7
      and rs = "[demo_record ''DEBUG'', demo_record ''INFO'']" and other = "\<lambda>n r. n"
      and xs = "[Begins 1 7, Begins 2 8, Logs 1 (demo_record ''DEBUG''), Logs 2 (demo_record ''INFO''), Logs 1 (demo_record ''INFO'')]"]
  show ?thesis by (simp add: configure_logging_def level_number_def demo_record_def)
qed

end
