(* ===== verification/Spec2Isabelle.thy ===== *)
theory Spec2Isabelle
  imports OverlapGuarantees ConcurrentGuarantees WebGuarantees BaseGuarantees
begin

text \<open>
  This library models the backend of the document pipeline: an authenticated user uploads a file
  into the space of an organization; four steps run on it (OCR, then metadata and chunking, then
  the call of an external partner); the partner answers by a signed webhook; the document ends
  READY or FAILED, and its users read its progress and its data. All durable state is in one
  database; the message broker only carries messages that can be lost or doubled.

  \<^bold>\<open>How the program's parts interact.\<close> The API stores an upload with its four step rows, commits, and
  publishes a message for the first step. A worker takes a message, runs the step in up to five
  transactions (RUNNING; DONE, AWAITING_CALLBACK, QUEUED again or ERROR; the claims of the
  successors, each followed by its message; the status of the document) and answers the broker.
  The reaper publishes the stale QUEUED steps again and fails the calls whose callback never came.
  The webhook finishes the last step. Every commit carries NOTIFYs; the listener thread of each API
  process hands them to the queues of the clients that follow the document.

  \<^bold>\<open>Theories of the code\<close>, from the bottom:
  \<^item> Prelude, PyText: exceptions as values, rows and dicts, and the parts of Python's text
    functions that the program relies on (\<open>str(uuid)\<close>, \<open>json.dumps\<close>, \<open>lower\<close>).
  \<^item> Models (\<open>app/models.py\<close>, \<open>app/enums.py\<close>): the enums and one record per table, the
    database as the lists of its rows, and \<open>schema_ok\<close> for its constraints. Schema
    (\<open>migrations/versions/0001_initial.py\<close>): the operations of the migration on a schema value,
    and the schema that the models declare.
  \<^item> Session (\<open>app/db.py\<close>, \<open>events/notify.py\<close>: \<open>emit_event\<close>, and the payloads): the \<open>world\<close> that one
    operation sees, with its open transaction, the queued NOTIFYs, and the \<open>trace\<close> of everything
    that became visible (commits with the database they left, and published messages). Queries
    (\<open>app/transactions.py\<close>): the functions of the data-access module.
  \<^item> Config (\<open>app/secrets.py\<close>, \<open>app/config.py\<close>), Storage (\<open>app/storage.py\<close>), Broker
    (\<open>worker/broker.py\<close>, \<open>pipeline/publisher.py\<close>), Dag (\<open>pipeline/dag.py\<close>), StepFunctions
    (\<open>pipeline/steps.py\<close>), Transition (\<open>pipeline/transition.py\<close>), Handlers
    (\<open>pipeline/handlers.py\<close>), Worker (\<open>worker/main.py\<close>), Reaper (\<open>worker/reaper.py\<close>): one group of
    definitions per module, with the names of the source.
  \<^item> Documents and Listing (\<open>api/routes_impl/documents.py\<close>, \<open>api/documents.py\<close>), Cursors
    (\<open>app/pagination.py\<close>), Webhooks (\<open>app/webhook_security.py\<close>, \<open>api/webhooks.py\<close>,
    \<open>api/routes_impl/webhooks.py\<close>, \<open>api/dev.py\<close>), WebhookDocs (the schema that
    \<open>app/schemas.py\<close> publishes for it), Auth (\<open>app/auth.py\<close>, \<open>api/routes_impl/auth.py\<close>), EventBus
    (the \<open>EventBroker\<close> of \<open>events/notify.py\<close>), EventStreams (\<open>api/events.py\<close>), Application
    (\<open>app/main.py\<close>: the routes with their authentication), Seed (\<open>app/seed.py\<close>), Observability
    (\<open>app/observability.py\<close>: the filter and the formatter) and Logs (the set-up of logging there, and
    the middleware of \<open>app/main.py\<close>).

  \<^bold>\<open>Theories about it.\<close> Lifecycle states the contract: the state machine of a step row
  (\<open>step_move\<close>), one committed transaction of the program (\<open>tx_step\<close>), the database invariant
  \<open>pipeline_ok\<close>, and the interface \<open>pipeline_operation\<close> of an operation whose visible effects are
  such transactions. RefineWorker and RefineEntry prove that the worker's callback, the scan, the
  webhook and the upload satisfy it. DocumentStatus adds that each leaves the document's status
  synchronised. SystemRuns composes them: \<open>reachable\<close> states are those of any sequence of
  operations, in which an operation may die after any of its visible effects, the broker may
  refuse any message, deliver one again or drop it, and the clock is arbitrary. Outcomes,
  Announcements, Progress, Pathways, Retries, Stranding, Scans, Acknowledgements, Uploads and
  Journeys say what happens on single paths. Demo and DemoLibraries hold a concrete deployment,
  on which every property with a hypothesis is applied once.

  \<^bold>\<open>Several workers at a time.\<close> Turns cuts \<open>handle\<close> where it reads the database, commits or
  publishes: \<open>phase\<close> says where a worker stands and what its variables hold, \<open>turn\<close> goes on to the
  next such point, and a worker alone does in turns what \<open>handle\<close> does. Cluster lets any number of
  workers take messages, turns and leave, or die, in any order (\<open>schedule\<close>); ClusterInvariant
  proves what no schedule can break (\<open>cluster_ok\<close>: the database invariant, what each worker may
  rely on at its phase, and at most one message for each step), and FanIn what a schedule
  without deaths and broker failures achieves: as long as a step is ready and PENDING, or a
  document's status is out of date, some worker is about to see to it. Traffic adds uploads and
  partner calls between the workers' turns (\<open>activities\<close>): they touch no row that a worker holds
  (\<open>outside\<close>), so all of this stays true. Draining measures the work that is left (\<open>workload\<close>: the
  tries of the steps pay for messages, and messages for turns) and shows that every action uses some
  of it up. Duplicates runs two workers with messages for the same step. ConcurrentGuarantees holds
  the properties.

  \<^bold>\<open>Everything at a time.\<close> CallTurns cuts \<open>apply_partner_result\<close> and ScanTurns \<open>run_once\<close> in the same way;
  a scan's phase also says which rows it has locked (\<open>FOR UPDATE\<close>, until its next commit).
  Overlap lets workers, scans, partner calls and uploads take turns in any order (\<open>happen\<close>,
  \<open>overlaps\<close>): a turn that updates a locked row waits, a scan skips the rows that another one has
  locked, messages may be duplicated and any process may die. The processes now write over each
  other's rows, so \<open>pipeline_ok\<close> is lost; Interference states what each turn guarantees nevertheless
  (\<open>moves\<close>) and what the rows in the processes' memory may rely on (\<open>tracks\<close>), and Overlap that every
  run keeps both (\<open>overlap_ok\<close>, \<open>history\<close>). Overwrites follows the runs in which a partner's answer
  is lost. Finality and AnsweredJobs state what stays nevertheless: a row is only overwritten by a process
  that has read it before (\<open>remembered\<close>), so finished rows, final documents and answered jobs that no
  process remembers otherwise last for ever. OverlapGuarantees holds the properties.

  \<^bold>\<open>Properties.\<close> ConcurrentGuarantees holds C2, C4, C5, C10 and C18, on concurrent workers;
  OverlapGuarantees C3, C6, C9, C15, C16, C19 and C30, on everything at a time; this theory the other ones
  up to C26, and C39, on the system whose operations run one after the other, and on single
  operations; WebGuarantees the other ones from C27 to C37, on the interfaces; BaseGuarantees C38 and
  C40, on the foundations, and further theorems on the graph, the schema, the documented formats, the seed
  and the settings. C7, in particular, is about operations one after the other and without crashes, and
  C1, C8, C17 and C26 about operations one after the other with crashes; what is left of them when
  everything overlaps is in the properties of OverlapGuarantees.

  \<^bold>\<open>Interfaces\<close>, each with its interpretation on the code's definitions: \<open>text_codec\<close> (enum values,
  decimal numbers, base64, UUIDs), \<open>dependency_graph\<close> (the pipeline's graph), \<open>keyset\<close> (the page
  query), \<open>pipeline_operation\<close> and \<open>synced_operation\<close> (the four operations that write), \<open>lasting\<close> (a fact
  that no turn of any process ends: finished rows, final documents, answered jobs).

  \<^bold>\<open>Parameters.\<close> What is not code of the repository is an argument: the digest of HMAC-SHA256, the
  JSON and pydantic parsers, the text form of dates, which dates the database takes in a query
  (\<open>binds\<close>; PostgreSQL refuses UTC offsets from 16 hours on), the token library (with its contract
  \<open>jwt_library\<close>, for HMAC algorithms and secrets that are no key files), \<open>os.path.abspath\<close>, the digits outside ASCII, the random draws of the step
  functions, the new primary keys, and the outcomes of connection attempts (\<open>faults\<close>).

  \<^bold>\<open>Bounds.\<close> The walk over the pages takes the number of documents plus one as fuel, since each page
  that has a successor takes at least one document. A queue of the progress stream holds 100
  events, as in the source. All other loops are structural or have a termination proof (Kahn's
  algorithm, the replacement in a text). A worker's 16 turns are enough for the longest path
  (\<open>remaining\<close> counts down from 16 in every environment), and so are a callback's 6 (\<open>call_left\<close>)
  and a scan's eight for each row and four (\<open>scan_left\<close>). The 18 of C5 are a worker's turns, its answer,
  and taking the message. Python's integers are unbounded and so are the model's.

  \<^bold>\<open>Not modelled.\<close> Uploads, and the reads of the API, run as a whole: nothing else knows an
  upload's rows before they are committed. \<open>now()\<close> in the database is the clock at the UPDATE, not at the
  start of its transaction. A statement that waits for a lock is a turn that is not yet enabled. The
  sleeps of the worker and the reaper. A failure to close a connection after its message was
  sent. Values that the database refuses to store, such as a JSON text with an escaped NUL character in
  \<open>webhook_events.payload\<close> (\<open>routes_impl/webhooks.py\<close>, line 27), which ends the request in a 500.
  What FastAPI, pydantic and \<open>HTTPBearer\<close> do before a route is entered. The engine with its
  pool (\<open>app/db.py\<close>) and \<open>migrations/env.py\<close>, which only configure and call libraries (SQLAlchemy and
  Alembic), whose code is not here.
\<close>

section \<open>What the system guarantees\<close>

subsection \<open>In every state of every run\<close>

text \<open>
  C1: In every state that the system reaches, whatever the order of uploads, deliveries,
  redeliveries, reaper scans, partner calls, broker failures, dead letters and crashes between
  two commits, the database is well formed: the schema's constraints hold, every document has
  its four steps, every row is consistent with its status (attempts within the limit, results,
  error texts, job identifiers and dates exactly where they belong), no step has left PENDING
  before its predecessors were DONE, and job identifiers do not repeat. The same held after
  each single commit on the way, and every message in the broker is for a step that has left
  PENDING.
\<close>

theorem reachable_states_are_consistent:
  assumes "reachable env (w, M)" and "1 \<le> step_max_attempts (env_settings env)"
  shows "pipeline_ok (env_settings env) (committed w) \<and>
    (\<forall>db \<in> set (committed_of (trace w)). pipeline_ok (env_settings env) db) \<and>
    (\<forall>p \<in> set_mset M. deliverable p (committed w))"
proof -
  obtain db where "pipeline_ok (env_settings env) db" "effect_path (env_settings env) db (trace w)"
    by (rule reachable_path [OF assms]) simp
  with effect_path_ok assms(2) have "\<forall>db \<in> set (committed_of (trace w)). pipeline_ok (env_settings env) db" by blast
  with reachable_system_ok [OF assms] show ?thesis by (simp add: system_ok_def)
qed

lemma demo_reachable: "reachable demo_env (uploaded_world, {# \<lparr>payload_document_id = 7, payload_step = OCR\<rparr> #})"
  using demo_initial demo_run unfolding reachable_def by blast

theorem reachable_states_are_consistent_witness:
  "pipeline_ok default_settings (committed uploaded_world) \<and>
    deliverable \<lparr>payload_document_id = 7, payload_step = OCR\<rparr> (committed uploaded_world)"
  using reachable_states_are_consistent [OF demo_reachable] by simp

text \<open>
  C7: While no process dies in the middle of an operation, the stored status of every document
  is the one that its four steps determine: FAILED when one of them is in ERROR, READY when the
  external call is DONE, PROCESSING otherwise.
\<close>

theorem document_status_follows_the_steps:
  assumes "initial s" and "(smooth_step env)\<^sup>*\<^sup>* s s'" and "1 \<le> step_max_attempts (env_settings env)"
    and "find_document d (committed (fst s')) = Some q"
  shows "doc_status q = (if \<exists>n. status_of d n (committed (fst s')) = Some ERROR then FAILED
    else if status_of d EXTERNAL_CALL (committed (fst s')) = Some DONE then READY else PROCESSING)"
proof -
  have "\<forall>e. in_sync e (committed (fst s))"
    using assms(1) by (auto simp: initial_def in_sync_def find_document_def)
  from smooth_steps_in_sync [OF assms(2,3) initial_ok [OF assms(1)] this]
  have "system_ok env s'" "in_sync d (committed (fst s'))" by simp_all
  with assms(4) show ?thesis
    using derive_status [OF pipeline_okD(1), of "env_settings env" "committed (fst s')" d] by (auto simp: in_sync_def system_ok_def)
qed

theorem document_status_follows_the_steps_witness:
  "\<exists>q. find_document 7 (committed uploaded_world) = Some q \<and> doc_status q = PROCESSING"
proof -
  obtain q where q: "find_document 7 (committed uploaded_world) = Some q"
    using uploaded_on_track by (auto simp: on_track_def)
  have st: "status_of 7 s (committed uploaded_world) = Some (start_statuses s)" for s
    using uploaded_on_track by (simp add: on_track_def)
  from document_status_follows_the_steps [OF demo_initial r_into_rtranclp [of "smooth_step demo_env", OF demo_step] _, of 7 q] q
  show ?thesis by (simp add: st start_statuses_def)
qed

text \<open>
  C8: A stored READY or FAILED never lies, even after crashes: a READY document has all its four
  steps DONE, a FAILED one has a step in ERROR.
\<close>

theorem stored_status_never_lies:
  assumes "reachable env (w, M)" and "1 \<le> step_max_attempts (env_settings env)"
    and "find_document d (committed w) = Some q"
  shows "(doc_status q = READY \<longrightarrow> (\<forall>n. status_of d n (committed w) = Some DONE)) \<and>
    (doc_status q = FAILED \<longrightarrow> (\<exists>n. status_of d n (committed w) = Some ERROR))"
  using reachable_honest [OF assms(1,2)] find_documentD [OF assms(3)] unfolding honest_def by auto

theorem stored_status_never_lies_witness: "status_of 7 CHUNKING (committed ready_world) = Some DONE"
proof -
  obtain M where "reachable demo_env (ready_world, M)" using demo_ready_reachable by blast
  with ready_document stored_status_never_lies [of demo_env ready_world M 7] show ?thesis by auto
qed

subsection \<open>Along the life of a document\<close>

text \<open>
  C11: A document whose four steps succeed ends READY when the partner reports completion and
  FAILED when it reports a failure, in whichever order the two middle branches complete; the
  detail of the READY document shows the OCR text, the metadata, the chunks, the job identifier
  and exactly the result that the partner sent.
\<close>

theorem uploads_become_ready:
  fixes new_id :: uuid and abspath :: "string \<Rightarrow> string" and filename :: "string option" and data :: string
  assumes "clean w" "pipeline_ok cfg (committed w)" "honest (committed w)" "upload_guard cfg d ids user w" "faults w = []"
    and "\<And>s. \<not> step_fails (dr s)" "\<And>s. parse_body (body s) = Some \<lparr>payload_document_id = d, payload_step = s\<rparr>"
    and "job_unused (''j_'' @ take 16 (uuid_hex (job_uuid (dr EXTERNAL_CALL)))) (committed w)"
    and "(a, b) \<in> {(METADATA, CHUNKING), (CHUNKING, METADATA)}"
    and "verify_signature cfg hmac_sha256 raw signature = Inr True"
    and "model_validate_json parse_json parse_datetime raw = Some p"
    and "wp_job_id p = ''j_'' @ take 16 (uuid_hex (job_uuid (dr EXTERNAL_CALL)))"
    and "out = partner_webhook cfg hmac_sha256 parse_json parse_datetime new_id raw signature
      (four_deliveries cfg parse_body dr body [OCR, a, b, EXTERNAL_CALL]
        (snd (upload_document cfg abspath d ids user filename data w)))"
  shows "fst out = Answer \<lparr>wr_status = PROCESSED,
      wr_document_status = Some (if wp_status p = COMPLETED then READY else FAILED)\<rparr> \<and>
    (\<exists>detail. get_document_route (user_org_id user) d (snd out) = Answer detail \<and> dd_filename detail = upload_name filename \<and>
      dd_status detail = (if wp_status p = COMPLETED then READY else FAILED) \<and>
      (wp_status p = COMPLETED \<longrightarrow> (\<exists>t m cs. dd_data detail = Some \<lparr>ed_ocr_text = Some t, ed_metadata = Some m,
        ed_chunks = Some cs, ed_external_job_id = Some (wp_job_id p), ed_partner_result = Some (wp_result p)\<rparr>)))"
proof -
  note path = happy_path [where abspath = abspath and filename = filename and data = data and new_id = new_id
      and parse_body = parse_body and body = body and dr = dr and parse_json = parse_json and parse_datetime = parse_datetime,
      OF assms(1-12), folded assms(13)]
  from path(2) obtain q where q: "find_document d (committed (snd out)) = Some q" "doc_org_id q = user_org_id user"
    "doc_filename q = upload_name filename" "doc_status q = (if wp_status p = COMPLETED then READY else FAILED)" by blast
  from get_document_detail_final [OF path(3-5) q(1)] path(6) path(1) q show ?thesis
    by (auto simp: get_document_route_def open_session_clean [OF path(3)])
qed


lemma demo_journey:
  "honest (committed demo_world)"
  "job_unused (''j_'' @ take 16 (uuid_hex (job_uuid good_draws))) (committed demo_world)"
  "pipeline_ok default_settings (committed demo_world)"
  "wp_job_id demo_payload = ''j_'' @ take 16 (uuid_hex (job_uuid good_draws))"
  by (simp_all add: honest_def job_unused_def demo_db_def demo_ok [unfolded demo_db_def] demo_payload_def demo_job_def)

theorem uploads_become_ready_witness:
  "\<exists>detail. get_document_route 1 7 ready_world = Answer detail \<and> dd_status detail = READY \<and>
    (\<exists>e. dd_data detail = Some e \<and> ed_partner_result e = Some demo_result)"
  using uploads_become_ready [where abspath = "\<lambda>p. p" and filename = "Some ''a.pdf''" and data = "''bytes''" and new_id = 99
      and parse_body = demo_parse_body and body = demo_body and dr = "\<lambda>_. good_draws" and parse_json = demo_parse_json
      and parse_datetime = "\<lambda>_. None" and a = METADATA and b = CHUNKING and w = demo_world,
      OF _ demo_journey(3,1) demo_guard _ _ _ demo_journey(2) _ demo_signature_ok demo_webhook_payload demo_journey(4) refl]
  by (auto simp: ready_world_def waiting_world_def uploaded_world_def demo_payload_def)

text \<open>
  C12: A step that fails at every delivery is retried until \<open>step_max_attempts\<close> runs have been
  made, each answered with a requeue except the last, which is acknowledged; then the step is
  in ERROR with exactly that many attempts and its document is FAILED.
\<close>

theorem failing_steps_exhaust_their_attempts:
  assumes "on_track cfg d st w" "1 \<le> step_max_attempts cfg" "st s \<in> {QUEUED, RUNNING}"
    and "parse_body body = Some \<lparr>payload_document_id = d, payload_step = s\<rparr>"
    and "find_step d s (committed w) = Some r"
    and "\<forall>dr \<in> set drs. step_fails dr" "\<forall>dr \<in> set drs. fresh_job dr s (committed w)"
    and "int (length drs) = step_max_attempts cfg - st_attempts r"
  shows "fst (redeliver cfg parse_body body drs w) = replicate (length drs - 1) BasicNackRequeue @ [BasicAck] \<and>
    (\<exists>r'. find_step d s (committed (snd (redeliver cfg parse_body body drs w))) = Some r' \<and>
      st_status r' = ERROR \<and> st_attempts r' = step_max_attempts cfg) \<and>
    (\<exists>q. find_document d (committed (snd (redeliver cfg parse_body body drs w))) = Some q \<and> doc_status q = FAILED)"
  by (rule redeliver_exhausts [where parse_body = parse_body, OF assms])

theorem failing_steps_exhaust_their_attempts_witness:
  "fst (redeliver default_settings demo_parse_body (demo_body OCR) (replicate 5 bad_draws) uploaded_world) =
    [BasicNackRequeue, BasicNackRequeue, BasicNackRequeue, BasicNackRequeue, BasicAck]"
  using failing_steps_exhaust_their_attempts [where parse_body = demo_parse_body and body = "demo_body OCR" and s = OCR
      and drs = "replicate 5 bad_draws", OF uploaded_on_track _ _ _ demo_steps]
  by (simp add: start_statuses_def fresh_job_def new_step_def eval_nat_numeral)

text \<open>
  C20: In every reachable state the owner's organization gets the detail of a document, and when
  the document is READY the answer has all five extracted fields; before that it has none.
\<close>

theorem owners_see_complete_documents:
  assumes "reachable env (w, M)" and "1 \<le> step_max_attempts (env_settings env)"
    and "find_document d (committed w) = Some q"
  shows "\<exists>detail. get_document_route (doc_org_id q) d w = Answer detail \<and> dd_id detail = d \<and> dd_status detail = doc_status q \<and>
    dd_steps detail = map step_out_of (document_steps d w) \<and>
    (if doc_status q = READY
     then \<exists>t m cs j pr. dd_data detail = Some \<lparr>ed_ocr_text = Some t, ed_metadata = Some m, ed_chunks = Some cs,
       ed_external_job_id = Some j, ed_partner_result = Some pr\<rparr>
     else dd_data detail = None)"
proof -
  have "clean w" "pipeline_ok (env_settings env) (committed w)"
    using reachable_system_ok [OF assms(1,2)] by (simp_all add: system_ok_def)
  from get_document_detail_owner [OF this _ assms(3)] reachable_honest [OF assms(1,2)] this(1) show ?thesis
    by (auto simp: get_document_route_def)
qed

theorem owners_see_complete_documents_witness:
  "\<exists>detail e. get_document_route 1 7 ready_world = Answer detail \<and> dd_data detail = Some e \<and> ed_ocr_text e \<noteq> None"
proof -
  obtain M where "reachable demo_env (ready_world, M)" using demo_ready_reachable by blast
  with ready_document owners_see_complete_documents [of demo_env ready_world M 7] show ?thesis by fastforce
qed

text \<open>
  C21: Tenants are isolated: another organization's document is answered exactly like one that does
  not exist, 404, and whatever page it asks for, an organization is only shown rows of its own.
\<close>

theorem tenants_are_isolated:
  assumes "clean w" and "\<And>q. find_document d (committed w) = Some q \<Longrightarrow> doc_org_id q \<noteq> org"
  shows "get_document_route org d w = HTTPException 404 ''document not found'' \<and>
    (\<forall>row \<in> set (list_org_documents org limit after_key w). doc_org_id (fst row) = org \<and> fst row \<in> set (documents (committed w)))"
proof -
  have "get_document_detail org d (open_session w) = Inr None"
    using get_document_detail_other [OF assms] assms(1) by simp
  moreover have "working w = committed w" using assms(1) by (simp add: clean_def)
  then have "doc_org_id (fst row) = org \<and> fst row \<in> set (documents (committed w))"
    if "row \<in> set (list_org_documents org limit after_key w)" for row
    using in_set_takeD [OF that [unfolded list_org_documents_def]] by (auto simp: page_candidates_def)
  ultimately show ?thesis by (simp add: get_document_route_def)
qed

theorem tenants_are_isolated_witness: "get_document_route 3 7 ready_world = HTTPException 404 ''document not found''"
proof -
  have "doc_org_id q \<noteq> 3" if "find_document 7 (committed ready_world) = Some q" for q
    using ready_document that by auto
  from tenants_are_isolated [OF ready_ok(1) this, of 7] show ?thesis by simp
qed

text \<open>
  C22: A client that follows \<open>next_cursor\<close> from the first page, with any page size, sees every
  document of its organization exactly once and no other, newest first, and the walk ends within as
  many requests as there are documents, plus one.
\<close>

theorem page_walk_lists_every_document_once:
  assumes "date_codec binds isoformat fromisoformat" and "schema_ok (working w)" and "0 < n"
  shows "\<exists>items. walk_documents binds decimal isoformat fromisoformat org (int n) w (Suc (length (documents (working w)))) None = Some (Inr items) \<and>
    mset (map dli_id items) = mset (map doc_id (filter (\<lambda>r. doc_org_id r = org) (documents (working w)))) \<and>
    sorted_wrt (\<lambda>a b. (dli_created_at b, dli_id b) < (dli_created_at a, dli_id a)) items"
proof (intro exI conjI)
  show "walk_documents binds decimal isoformat fromisoformat org (int n) w (Suc (length (documents (working w)))) None =
      Some (Inr (map list_item_of (org_rows org (working w))))"
    by (rule walk_documents_all [OF assms])
  have "map dli_id (map list_item_of rows) = map (\<lambda>row. doc_id (fst row)) rows" for rows
    by (simp add: list_item_of_def case_prod_beta)
  then show "mset (map dli_id (map list_item_of (org_rows org (working w)))) =
      mset (map doc_id (filter (\<lambda>r. doc_org_id r = org) (documents (working w))))"
    by (simp only: org_rows_ids [OF assms(2)])
  show "sorted_wrt (\<lambda>a b. (dli_created_at b, dli_id b) < (dli_created_at a, dli_id a)) (map list_item_of (org_rows org (working w)))"
    by (rule items_descending [OF assms(2)])
qed

theorem page_walk_lists_every_document_once_witness:
  "\<exists>items. walk_documents demo_binds (\<lambda>_. None) demo_isoformat demo_fromisoformat 1 1 ready_world
    (Suc (length (documents (working ready_world)))) None = Some (Inr items) \<and> 7 \<in> dli_id ` set items"
proof -
  have work: "working ready_world = committed ready_world" using ready_ok(1) by (simp add: clean_def)
  note ok = pipeline_okD(1) [OF ready_ok(2), folded work]
  obtain q where "find_document 7 (working ready_world) = Some q" "doc_org_id q = 1" using ready_document work by auto
  then have q: "q \<in> set (documents (working ready_world))" "doc_id q = 7" "doc_org_id q = 1"
    using find_documentD by auto
  from page_walk_lists_every_document_once [OF demo_date_codec ok, of 1 "\<lambda>_. None" 1] obtain items where
    items: "walk_documents demo_binds (\<lambda>_. None) demo_isoformat demo_fromisoformat 1 1 ready_world
      (Suc (length (documents (working ready_world)))) None = Some (Inr items)"
    "mset (map dli_id items) = mset (map doc_id (filter (\<lambda>r. doc_org_id r = 1) (documents (working ready_world))))" by auto
  have "7 \<in> set (map doc_id (filter (\<lambda>r. doc_org_id r = 1) (documents (working ready_world))))" using q by force
  then have "7 \<in> set (map dli_id items)" unfolding mset_eq_setD [OF items(2)] .
  with items(1) show ?thesis by auto
qed

text \<open>
  C39: An upload between two page requests does not shift the pages that are still to be read:
  after a cursor of a document created before, the answer is the same as without the upload.
\<close>

theorem uploads_do_not_shift_later_pages:
  fixes w :: world and abspath :: "string \<Rightarrow> string" and filename :: "string option" and data :: string
  assumes "date_codec binds isoformat fromisoformat" and "clean w" "pipeline_ok cfg (committed w)" "upload_guard cfg d ids user w"
    and "t < clock w" and "w' = snd (upload_document cfg abspath d ids user filename data w)"
  shows "list_documents_route binds decimal isoformat fromisoformat reader limit (Some (encode_cursor isoformat t u)) w' =
    list_documents_route binds decimal isoformat fromisoformat reader limit (Some (encode_cursor isoformat t u)) w"
proof -
  have clean': "clean w'" using refines_clean [OF upload_document_db(1) [OF assms(2-4)]] assms(6) by simp
  from upload_document_db(2) [OF assms(2-4)] obtain name where
    db: "committed w' = uploaded cfg abspath d ids user name (clock w) (committed w)" using assms(6) by blast
  have "page_candidates (user_org_id reader) (Some (t, u)) (committed w') = page_candidates (user_org_id reader) (Some (t, u)) (committed w)"
    by (rule page_candidates_newer [where r = "(new_document user name d (clock w))\<lparr>doc_storage_uri :=
        as_uri (abspath (storage_path (storage_dir cfg) (user_org_id user) d))\<rparr>"])
      (use assms(5) in \<open>auto simp: db uploaded_def add_document_def document_key_def new_document_def\<close>)
  then have "page_candidates (user_org_id reader) (Some (t, u)) (working w') = page_candidates (user_org_id reader) (Some (t, u)) (working w)"
    using clean' assms(2) by (simp add: clean_def)
  from list_documents_candidates [OF assms(1) this] clean' assms(2) show ?thesis
    by (simp add: list_documents_route_def)
qed

theorem uploads_do_not_shift_later_pages_witness:
  "list_documents_route demo_binds (\<lambda>_. None) demo_isoformat demo_fromisoformat demo_user 5 (Some (encode_cursor demo_isoformat (- 1) 7))
      (snd (upload_document default_settings (\<lambda>p. p) 7 demo_ids demo_user None ''x'' demo_world)) =
   list_documents_route demo_binds (\<lambda>_. None) demo_isoformat demo_fromisoformat demo_user 5 (Some (encode_cursor demo_isoformat (- 1) 7)) demo_world"
  by (rule uploads_do_not_shift_later_pages [where abspath = "\<lambda>p. p" and filename = None and data = "''x''", OF demo_date_codec _ _ demo_guard _ refl])
    (simp_all add: demo_ok)

subsection \<open>Messages and crashes\<close>

text \<open>
  C14: A redelivered message is harmless: for a step that is finished, waiting for the partner or
  failed, or whose document is FAILED or gone, the worker acknowledges it and changes nothing,
  whatever the step function would draw.
\<close>

theorem redeliveries_are_harmless:
  assumes "clean w" "pipeline_ok cfg (committed w)" "parse_body body = Some p"
    and "status_of (payload_document_id p) (payload_step p) (committed w) \<notin> {Some PENDING, Some QUEUED, Some RUNNING} \<or>
      (\<forall>q. find_document (payload_document_id p) (committed w) = Some q \<longrightarrow> doc_status q = FAILED)"
  shows "callback cfg parse_body dr body w = (BasicAck, w)"
proof -
  have "runnable_row (payload_step p) (payload_document_id p) w = None"
  proof (rule ccontr)
    assume "runnable_row (payload_step p) (payload_document_id p) w \<noteq> None"
    then obtain r where "runnable_row (payload_step p) (payload_document_id p) w = Some r" by auto
    with runnable_row_iff [OF assms(1,2)] assms(4) show False by (auto simp: status_of_def)
  qed
  from handle_nothing [OF this] assms(1,3) show ?thesis
    by (simp add: callback_def session_scope_def handle_in_session_def)
qed

theorem redeliveries_are_harmless_witness:
  "callback default_settings demo_parse_body bad_draws (demo_body OCR) waiting_world = (BasicAck, waiting_world)"
proof -
  have "clean waiting_world" "pipeline_ok default_settings (committed waiting_world)"
    "status_of 7 OCR (committed waiting_world) = Some DONE"
    using waiting_on_track by (simp_all add: on_track_def)
  with redeliveries_are_harmless [where parse_body = demo_parse_body and body = "demo_body OCR" and w = waiting_world] show ?thesis by simp
qed

text \<open>
  C23: A successful delivery does exactly this: the step becomes DONE (the external call
  AWAITING_CALLBACK); each PENDING step whose predecessors are now all DONE is claimed, so that its row
  becomes QUEUED, and has one message sent, and no other message is sent; no other step's row changes, in
  this or any other document, and no other document's row does.
\<close>

theorem successful_deliveries:
  assumes "clean w" "pipeline_ok cfg (committed w)" "1 \<le> step_max_attempts cfg" "faults w = []"
    and "deliverable p (committed w)" "fresh_job dr (payload_step p) (committed w)"
    and "runnable_row (payload_step p) (payload_document_id p) w = Some r" "\<not> step_fails dr"
    and "w' = snd (handle cfg dr (payload_step p) p w)" "d = payload_document_id p" "s = payload_step p"
    and "claimed = {t. status_of d t (committed w) = Some PENDING \<and> s \<noteq> EXTERNAL_CALL \<and>
      (\<forall>q \<in> parents PIPELINE t. q = s \<or> status_of d q (committed w) = Some DONE)}"
  shows "fst (handle cfg dr (payload_step p) p w) = Inr ACK \<and>
    status_of d s (committed w') = Some (if s = EXTERNAL_CALL then AWAITING_CALLBACK else DONE) \<and>
    (\<exists>ts. sent_of (trace w') = sent_of (trace w) @ map (\<lambda>t. \<lparr>payload_document_id = d, payload_step = t\<rparr>) ts \<and>
      distinct ts \<and> set ts = claimed) \<and>
    (\<forall>e t. (e, t) \<noteq> (d, s) \<longrightarrow> find_step e t (committed w') =
      (if e = d \<and> t \<in> claimed then map_option (queued_at (clock w)) (find_step e t (committed w)) else find_step e t (committed w))) \<and>
    (\<forall>e. e \<noteq> d \<longrightarrow> find_document e (committed w') = find_document e (committed w))"
proof -
  note eff = handle_success [OF assms(1-3,5-7,4,8), folded assms(9-11)]
  have "status_of d s (committed w) \<noteq> Some PENDING" using assms(5,10,11) by (auto simp: deliverable_def status_of_def)
  then have claimed: "after_success s (\<lambda>t. status_of d t (committed w)) t = Some QUEUED \<and> status_of d t (committed w) = Some PENDING \<longleftrightarrow>
      t \<in> claimed" for t
    by (auto simp: after_success_def Let_def assms(12))
  have "status_of d s (committed w') = Some (if s = EXTERNAL_CALL then AWAITING_CALLBACK else DONE)"
    using eff(3) [of d s] by (simp add: after_success_def Let_def)
  moreover have "\<exists>ts. sent_of (trace w') = sent_of (trace w) @ map (\<lambda>t. \<lparr>payload_document_id = d, payload_step = t\<rparr>) ts \<and>
      distinct ts \<and> set ts = claimed"
    using eff(4) by (simp add: claimed)
  moreover have "find_step e t (committed w') =
      (if e = d \<and> t \<in> claimed then map_option (queued_at (clock w)) (find_step e t (committed w)) else find_step e t (committed w))"
    if "(e, t) \<noteq> (d, s)" for e t
    using eff(5) [OF that] claimed [of t] by auto
  moreover have "find_document e (committed w') = find_document e (committed w)" if "e \<noteq> d" for e
    using refines_same [OF refines_handle [OF assms(1-3,5,6), folded assms(9,10)], of e] that by (simp add: same_document_def)
  ultimately show ?thesis using eff(1) assms(11) by simp
qed

theorem successful_deliveries_witness:
  "\<exists>ts. sent_of (trace (snd (handle default_settings good_draws OCR \<lparr>payload_document_id = 7, payload_step = OCR\<rparr> uploaded_world))) =
      sent_of (trace uploaded_world) @ map (\<lambda>t. \<lparr>payload_document_id = 7, payload_step = t\<rparr>) ts \<and> distinct ts \<and> set ts = {METADATA, CHUNKING}"
proof -
  let ?p = "\<lparr>payload_document_id = 7, payload_step = OCR\<rparr>"
  have st: "start_statuses OCR \<in> {QUEUED, RUNNING}" by (simp add: start_statuses_def)
  obtain r where r: "runnable_row (payload_step ?p) (payload_document_id ?p) uploaded_world = Some r"
    using on_track_runnable(1) [OF uploaded_on_track st] by auto
  have ok: "clean uploaded_world" "pipeline_ok default_settings (committed uploaded_world)" "faults uploaded_world = []"
    and status: "\<And>t. status_of 7 t (committed uploaded_world) = Some (start_statuses t)"
    using uploaded_on_track by (simp_all add: on_track_def)
  have "t \<in> {METADATA, CHUNKING} \<longleftrightarrow> start_statuses t = PENDING \<and> (\<forall>q \<in> parents PIPELINE t. q = OCR \<or> start_statuses q = DONE)" for t
    by (cases t) (simp_all add: start_statuses_def pipeline_parents)
  then have "{METADATA, CHUNKING} = {t. status_of 7 t (committed uploaded_world) = Some PENDING \<and> OCR \<noteq> EXTERNAL_CALL \<and>
      (\<forall>q \<in> parents PIPELINE t. q = OCR \<or> status_of 7 q (committed uploaded_world) = Some DONE)}"
    by (auto simp: status)
  with successful_deliveries [OF ok(1,2) _ ok(3) on_track_runnable(2) [OF uploaded_on_track st] _ r _ refl refl refl, where dr = good_draws and claimed = "{METADATA, CHUNKING}"]
  show ?thesis by (simp add: fresh_job_def)
qed

text \<open>
  C13: A failing delivery adds exactly one attempt to its step, returns it to QUEUED with a requeue
  of the message while attempts remain and to ERROR with an acknowledgement otherwise, sends no
  message, and leaves every other step's row and every other document as they were.
\<close>

theorem failing_deliveries:
  assumes "clean w" "pipeline_ok cfg (committed w)" "1 \<le> step_max_attempts cfg" "deliverable p (committed w)"
    and "runnable_row (payload_step p) (payload_document_id p) w = Some r" "step_fails dr"
    and "last_try \<longleftrightarrow> st_attempts r + 1 \<ge> step_max_attempts cfg" "w' = snd (handle cfg dr (payload_step p) p w)"
  shows "fst (handle cfg dr (payload_step p) p w) = Inr (if last_try then ACK else RETRY) \<and>
    (\<exists>r'. find_step (payload_document_id p) (payload_step p) (committed w') = Some r' \<and>
      st_attempts r' = st_attempts r + 1 \<and> st_status r' = (if last_try then ERROR else QUEUED)) \<and>
    (\<forall>e t. (e, t) \<noteq> (payload_document_id p, payload_step p) \<longrightarrow> find_step e t (committed w') = find_step e t (committed w)) \<and>
    (\<forall>e. e \<noteq> payload_document_id p \<longrightarrow> find_document e (committed w') = find_document e (committed w)) \<and>
    sent_of (trace w') = sent_of (trace w)"
  using handle_failure [OF assms(1-6)] assms(7,8) by simp

theorem failing_deliveries_witness:
  "\<exists>r'. find_step 7 OCR (committed (snd (handle default_settings bad_draws OCR \<lparr>payload_document_id = 7, payload_step = OCR\<rparr> uploaded_world))) = Some r' \<and>
    st_attempts r' = 1 \<and> st_status r' = QUEUED"
proof -
  let ?p = "\<lparr>payload_document_id = 7, payload_step = OCR\<rparr>"
  have st: "start_statuses OCR \<in> {QUEUED, RUNNING}" by (simp add: start_statuses_def)
  obtain r where r: "runnable_row (payload_step ?p) (payload_document_id ?p) uploaded_world = Some r"
    using on_track_runnable(1) [OF uploaded_on_track st] by auto
  have ok: "clean uploaded_world" "pipeline_ok default_settings (committed uploaded_world)"
    using uploaded_on_track by (simp_all add: on_track_def)
  have "st_attempts r = 0" using runnable_rowD(1) [OF ok r] demo_steps [of OCR] by (auto simp: new_step_def)
  with failing_deliveries [OF ok _ on_track_runnable(2) [OF uploaded_on_track st] r _ refl refl, where dr = bad_draws]
  show ?thesis by simp
qed

text \<open>
  C17: A worker that dies between the commit of DONE and the triggering of the successors strands
  its document: the crash is possible for every fresh document, and afterwards no redelivery, scan,
  callback or upload ever moves it: OCR stays DONE and the other three steps stay PENDING.
\<close>

theorem a_crash_can_strand_a_document:
  assumes "system_ok env (w, M)" "1 \<le> step_max_attempts (env_settings env)"
    and "on_track (env_settings env) d start_statuses w"
    and "env_parse_body env body = Some p" "p = \<lparr>payload_document_id = d, payload_step = OCR\<rparr>" "p \<in># M" "\<not> step_fails dr"
  shows "\<exists>v. system_step env (w, M) (v, M) \<and> (\<forall>s'. (system_step env)\<^sup>*\<^sup>* (v, M) s' \<longrightarrow>
    (\<forall>n. status_of d n (committed (fst s')) = Some (if n = OCR then DONE else PENDING)))"
proof -
  obtain v where v: "system_step env (w, M) (v, M)" "stranded d (committed v)"
    using crash_strands_document [OF assms] by blast
  have "system_ok env (v, M)" by (rule system_step_ok [OF v(1) assms(2,1)])
  then have "stranded d (committed (fst s'))" if "(system_step env)\<^sup>*\<^sup>* (v, M) s'" for s'
    using stranded_for_ever [OF that assms(2)] v(2) by simp
  with v(1) show ?thesis unfolding stranded_def by blast
qed

theorem a_crash_can_strand_a_document_witness:
  "\<exists>v. reachable demo_env (v, {# \<lparr>payload_document_id = 7, payload_step = OCR\<rparr> #}) \<and>
    status_of 7 OCR (committed v) = Some DONE \<and> status_of 7 EXTERNAL_CALL (committed v) = Some PENDING"
proof -
  have "system_ok demo_env (uploaded_world, {# \<lparr>payload_document_id = 7, payload_step = OCR\<rparr> #})"
    using reachable_system_ok [OF demo_reachable] by simp
  from a_crash_can_strand_a_document [OF this, of 7 "demo_body OCR" _ good_draws] uploaded_on_track obtain v where
    v: "system_step demo_env (uploaded_world, {# \<lparr>payload_document_id = 7, payload_step = OCR\<rparr> #}) (v, {# \<lparr>payload_document_id = 7, payload_step = OCR\<rparr> #})"
    "\<forall>s'. (system_step demo_env)\<^sup>*\<^sup>* (v, {# \<lparr>payload_document_id = 7, payload_step = OCR\<rparr> #}) s' \<longrightarrow>
      (\<forall>n. status_of 7 n (committed (fst s')) = Some (if n = OCR then DONE else PENDING))" by auto
  have "reachable demo_env (v, {# \<lparr>payload_document_id = 7, payload_step = OCR\<rparr> #})"
    using reachable_steps [OF demo_reachable] v(1) by blast
  with v(2) [rule_format, OF rtranclp.rtrancl_refl] show ?thesis by auto
qed

subsection \<open>Recovery, refinement, announcements\<close>

text \<open>
  C24: A scan of the reaper does exactly two things while the broker is up: it sends one message
  for each step that has been QUEUED for longer than the step timeout, and it turns each call that
  waits for its partner for longer than the callback limit into ERROR with \<open>partner callback
  timeout\<close>, its document into FAILED; it reports how many rows it acted on and changes no other
  step.
\<close>

theorem a_scan_recovers_what_is_stuck:
  assumes "clean w" "pipeline_ok cfg (committed w)" "1 \<le> step_max_attempts cfg" "faults w = []" "w' = iteration cfg w"
  shows "fst (session_scope (run_once cfg) w) = Inr (int (length (stale_queued cfg w) + length (overdue cfg w))) \<and>
    sent_of (trace w') = sent_of (trace w) @ map (\<lambda>r. \<lparr>payload_document_id = st_document_id r, payload_step = st_name r\<rparr>) (stale_queued cfg w) \<and>
    (\<forall>r \<in> set (pipeline_steps (committed w)). r \<notin> set (overdue cfg w) \<longrightarrow> r \<in> set (pipeline_steps (committed w'))) \<and>
    (\<forall>r \<in> set (overdue cfg w). map_option doc_status (find_document (st_document_id r) (committed w')) = Some FAILED \<and>
      (\<exists>r'. find_step (st_document_id r) (st_name r) (committed w') = Some r' \<and> timed_out r r'))"
  using scan_exact [OF assms(1-4)] assms(5) by blast

theorem a_scan_recovers_what_is_stuck_witness:
  "\<exists>now. map_option doc_status (find_document 7 (committed (iteration default_settings (waiting_world\<lparr>clock := now\<rparr>)))) = Some FAILED"
proof -
  obtain r where r: "find_step 7 EXTERNAL_CALL (committed waiting_world) = Some r" "st_status r = AWAITING_CALLBACK" by (rule demo_row)
  let ?w = "waiting_world\<lparr>clock := st_updated_at r + 10 ^ 12\<rparr>"
  have ok: "clean ?w" "pipeline_ok default_settings (committed ?w)" "faults ?w = []"
    using waiting_on_track by (simp_all add: on_track_def clean_def)
  have r7: "r \<in> set (overdue default_settings ?w)" "st_document_id r = 7"
    using find_stepD [OF r(1)] r(2) by (simp_all add: overdue_def microseconds_def)
  have "map_option doc_status (find_document (st_document_id r) (committed (iteration default_settings ?w))) = Some FAILED"
    using a_scan_recovers_what_is_stuck [OF ok(1,2) demo_att ok(3) refl] r7(1) by blast
  then show ?thesis unfolding r7(2) by blast
qed

text \<open>
  C25: Every operation implements the contract of the pipeline: a delivery, a scan, a partner call
  and an upload take the database from each commit to the next by transitions of the step state
  machine, and leave every document but the ones they are about untouched at every commit.
\<close>

theorem operations_implement_the_contract:
  assumes "clean w" "pipeline_ok cfg (committed w)" "1 \<le> step_max_attempts cfg"
  shows "(delivery_guard parse_body dr body w \<longrightarrow>
      refines cfg (delivery_documents parse_body body) w (snd (callback cfg parse_body dr body w))) \<and>
    refines cfg (reaper_documents cfg w) w (iteration cfg w) \<and>
    refines cfg (webhook_documents parse_json parse_datetime raw (committed w)) w
      (snd (partner_webhook cfg hmac_sha256 parse_json parse_datetime new_id raw signature w)) \<and>
    (upload_guard cfg d ids user w \<longrightarrow> refines cfg {d} w (snd (upload_document cfg abspath d ids user filename data w)))"
  using refines_callback [OF assms] refines_iteration [OF assms] refines_partner_webhook [OF assms]
    upload_document_db(1) [OF assms(1,2)] by blast

theorem operations_implement_the_contract_witness:
  "refines default_settings {7} demo_world uploaded_world"
  using operations_implement_the_contract [where cfg = default_settings and w = demo_world and d = 7 and ids = demo_ids and user = demo_user
      and abspath = "\<lambda>p. p" and filename = "Some ''a.pdf''" and data = "''bytes''"] demo_guard demo_ok
  by (simp add: uploaded_world_def)

text \<open>
  C26: Announcements are true: each notification that a commit sends names a status that holds in
  the database of this very commit, be it of a step or of the document.
\<close>

theorem announcements_are_true:
  assumes "reachable env (w, M)" "1 \<le> step_max_attempts (env_settings env)"
    and "Committed db ns \<in> set (trace w)" "(d, e) \<in> set ns"
  shows "(\<exists>s st. e = step_event s st \<and> status_of d s db = Some st) \<or>
    (\<exists>q. e = doc_status_event (doc_status q) \<and> find_document d db = Some q)"
proof -
  obtain db0 where "pipeline_ok (env_settings env) db0" "effect_path (env_settings env) db0 (trace w)"
    by (rule reachable_path [OF assms(1,2)]) simp
  from effect_path_announced [OF this(2,1) assms(2-4)] show ?thesis by (simp add: announced_def)
qed

theorem announcements_are_true_witness:
  "\<exists>db ns. Committed db ns \<in> set (trace waiting_world) \<and>
    (\<forall>(d, e) \<in> set ns. (\<exists>s st. e = step_event s st \<and> status_of d s db = Some st) \<or>
      (\<exists>q. e = doc_status_event (doc_status q) \<and> find_document d db = Some q)) \<and> ns \<noteq> []"
proof -
  obtain M where M: "reachable demo_env (waiting_world, M)" using demo_waiting_reachable by blast
  from refinesE [OF waiting_refines] obtain es where es: "trace waiting_world = trace uploaded_world @ es"
    "effect_path default_settings (committed uploaded_world) es" "final_db (committed uploaded_world) es = committed waiting_world" by metis
  have st: "status_of 7 OCR (committed uploaded_world) = Some QUEUED" "status_of 7 OCR (committed waiting_world) = Some DONE"
    using uploaded_on_track waiting_on_track by (simp_all add: on_track_def start_statuses_def)
  have "pipeline_ok default_settings (committed uploaded_world)" using uploaded_on_track by (simp add: on_track_def)
  from effect_path_up_to_date [OF es(2) this, of 7 OCR "Some QUEUED"] st es(3)
  have "notified_of es \<noteq> []" by (auto simp: up_to_date_def waits_again_def status_of_def)
  then obtain db ns where "Committed db ns \<in> set es" "ns \<noteq> []"
    by (induction es rule: notified_of.induct) (auto split: if_splits)
  then have db: "Committed db ns \<in> set (trace waiting_world)" "ns \<noteq> []" using es(1) by simp_all
  with announcements_are_true [OF M _ db(1)] show ?thesis by fastforce
qed


end
